(* ===== verification/Prelude.thy ===== *)
theory Prelude
  imports Main "HOL-Library.Word" "HOL-Library.Char_ord" "HOL-Library.List_Lexorder"
begin

text \<open>
  Shared vocabulary of the development.

  \<^item> machine types: \<open>u64\<close> is both \<open>uint64_t\<close> and \<open>size_t\<close> of the LP64 target,
    \<open>i32\<close> is \<open>int\<close>; a \<open>char\<close> is a byte;
  \<^item> faults: the ways an operation of the program fails to return normally (a failed
    \<open>assert\<close>, an access outside a buffer, an exception that leaves a handler), and the
    result type that carries them;
  \<^item> byte strings as C and C++ read them: a read at the end of a \<open>std::string\<close> gives NUL,
    a \<open>const char*\<close> ends at the first NUL;
  \<^item> \<open>std::vector<char>\<close> with its \<open>resize\<close> and a checked \<open>memcpy\<close>;
  \<^item> \<open>std::map\<close> with string keys, kept as the sorted association list that iteration
    shows, with the interface \<open>ordered_store\<close> that both kinds of insertion provide;
  \<^item> the decimal routines \<open>to_string\<close>, \<open>strtol\<close>, \<open>atoi\<close>, \<open>atoll\<close>, \<open>strtoull\<close>.
\<close>

section \<open>Machine types, faults and results\<close>

unbundle bit_operations_syntax

type_synonym u64 = "64 word"
type_synonym i32 = "32 word"

named_theorems model_defs \<open>definitions of the model to unfold in functional proofs\<close>
named_theorems keeps \<open>what an operation of the program leaves unchanged\<close>

datatype fault =
    AssertFailed        \<comment> \<open>\<open>assert\<close> of the source\<close>
  | OutOfBounds         \<comment> \<open>a read or write outside the object (undefined behaviour)\<close>
  | BadCast             \<comment> \<open>a floating value converted to an integer type that cannot hold it\<close>
  | LengthError         \<comment> \<open>\<open>std::length_error\<close> thrown by \<open>resize\<close>\<close>
  | NullPointer         \<comment> \<open>a null \<open>shared_ptr\<close> dereferenced\<close>
  | SystemError         \<comment> \<open>\<open>boost::system::system_error\<close> thrown by a call without \<open>ec\<close>\<close>

type_synonym 'a result = "fault + 'a"

definition rbind :: "'a result \<Rightarrow> ('a \<Rightarrow> 'b result) \<Rightarrow> 'b result" where
  "rbind r f = (case r of Inl e \<Rightarrow> Inl e | Inr x \<Rightarrow> f x)"

definition require :: "bool \<Rightarrow> fault \<Rightarrow> unit result" where
  "require b e = (if b then Inr () else Inl e)"

lemma rbind_simps [simp]: "rbind (Inl e) f = Inl e" "rbind (Inr x) f = f x"
  by (simp_all add: rbind_def)

lemma rbind_Inr_iff: "rbind r f = Inr y \<longleftrightarrow> (\<exists>x. r = Inr x \<and> f x = Inr y)"
  by (cases r) simp_all

lemma rbind_assoc: "rbind (rbind r f) g = rbind r (\<lambda>x. rbind (f x) g)"
  by (cases r) simp_all

lemma unat_of_nat_small [simp]: "n < 2 ^ 63 \<Longrightarrow> unat (of_nat n :: u64) = n"
  by (simp add: unat_of_nat)

lemma require_Inr_iff [simp]: "require b e = Inr u \<longleftrightarrow> b"
  by (simp add: require_def)

lemma require_simps [simp]: "require True e = Inr ()" "require False e = Inl e"
  by (simp_all add: require_def)

section \<open>Bytes and strings\<close>

abbreviation NULC :: char where "NULC \<equiv> CHR 0x00"
abbreviation CR :: char where "CR \<equiv> CHR 0x0D"
abbreviation LF :: char where "LF \<equiv> CHR 0x0A"
abbreviation TAB :: char where "TAB \<equiv> CHR 0x09"
abbreviation QUOTE :: char where "QUOTE \<equiv> CHR 0x22"
abbreviation BSLASH :: char where "BSLASH \<equiv> CHR 0x5C"

definition crlf :: string where "crlf = [CR, LF]"

definition byte :: "char \<Rightarrow> nat" where
  "byte c = of_char c"

text \<open>\<open>char\<close> is signed on the target: the value a \<open>char\<close> has after integer promotion.\<close>

definition schar :: "char \<Rightarrow> int" where
  "schar c = (if byte c < 128 then int (byte c) else int (byte c) - 256)"

text \<open>\<open>str[i]\<close> of a \<open>const std::string\<close>: the terminating NUL at \<open>i = size()\<close>.\<close>

definition char_at :: "string \<Rightarrow> nat \<Rightarrow> char" where
  "char_at s i = (if i < length s then s ! i else NULC)"

text \<open>The characters a \<open>const char*\<close> to this array denotes.\<close>

definition c_str :: "string \<Rightarrow> string" where
  "c_str s = takeWhile (\<lambda>c. c \<noteq> NULC) s"

lemma byte_less_256 [simp]: "byte c < 256"
  by (simp add: byte_def)

lemma byte_eq_iff [simp]: "byte c = byte d \<longleftrightarrow> c = d"
  by (simp add: byte_def)

lemma char_at_drop: "drop i s = c # r \<Longrightarrow> char_at s i = c"
  by (metis char_at_def drop_all list.distinct(1) not_less nth_via_drop)

lemma char_at_end: "drop i s = [] \<Longrightarrow> char_at s i = NULC"
  by (simp add: char_at_def)

lemma char_at_nonnul_less: "char_at s i \<noteq> NULC \<Longrightarrow> i < length s"
  by (auto simp: char_at_def split: if_splits)

lemma drop_Suc_tl: "drop i s = c # r \<Longrightarrow> drop (Suc i) s = r"
  by (metis drop_Suc tl_drop list.sel(3))

lemma drop_append_ge: "drop i s = xs @ r \<Longrightarrow> drop (i + length xs) s = r"
  by (metis add.commute append_eq_conv_conj drop_drop)

lemma drop_Cons_less: "drop i s = c # r \<Longrightarrow> i < length s"
  by (metis drop_all list.distinct(1) not_less)

lemma c_str_no_nul [simp]: "NULC \<notin> set (c_str s)"
  by (auto simp: c_str_def dest: set_takeWhileD)

lemma c_str_id [simp]: "NULC \<notin> set s \<Longrightarrow> c_str s = s"
  by (auto simp: c_str_def)

lemma c_str_append_nul [simp]: "NULC \<notin> set s \<Longrightarrow> c_str (s @ NULC # r) = s"
  unfolding c_str_def by (subst takeWhile_append2) auto

lemma length_c_str: "length (c_str s) \<le> length s"
  by (simp add: c_str_def length_takeWhile_le)

section \<open>Byte vectors\<close>

text \<open>
  \<open>std::vector<char>::resize\<close>: new elements are NUL; more than \<open>PTRDIFF_MAX\<close> elements
  is \<open>std::length_error\<close>.
\<close>

definition vec_resize :: "u64 \<Rightarrow> string \<Rightarrow> string result" where
  "vec_resize n v =
     (if unat n \<ge> 2 ^ 63 then Inl LengthError
      else Inr (take (unat n) v @ replicate (unat n - length v) NULC))"

text \<open>\<open>memcpy (v.data () + off, src, src.size ())\<close>, a fault when it would leave the vector.\<close>

definition vec_write :: "string \<Rightarrow> nat \<Rightarrow> string \<Rightarrow> string result" where
  "vec_write v off src =
     (if off + length src \<le> length v
      then Inr (take off v @ src @ drop (off + length src) v) else Inl OutOfBounds)"

lemma vec_resize_length: "vec_resize n v = Inr v' \<Longrightarrow> length v' = unat n"
  by (auto simp: vec_resize_def split: if_splits)

lemma vec_write_length: "vec_write v off src = Inr v' \<Longrightarrow> length v' = length v"
  by (auto simp: vec_write_def split: if_splits)

lemma vec_write_content:
  "vec_write v off src = Inr v' \<Longrightarrow> take (length src) (drop off v') = src"
  by (auto simp: vec_write_def split: if_splits)

lemma vec_write_prefix: "vec_write v off src = Inr v' \<Longrightarrow> take off v' = take off v"
  by (auto simp: vec_write_def split: if_splits)

section \<open>Maps with ordered keys\<close>

text \<open>
  A \<open>std::map\<close> is the list of its entries in key order, each key once. \<open>map_assign\<close> is
  \<open>m[k] = v\<close> (a second value replaces the first), \<open>map_insert\<close> is \<open>m.insert ({k, v})\<close>
  (the first value stays).
\<close>

definition sorted_keys :: "('k::linorder \<times> 'v) list \<Rightarrow> bool" where
  "sorted_keys m = sorted_wrt (<) (map fst m)"

fun map_assign :: "'k::linorder \<Rightarrow> 'v \<Rightarrow> ('k \<times> 'v) list \<Rightarrow> ('k \<times> 'v) list" where
  "map_assign k v [] = [(k, v)]"
| "map_assign k v ((k', v') # m) =
     (if k < k' then (k, v) # (k', v') # m
      else if k = k' then (k, v) # m
      else (k', v') # map_assign k v m)"

fun map_insert :: "'k::linorder \<Rightarrow> 'v \<Rightarrow> ('k \<times> 'v) list \<Rightarrow> ('k \<times> 'v) list" where
  "map_insert k v [] = [(k, v)]"
| "map_insert k v ((k', v') # m) =
     (if k < k' then (k, v) # (k', v') # m
      else if k = k' then (k', v') # m
      else (k', v') # map_insert k v m)"

lemma sorted_keys_simps [simp]:
  "sorted_keys []"
  "sorted_keys ((k, v) # m) \<longleftrightarrow> (\<forall>k' \<in> fst ` set m. k < k') \<and> sorted_keys m"
  by (auto simp: sorted_keys_def)

lemma fst_set_map_assign: "fst ` set (map_assign k v m) = insert k (fst ` set m)"
  by (induction k v m rule: map_assign.induct) auto

lemma fst_set_map_insert: "fst ` set (map_insert k v m) = insert k (fst ` set m)"
  by (induction k v m rule: map_insert.induct) auto

lemma map_of_None_less:
  assumes "\<forall>k' \<in> fst ` set m. k < (k'::'k::linorder)"
  shows "map_of m k = None"
proof -
  from assms have "k \<notin> fst ` set m" by blast
  then show ?thesis by (simp add: map_of_eq_None_iff)
qed

lemma set_map_assign: "e \<in> set (map_assign k v m) \<Longrightarrow> e = (k, v) \<or> e \<in> set m"
  by (induction k v m rule: map_assign.induct) (auto split: if_splits)

text \<open>What both insertions promise: the keys stay ordered and the lookup changes at one key.\<close>

locale ordered_store =
  fixes put :: "'k::linorder \<Rightarrow> 'v \<Rightarrow> ('k \<times> 'v) list \<Rightarrow> ('k \<times> 'v) list"
    and merge :: "'v option \<Rightarrow> 'v \<Rightarrow> 'v"
  assumes put_sorted: "sorted_keys m \<Longrightarrow> sorted_keys (put k v m)"
    and put_lookup:
      "sorted_keys m \<Longrightarrow> map_of (put k v m) = (map_of m)(k \<mapsto> merge (map_of m k) v)"
begin

definition put_all :: "('k \<times> 'v) list \<Rightarrow> ('k \<times> 'v) list \<Rightarrow> ('k \<times> 'v) list" where
  "put_all es m = fold (\<lambda>(k, v). put k v) es m"

lemma put_all_sorted: "sorted_keys m \<Longrightarrow> sorted_keys (put_all es m)"
  unfolding put_all_def
  by (induction es arbitrary: m) (auto intro: put_sorted)

lemma put_all_frame:
  "sorted_keys m \<Longrightarrow> k \<notin> fst ` set es \<Longrightarrow> map_of (put_all es m) k = map_of m k"
  unfolding put_all_def
proof (induction es arbitrary: m)
  case Nil
  then show ?case by simp
next
  case (Cons e es)
  obtain k' v' where e: "e = (k', v')" by (cases e)
  with Cons.prems have "k' \<noteq> k" by auto
  with Cons.prems e show ?case by (simp add: Cons.IH put_sorted put_lookup)
qed

end

interpretation assign: ordered_store map_assign "\<lambda>_ v. v"
proof unfold_locales
  fix m :: "('a::linorder \<times> 'b) list" and k v
  show "sorted_keys m \<Longrightarrow> sorted_keys (map_assign k v m)"
    by (induction k v m rule: map_assign.induct) (auto simp: fst_set_map_assign)
  show "sorted_keys m \<Longrightarrow> map_of (map_assign k v m) = (map_of m)(k \<mapsto> v)"
    by (induction k v m rule: map_assign.induct) (auto simp: fun_eq_iff)
qed

interpretation insertion: ordered_store map_insert
  "\<lambda>old v. case old of None \<Rightarrow> v | Some w \<Rightarrow> w"
proof unfold_locales
  fix m :: "('a::linorder \<times> 'b) list" and k v
  show "sorted_keys m \<Longrightarrow> sorted_keys (map_insert k v m)"
    by (induction k v m rule: map_insert.induct) (auto simp: fst_set_map_insert)
  show "sorted_keys m \<Longrightarrow> map_of (map_insert k v m) =
      (map_of m)(k \<mapsto> (case map_of m k of None \<Rightarrow> v | Some w \<Rightarrow> w))"
  proof (induction k v m rule: map_insert.induct)
    case (2 k v k' v' m)
    then have "k < k' \<Longrightarrow> map_of m k = None"
      by (auto intro!: map_of_None_less)
    with 2 show ?case by (auto simp: fun_eq_iff)
  qed simp
qed

section \<open>Sets of pointers\<close>

text \<open>A \<open>std::set\<close> is the ascending list of its elements.\<close>

fun set_insert :: "'a::linorder \<Rightarrow> 'a list \<Rightarrow> 'a list" where
  "set_insert x [] = [x]"
| "set_insert x (y # ys) = (if x < y then x # y # ys else if x = y then y # ys else y # set_insert x ys)"

lemma set_set_insert [simp]: "set (set_insert x xs) = insert x (set xs)"
  by (induction x xs rule: set_insert.induct) auto

lemma sorted_set_insert: "sorted_wrt (<) xs \<Longrightarrow> sorted_wrt (<) (set_insert x xs)"
  by (induction x xs rule: set_insert.induct) auto

lemma distinct_sorted_keys: "sorted_keys m \<Longrightarrow> distinct (map fst m)"
  unfolding sorted_keys_def using strict_sorted_iff by blast

text \<open>\<open>m.erase (k)\<close>.\<close>

definition map_erase :: "'k \<Rightarrow> ('k \<times> 'v) list \<Rightarrow> ('k \<times> 'v) list" where
  "map_erase k m = filter (\<lambda>e. fst e \<noteq> k) m"

lemma fst_set_map_erase [simp]: "fst ` set (map_erase k m) = fst ` set m - {k}"
  by (auto simp: map_erase_def)

lemma set_map_erase: "set (map_erase k m) = {e \<in> set m. fst e \<noteq> k}"
  by (auto simp: map_erase_def)

lemma map_erase_sorted: "sorted_keys m \<Longrightarrow> sorted_keys (map_erase k m)"
  by (induction m) (auto simp: map_erase_def sorted_keys_def)

lemma map_erase_length:
  assumes "sorted_keys m" and "k \<in> fst ` set m"
  shows "length m = Suc (length (map_erase k m))"
  using assms
proof (induction m)
  case (Cons e m)
  obtain k' v where e: "e = (k', v)" by (cases e)
  show ?case
  proof (cases "k' = k")
    case True
    with Cons.prems e have "map_erase k m = m" by (auto simp: map_erase_def filter_id_conv)
    with True e show ?thesis by (simp add: map_erase_def)
  next
    case False
    with Cons e show ?thesis by (auto simp: map_erase_def)
  qed
qed simp

lemma map_insert_length:
  "k \<notin> fst ` set m \<Longrightarrow> length (map_insert k v m) = Suc (length m)"
  by (induction k v m rule: map_insert.induct) auto

end
