(* ===== verification/C_Numbers.thy ===== *)
theory C_Numbers
  imports Prelude
begin

text \<open>
  The C library's decimal conversions as the program calls them: \<open>std::to_string\<close>,
  \<open>strtoull\<close>, \<open>atoll\<close>, \<open>atoi\<close>, and \<open>strtol (_, _, 16)\<close> on four checked hex digits. The
  range error that \<open>strtoull\<close> and \<open>atoll\<close> report through \<open>errno\<close> is the second component
  of their results. The lemmas give the round trip through \<open>to_string\<close>, also when other
  text follows the digits.
\<close>

section \<open>Printing\<close>

definition digit_char :: "nat \<Rightarrow> char" where
  "digit_char d = char_of (48 + d)"

fun show_nat :: "nat \<Rightarrow> string" where
  "show_nat n = (if n < 10 then [digit_char n] else show_nat (n div 10) @ [digit_char (n mod 10)])"

declare show_nat.simps [simp del]

definition show_int :: "int \<Rightarrow> string" where
  "show_int i = (if i < 0 then CHR ''-'' # show_nat (nat (- i)) else show_nat (nat i))"

section \<open>Reading\<close>

definition is_digit :: "char \<Rightarrow> bool" where
  "is_digit c \<longleftrightarrow> 48 \<le> byte c \<and> byte c \<le> 57"

definition c_isspace :: "char \<Rightarrow> bool" where
  "c_isspace c \<longleftrightarrow> byte c = 32 \<or> 9 \<le> byte c \<and> byte c \<le> 13"

definition digits_value :: "string \<Rightarrow> nat" where
  "digits_value ds = foldl (\<lambda>a c. 10 * a + (byte c - 48)) 0 ds"

text \<open>Sign and magnitude of the number that starts a string, leading blanks skipped.\<close>

definition strtol_parts :: "string \<Rightarrow> bool \<times> nat" where
  "strtol_parts s =
     (let t = dropWhile c_isspace s;
          neg = (case t of c # _ \<Rightarrow> c = CHR ''-'' | [] \<Rightarrow> False);
          signed = (case t of c # _ \<Rightarrow> c = CHR ''-'' \<or> c = CHR ''+'' | [] \<Rightarrow> False)
      in (neg, digits_value (takeWhile is_digit (if signed then tl t else t))))"

definition strtoull :: "string \<Rightarrow> u64 \<times> bool" where
  "strtoull s =
     (case strtol_parts s of (neg, v) \<Rightarrow>
        if 2 ^ 64 \<le> v then (- 1, True)
        else if neg then (- of_nat v, False) else (of_nat v, False))"

definition atoll :: "string \<Rightarrow> u64 \<times> bool" where
  "atoll s =
     (case strtol_parts s of (neg, v) \<Rightarrow>
        if neg then (if 2 ^ 63 < v then (of_int (- (2 ^ 63)), True) else (- of_nat v, False))
        else (if 2 ^ 63 \<le> v then (of_int (2 ^ 63 - 1), True) else (of_nat v, False)))"

text \<open>\<open>atoi (s)\<close> is \<open>(int) strtol (s, 0, 10)\<close>; stored in a \<open>size_t\<close> it is sign extended.\<close>

definition atoi :: "string \<Rightarrow> i32" where
  "atoi s = ucast (fst (atoll s))"

definition atoi_size :: "string \<Rightarrow> u64" where
  "atoi_size s = scast (atoi s)"

definition is_xdigit :: "char \<Rightarrow> bool" where
  "is_xdigit c \<longleftrightarrow> is_digit c \<or> 97 \<le> byte c \<and> byte c \<le> 102 \<or> 65 \<le> byte c \<and> byte c \<le> 70"

definition xdigit_value :: "char \<Rightarrow> int" where
  "xdigit_value c =
     (if is_digit c then int (byte c) - 48
      else if 97 \<le> byte c then int (byte c) - 87 else int (byte c) - 55)"

definition hex_value :: "string \<Rightarrow> int" where
  "hex_value ds = foldl (\<lambda>a c. 16 * a + xdigit_value c) 0 ds"

section \<open>Round trips\<close>

lemma byte_digit_char [simp]: "d < 10 \<Longrightarrow> byte (digit_char d) = 48 + d"
  by (simp add: digit_char_def byte_def of_char_of)

lemma is_digit_digit_char [simp]: "d < 10 \<Longrightarrow> is_digit (digit_char d)"
  by (simp add: is_digit_def)

lemma show_nat_nonempty [simp]: "show_nat n \<noteq> []"
  by (subst show_nat.simps) simp

lemma show_nat_digits: "c \<in> set (show_nat n) \<Longrightarrow> is_digit c"
proof (induction n rule: show_nat.induct)
  case (1 n)
  then show ?case by (subst (asm) show_nat.simps) (auto split: if_splits)
qed

lemma digits_value_show_nat [simp]: "digits_value (show_nat n) = n"
proof (induction n rule: show_nat.induct)
  case (1 n)
  then show ?case by (subst show_nat.simps) (auto simp: digits_value_def)
qed

lemma takeWhile_digits_show_nat:
  "(r = [] \<or> \<not> is_digit (hd r)) \<Longrightarrow> takeWhile is_digit (show_nat n @ r) = show_nat n"
  by (subst takeWhile_append2) (auto simp: show_nat_digits takeWhile_eq_Nil_iff)

lemma length_show_nat: "n < 10 ^ k \<Longrightarrow> 0 < k \<Longrightarrow> length (show_nat n) \<le> k"
proof (induction k arbitrary: n)
  case 0
  then show ?case by simp
next
  case (Suc k)
  show ?case
  proof (cases "n < 10")
    case True
    then show ?thesis by (simp add: show_nat.simps)
  next
    case False
    with Suc.prems have "n div 10 < 10 ^ k" and "0 < k"
      by (auto simp: div_less_iff_less_mult intro: gr0I)
    then have "length (show_nat (n div 10)) \<le> k" by (rule Suc.IH)
    with False show ?thesis by (subst show_nat.simps) simp
  qed
qed

lemma show_nat_first:
  "\<exists>c r. show_nat n = c # r \<and> is_digit c \<and> (c = CHR ''0'' \<longleftrightarrow> n = 0)"
proof (induction n rule: show_nat.induct)
  case (1 n)
  show ?case
  proof (cases "n < 10")
    case True
    have "byte (CHR ''0'') = 48" by (simp add: byte_def)
    then have "digit_char n = CHR ''0'' \<longleftrightarrow> n = 0"
      using byte_digit_char [OF True] byte_eq_iff [of "digit_char n" "CHR ''0''"] by simp
    with True show ?thesis by (simp add: show_nat.simps)
  next
    case False
    with 1 obtain c r where "show_nat (n div 10) = c # r" "is_digit c"
      "c = CHR ''0'' \<longleftrightarrow> n div 10 = 0" by auto
    with False show ?thesis by (subst show_nat.simps) auto
  qed
qed

lemma digit_not_space: "is_digit c \<Longrightarrow> \<not> c_isspace c \<and> c \<noteq> CHR ''-'' \<and> c \<noteq> CHR ''+''"
  by (auto simp: is_digit_def c_isspace_def byte_def)

lemma strtol_parts_show_nat:
  assumes "r = [] \<or> \<not> is_digit (hd r)"
  shows "strtol_parts (show_nat n @ r) = (False, n)"
proof -
  obtain c q where s: "show_nat n = c # q" and d: "is_digit c"
    using show_nat_first [of n] by auto
  from d have "\<not> c_isspace c" "c \<noteq> CHR ''-''" "c \<noteq> CHR ''+''" by (auto dest: digit_not_space)
  with assms show ?thesis
    using takeWhile_digits_show_nat [OF assms, of n] digits_value_show_nat [of n]
    by (simp add: strtol_parts_def s)
qed

lemma strtol_parts_neg_show_nat:
  assumes "r = [] \<or> \<not> is_digit (hd r)"
  shows "strtol_parts (CHR ''-'' # show_nat n @ r) = (True, n)"
  using takeWhile_digits_show_nat [OF assms, of n]
  by (simp add: strtol_parts_def c_isspace_def byte_def)

lemma strtoull_show_nat:
  "r = [] \<or> \<not> is_digit (hd r) \<Longrightarrow> n < 2 ^ 64 \<Longrightarrow> strtoull (show_nat n @ r) = (of_nat n, False)"
  by (simp add: strtoull_def strtol_parts_show_nat)

lemma atoll_neg_show_nat:
  "r = [] \<or> \<not> is_digit (hd r) \<Longrightarrow> n \<le> 2 ^ 63 \<Longrightarrow>
   atoll (CHR ''-'' # show_nat n @ r) = (- of_nat n, False)"
  by (simp add: atoll_def strtol_parts_neg_show_nat)

lemma atoi_size_show_nat: "n < 2 ^ 31 \<Longrightarrow> atoi_size (show_nat n) = of_nat n"
proof -
  assume len: "n < 2 ^ 31"
  then have "fst (atoll (show_nat n)) = of_nat n"
    using strtol_parts_show_nat [of "[]" n] by (simp add: atoll_def)
  moreover have "take_bit 64 n = n" "signed_take_bit 31 (int n) = int n"
    using len by (simp_all add: take_bit_nat_eq_self signed_take_bit_int_eq_self)
  ultimately show ?thesis
    by (simp add: atoi_size_def atoi_def unsigned_of_nat signed_of_nat)
qed

lemma unat_minus_small:
  assumes "0 < n" and "n \<le> 2 ^ 63"
  shows "unat (- of_nat n :: u64) = 2 ^ 64 - n"
proof -
  have "(of_nat (2 ^ 64 - n) :: u64) = of_nat (2 ^ 64) - of_nat n" using assms by (intro of_nat_diff) simp
  then have "(- of_nat n :: u64) = of_nat (2 ^ 64 - n)" by simp
  then show ?thesis using assms by (simp only: unat_of_nat) simp
qed

lemma atoi_size_neg_show_nat:
  assumes "n \<le> 2 ^ 31"
  shows "atoi_size (CHR ''-'' # show_nat n) = - of_nat n"
proof -
  have a: "fst (atoll (CHR ''-'' # show_nat n)) = of_int (- int n)"
    using assms atoll_neg_show_nat [of "[]" n] by simp
  have c: "(ucast (of_int i :: u64) :: i32) = of_int i" for i :: int
    by (simp add: unsigned_of_int word_of_int_eq_iff take_bit_take_bit)
  have "sint (of_int (- int n) :: i32) = - int n"
    using assms by (simp only: signed_of_int) (simp add: signed_take_bit_int_eq_self)
  moreover have "(scast w :: u64) = of_int (sint w)" for w :: i32 by simp
  ultimately have "atoi_size (CHR ''-'' # show_nat n) = of_int (- int n)"
    unfolding atoi_size_def atoi_def a c by metis
  then show ?thesis by simp
qed

end
