(* ===== verification/Http_Proto.thy ===== *)
theory Http_Proto
  imports C_Numbers
begin

text \<open>
  The constants of \<open>include/http_proto.hpp\<close>: canned contents, header option names, status
  lines and status numbers. The status namespaces are two functions on one enumeration of
  their members.
\<close>

section \<open>Contents\<close>

definition content_ok :: string where
  "content_ok = ''{}''"

definition content_error :: string where
  "content_error = ''<html>'' @ ''<head><title>Internal Server Error</title></head>'' @
     ''<body><h1>500 Internal Server Error</h1></body>'' @ ''</html>''"

definition content_bad_request :: string where
  "content_bad_request = ''<html>'' @ ''<head><title>Bad Request</title></head>'' @
     ''<body><h1>400 Bad Request</h1></body>'' @ ''</html>''"

definition content_forbidden :: string where
  "content_forbidden = ''<html>'' @ ''<head><title>Forbidden</title></head>'' @
     ''<body><h1>403 Forbidden</h1></body>'' @ ''</html>''"

definition content_not_found :: string where
  "content_not_found = ''<html>'' @ ''<head><title>Not Found</title></head>'' @
     ''<body><h1>404 Not Found</h1></body>'' @ ''</html>''"

section \<open>Header options\<close>

text \<open>The four keys under which the request line and the body are stored.\<close>

definition request_method :: string where "request_method = ''request_method_''"
definition request_uri :: string where "request_uri = ''request_uri_''"
definition http_version :: string where "http_version = ''http_version_''"
definition request_body :: string where "request_body = ''request_body_''"

text \<open>The header names; the program reads only \<open>Content-Length\<close>.\<close>

definition content_type :: string where "content_type = ''Content-Type''"
definition content_length :: string where "content_length = ''Content-Length''"
definition connection_opt :: string where "connection_opt = ''Connection''"

lemmas option_names = request_method_def request_uri_def http_version_def request_body_def
  content_type_def content_length_def connection_opt_def

section \<open>Status lines\<close>

datatype status_name =
    Ok | Created | Accepted | No_Content
  | Multiple_Choices | Moved_Permanently | Moved_Temporarily | Not_Modified
  | Bad_Request | Unauthorized | Forbidden | Not_Found
  | Internal_Server_Error | Not_Implemented | Bad_Gateway | Service_Unavailable

fun status :: "status_name \<Rightarrow> string" where
  "status Ok = ''HTTP/1.1 200 OK'' @ crlf"
| "status Created = ''HTTP/1.1 201 Created'' @ crlf"
| "status Accepted = ''HTTP/1.1 202 Accepted'' @ crlf"
| "status No_Content = ''HTTP/1.1 204 No Content'' @ crlf"
| "status Multiple_Choices = ''HTTP/1.1 300 Multiple Choices'' @ crlf"
| "status Moved_Permanently = ''HTTP/1.1 301 Moved Permanently'' @ crlf"
| "status Moved_Temporarily = ''HTTP/1.1 302 Moved Temporarily'' @ crlf"
| "status Not_Modified = ''HTTP/1.1 304 Not Modified'' @ crlf"
| "status Bad_Request = ''HTTP/1.1 400 Bad Request'' @ crlf"
| "status Unauthorized = ''HTTP/1.1 401 Unauthorized'' @ crlf"
| "status Forbidden = ''HTTP/1.1 403 Forbidden'' @ crlf"
| "status Not_Found = ''HTTP/1.1 404 Not Found'' @ crlf"
| "status Internal_Server_Error = ''HTTP/1.1 500 Internal Server Error'' @ crlf"
| "status Not_Implemented = ''HTTP/1.1 501 Not Implemented'' @ crlf"
| "status Bad_Gateway = ''HTTP/1.1 502 Bad Gateway'' @ crlf"
| "status Service_Unavailable = ''HTTP/1.1 503 Service Unavailable'' @ crlf"

fun status_digit :: "status_name \<Rightarrow> i32" where
  "status_digit Ok = 200"
| "status_digit Created = 201"
| "status_digit Accepted = 202"
| "status_digit No_Content = 204"
| "status_digit Multiple_Choices = 300"
| "status_digit Moved_Permanently = 301"
| "status_digit Moved_Temporarily = 302"
| "status_digit Not_Modified = 304"
| "status_digit Bad_Request = 400"
| "status_digit Unauthorized = 401"
| "status_digit Forbidden = 403"
| "status_digit Not_Found = 404"
| "status_digit Internal_Server_Error = 500"
| "status_digit Not_Implemented = 501"
| "status_digit Bad_Gateway = 502"
| "status_digit Service_Unavailable = 503"

text \<open>
  A status line is one line, without NUL or colon inside, that ends in CR LF: what the
  reply format and the header parser rely on.
\<close>

lemma status_line:
  "\<exists>l. status s = l @ crlf \<and> l \<noteq> [] \<and> NULC \<notin> set l \<and> CR \<notin> set l \<and> LF \<notin> set l \<and> CHR '':'' \<notin> set l"
  by (cases s) (rule exI [where x = "butlast (butlast (status s))"], simp add: crlf_def)+

lemma status_carries_digit:
  "take 13 (status s) = ''HTTP/1.1 '' @ show_nat (unat (status_digit s)) @ '' ''"
  by (cases s; hypsubst; code_simp)

end
