(* ===== verification/Http_Parser.thy ===== *)
theory Http_Parser
  imports Http_Proto
begin

text \<open>
  \<open>source/http_parser.cpp\<close>: \<open>parse_request\<close> splits a request head into the options map and
  \<open>request_option\<close> looks an option up without regard to case. The Boost algorithms the two
  call are a parameter \<open>boost\<close>; \<open>boost_spec\<close> is their documentation in the C locale.
\<close>

section \<open>The Boost string algorithms\<close>

record boost =
  trim_copy :: "string \<Rightarrow> string"
  iequals :: "string \<Rightarrow> string \<Rightarrow> bool"
  to_upper_copy :: "string \<Rightarrow> string"
  find_first :: "string \<Rightarrow> string \<Rightarrow> bool"
  request_line_match :: "string \<Rightarrow> (string \<times> string \<times> string) option"
    \<comment> \<open>\<open>what[1]\<close>, \<open>what[2]\<close>, \<open>what[3]\<close> of \<open>regex_match\<close> with
        \<open>([a-zA-Z]+)[ ]+([^ ]+)([ ]+(.*))?\<close>\<close>

definition is_alpha :: "char \<Rightarrow> bool" where
  "is_alpha c \<longleftrightarrow> 65 \<le> byte c \<and> byte c \<le> 90 \<or> 97 \<le> byte c \<and> byte c \<le> 122"

definition c_toupper :: "char \<Rightarrow> char" where
  "c_toupper c = (if 97 \<le> byte c \<and> byte c \<le> 122 then char_of (byte c - 32) else c)"

definition upper :: "string \<Rightarrow> string" where
  "upper s = map c_toupper s"

definition trim :: "string \<Rightarrow> string" where
  "trim s = rev (dropWhile c_isspace (rev (dropWhile c_isspace s)))"

definition request_line :: "string \<Rightarrow> string \<Rightarrow> string \<Rightarrow> string \<Rightarrow> bool" where
  "request_line s m u v \<longleftrightarrow>
     (\<exists>sp. s = m @ sp @ u @ v \<and> m \<noteq> [] \<and> list_all is_alpha m \<and>
        sp \<noteq> [] \<and> list_all (\<lambda>c. c = CHR '' '') sp \<and>
        u \<noteq> [] \<and> CHR '' '' \<notin> set u \<and> (v = [] \<or> hd v = CHR '' ''))"

definition boost_spec :: "boost \<Rightarrow> bool" where
  "boost_spec b \<longleftrightarrow>
     (\<forall>s. trim_copy b s = trim s) \<and>
     (\<forall>s t. iequals b s t \<longleftrightarrow> upper s = upper t) \<and>
     (\<forall>s. to_upper_copy b s = upper s) \<and>
     (\<forall>s p. find_first b s p \<longleftrightarrow> (\<exists>x y. s = x @ p @ y)) \<and>
     (\<forall>s m u v. request_line_match b s = Some (m, u, v) \<longleftrightarrow> request_line s m u v)"

section \<open>Standard library\<close>

fun find_sub :: "string \<Rightarrow> string \<Rightarrow> nat option" where
  "find_sub p [] = (if p = [] then Some 0 else None)"
| "find_sub p (c # s) =
     (if take (length p) (c # s) = p then Some 0 else map_option Suc (find_sub p s))"

definition find_char :: "char \<Rightarrow> string \<Rightarrow> nat option" where
  "find_char c s = (if c \<in> set s then Some (length (takeWhile (\<lambda>d. d \<noteq> c) s)) else None)"

text \<open>\<open>std::getline\<close>: the line without its LF and what is left; \<open>None\<close> at the end.\<close>

definition getline :: "string \<Rightarrow> (string \<times> string) option" where
  "getline s =
     (if s = [] then None
      else Some (takeWhile (\<lambda>c. c \<noteq> LF) s, drop 1 (dropWhile (\<lambda>c. c \<noteq> LF) s)))"

lemma getline_shorter [termination_simp]:
  assumes "getline s = Some (item, rest)"
  shows "length rest < length s"
proof -
  from assms have s: "s \<noteq> []" and rest: "rest = drop 1 (dropWhile (\<lambda>c. c \<noteq> LF) s)"
    by (auto simp: getline_def split: if_splits)
  have "length (dropWhile (\<lambda>c. c \<noteq> LF) s) \<le> length s" by (rule length_dropWhile_le)
  moreover from s have "0 < length s" by simp
  ultimately show ?thesis unfolding rest length_drop by linarith
qed

section \<open>The parser\<close>

type_synonym options = "(string \<times> string) list"

definition header_end :: string where
  "header_end = crlf @ crlf"

text \<open>
  The loop that removes trailing slashes reads \<open>uri[uri.size () - 1]\<close>: an access outside
  the string once it is empty.
\<close>

function strip_slashes :: "string \<Rightarrow> string result" where
  "strip_slashes uri =
     (if uri = [] then Inl OutOfBounds
      else if last uri = CHR ''/'' then strip_slashes (butlast uri)
      else Inr uri)"
  by auto
termination by (relation "measure length") auto

declare strip_slashes.simps [simp del]

definition put_request_line :: "boost \<Rightarrow> string \<times> string \<times> string \<Rightarrow> options \<Rightarrow> options result" where
  "put_request_line b what opts =
     (case what of (what1, what2, what3) \<Rightarrow>
        let opts = map_insert request_method (trim_copy b (to_upper_copy b what1)) opts
        in rbind (strip_slashes (trim_copy b what2)) (\<lambda>uri.
           Inr (map_insert http_version (trim_copy b what3) (map_insert request_uri uri opts))))"

definition put_line :: "boost \<Rightarrow> string \<Rightarrow> options \<Rightarrow> options result" where
  "put_line b item opts =
     (case find_char (CHR '':'') item of
        Some index \<Rightarrow>
          Inr (map_insert (trim_copy b (take index item))
                          (trim_copy b (drop (index + 1) item)) opts)
      | None \<Rightarrow>
          (case request_line_match b item of
             Some what \<Rightarrow> put_request_line b what opts
           | None \<Rightarrow> Inr opts))"

fun put_lines :: "boost \<Rightarrow> string \<Rightarrow> options \<Rightarrow> options result" where
  "put_lines b resp opts =
     (case getline resp of
        None \<Rightarrow> Inr opts
      | Some (item, rest) \<Rightarrow>
          if item = [CR] then Inr opts
          else rbind (put_line b item opts) (put_lines b rest))"

declare put_lines.simps [simp del]

text \<open>
  \<open>parse_request\<close>: the null pointer is \<open>None\<close>; the result is the returned value and the
  options map after the call.
\<close>

definition parse_request :: "boost \<Rightarrow> string option \<Rightarrow> options \<Rightarrow> (bool \<times> options) result" where
  "parse_request b ptr opts =
     (case ptr of
        None \<Rightarrow> Inr (False, opts)
      | Some mem \<Rightarrow>
          let header = c_str mem in
          (case find_sub header_end header of
             None \<Rightarrow> Inr (False, opts)
           | Some n \<Rightarrow>
               rbind (require (find_first b header header_end) AssertFailed) (\<lambda>_.
               rbind (put_lines b (take (n + 4) header)
                        (map_insert request_body (drop (n + 4) header) []))
                     (\<lambda>opts'. Inr (True, opts')))))"

fun request_option :: "boost \<Rightarrow> string \<Rightarrow> options \<Rightarrow> string" where
  "request_option b option_name [] = ''''"
| "request_option b option_name ((k, v) # opts) =
     (if option_name = [] then ''''
      else if iequals b option_name k then v
      else request_option b option_name opts)"

end
