(* ===== verification/Http_Parser_Facts.thy ===== *)
theory Http_Parser_Facts
  imports Http_Parser
begin

text \<open>
  What the header parser promises: it never fails by assertion, it keeps the options map
  ordered, and on a well-formed request it recovers the method, the path, the version, the
  body and every header (\<open>request_roundtrip\<close>).
\<close>

section \<open>A reference instance of the Boost algorithms\<close>

definition ref_request_line_match :: "string \<Rightarrow> (string \<times> string \<times> string) option" where
  "ref_request_line_match s =
     (let m = takeWhile (\<lambda>c. c \<noteq> CHR '' '') s;
          r = dropWhile (\<lambda>c. c = CHR '' '') (dropWhile (\<lambda>c. c \<noteq> CHR '' '') s);
          u = takeWhile (\<lambda>c. c \<noteq> CHR '' '') r
      in if m \<noteq> [] \<and> list_all is_alpha m \<and> u \<noteq> []
         then Some (m, u, dropWhile (\<lambda>c. c \<noteq> CHR '' '') r) else None)"

definition ref_boost :: boost where
  "ref_boost =
     \<lparr> trim_copy = trim,
       iequals = (\<lambda>s t. upper s = upper t),
       to_upper_copy = upper,
       find_first = (\<lambda>s p. find_sub p s \<noteq> None),
       request_line_match = ref_request_line_match \<rparr>"

lemma find_sub_Some_split: "find_sub p s = Some n \<Longrightarrow> s = take n s @ p @ drop (n + length p) s"
proof (induction p s arbitrary: n rule: find_sub.induct)
  case (1 p)
  then show ?case by (auto split: if_splits)
next
  case (2 p c s)
  show ?case
  proof (cases "take (length p) (c # s) = p")
    case True
    with 2 show ?thesis by (metis add_0 append_take_drop_id find_sub.simps(2) option.inject self_append_conv2 take0)
  next
    case False
    with 2 show ?thesis by auto
  qed
qed

lemma find_sub_iff: "find_sub p s \<noteq> None \<longleftrightarrow> (\<exists>x y. s = x @ p @ y)"
proof
  assume "find_sub p s \<noteq> None"
  then show "\<exists>x y. s = x @ p @ y" using find_sub_Some_split by blast
next
  assume "\<exists>x y. s = x @ p @ y"
  then obtain x y where "s = x @ p @ y" by blast
  then show "find_sub p s \<noteq> None"
  proof (induction x arbitrary: s)
    case Nil
    then have "take (length p) s = p" by simp
    then show ?case by (cases s) auto
  qed auto
qed

lemma ref_request_line_match_iff:
  "ref_request_line_match s = Some (m, u, v) \<longleftrightarrow> request_line s m u v" (is "?l = ?r")
proof
  assume l: ?l
  define d where "d = dropWhile (\<lambda>c. c \<noteq> CHR '' '') s"
  define r where "r = dropWhile (\<lambda>c. c = CHR '' '') d"
  define sp where "sp = takeWhile (\<lambda>c. c = CHR '' '') d"
  from l have m: "m = takeWhile (\<lambda>c. c \<noteq> CHR '' '') s" and u: "u = takeWhile (\<lambda>c. c \<noteq> CHR '' '') r"
    and v: "v = dropWhile (\<lambda>c. c \<noteq> CHR '' '') r"
    and c: "m \<noteq> []" "list_all is_alpha m" "u \<noteq> []"
    by (auto simp: ref_request_line_match_def Let_def r_def d_def split: if_splits)
  have s: "s = m @ sp @ u @ v"
    by (simp add: m sp_def u v r_def d_def)
  have "sp \<noteq> []"
  proof
    assume "sp = []"
    moreover from c u r_def have "d \<noteq> []" by auto
    moreover from \<open>d \<noteq> []\<close> have "hd d = CHR '' ''"
      unfolding d_def using hd_dropWhile by blast
    ultimately show False unfolding sp_def by (cases d) auto
  qed
  moreover have "list_all (\<lambda>c. c = CHR '' '') sp"
    unfolding sp_def list_all_iff by (auto dest: set_takeWhileD)
  moreover have "CHR '' '' \<notin> set u" unfolding u by (auto dest: set_takeWhileD)
  moreover have "v = [] \<or> hd v = CHR '' ''" unfolding v using hd_dropWhile by blast
  ultimately show ?r using s c unfolding request_line_def by blast
next
  assume ?r
  then obtain sp where s: "s = m @ sp @ u @ v" and m: "m \<noteq> []" "list_all is_alpha m"
    and sp: "sp \<noteq> []" "list_all (\<lambda>c. c = CHR '' '') sp"
    and u: "u \<noteq> []" "CHR '' '' \<notin> set u" and v: "v = [] \<or> hd v = CHR '' ''"
    unfolding request_line_def by blast
  have sp': "\<And>c. c \<in> set sp \<Longrightarrow> c = CHR '' ''" using sp by (auto simp: list_all_iff)
  have m': "\<And>c. c \<in> set m \<Longrightarrow> c \<noteq> CHR '' ''"
    using m by (auto simp: list_all_iff is_alpha_def byte_def)
  obtain q where q: "sp = CHR '' '' # q" using sp by (cases sp) auto
  obtain w z where w: "u = w # z" "w \<noteq> CHR '' ''" using u by (cases u) auto
  have tm: "takeWhile (\<lambda>c. c \<noteq> CHR '' '') s = m" and dm: "dropWhile (\<lambda>c. c \<noteq> CHR '' '') s = sp @ u @ v"
    unfolding s using m' q by (auto simp: takeWhile_append2 dropWhile_append2)
  have ds: "dropWhile (\<lambda>c. c = CHR '' '') (sp @ u @ v) = u @ v"
    using sp' w by (auto simp: dropWhile_append2)
  have u': "\<And>c. c \<in> set u \<Longrightarrow> c \<noteq> CHR '' ''" using u by auto
  have tu: "takeWhile (\<lambda>c. c \<noteq> CHR '' '') (u @ v) = u" and du: "dropWhile (\<lambda>c. c \<noteq> CHR '' '') (u @ v) = v"
    using u' v by (cases v; auto simp: takeWhile_append2 dropWhile_append2)+
  show ?l by (simp add: ref_request_line_match_def Let_def tm dm ds tu du m u)
qed

lemma ref_boost_spec: "boost_spec ref_boost"
  unfolding boost_spec_def
proof (intro conjI allI)
  fix s p
  show "find_first ref_boost s p \<longleftrightarrow> (\<exists>x y. s = x @ p @ y)"
    using find_sub_iff [of p s] by (simp add: ref_boost_def)
qed (simp_all add: ref_boost_def ref_request_line_match_iff)

section \<open>Trimming, case and lookup\<close>

lemma dropWhile_all: "\<forall>c \<in> set a. P c \<Longrightarrow> dropWhile P (a @ x) = dropWhile P x"
  by (induction a) auto

lemma takeWhile_stop: "\<forall>c \<in> set l. P c \<Longrightarrow> \<not> P d \<Longrightarrow> takeWhile P (l @ d # r) = l"
  by (induction l) auto

lemma dropWhile_stop: "\<forall>c \<in> set l. P c \<Longrightarrow> \<not> P d \<Longrightarrow> dropWhile P (l @ d # r) = d # r"
  by (induction l) auto

lemma dropWhile_none: "\<forall>c \<in> set s. \<not> P c \<Longrightarrow> dropWhile P s = s"
  by (cases s) auto

lemma boost_simps:
  assumes "boost_spec b"
  shows "trim_copy b s = trim s" "iequals b s t \<longleftrightarrow> upper s = upper t"
    "to_upper_copy b s = upper s" "find_first b s p \<longleftrightarrow> find_sub p s \<noteq> None"
    "request_line_match b s = Some (m, u, v) \<longleftrightarrow> request_line s m u v"
  using assms find_sub_iff [of p s] unfolding boost_spec_def by simp_all

lemma trim_surrounded:
  assumes "list_all c_isspace a" and "list_all c_isspace z"
  shows "trim (a @ v @ z) = trim v"
proof -
  have a: "dropWhile c_isspace (a @ v @ z) = dropWhile c_isspace (v @ z)"
    using assms(1) by (intro dropWhile_all) (simp add: list_all_iff)
  have rz: "\<And>x. dropWhile c_isspace (rev z @ x) = dropWhile c_isspace x"
    using assms(2) by (intro dropWhile_all) (simp add: list_all_iff)
  show ?thesis
  proof (cases "\<forall>c \<in> set v. c_isspace c")
    case True
    then have "dropWhile c_isspace (v @ z) = []" "dropWhile c_isspace v = []"
      using assms(2) by (auto simp: list_all_iff)
    then show ?thesis by (simp only: trim_def a)
  next
    case False
    then have "dropWhile c_isspace (v @ z) = dropWhile c_isspace v @ z"
      by (auto simp: dropWhile_append1)
    then show ?thesis by (simp add: trim_def a rz)
  qed
qed

lemma trim_no_space: "\<forall>c \<in> set s. \<not> c_isspace c \<Longrightarrow> trim s = s"
proof -
  assume s: "\<forall>c \<in> set s. \<not> c_isspace c"
  then have "dropWhile c_isspace s = s" "dropWhile c_isspace (rev s) = rev s"
    by (simp_all add: dropWhile_none)
  then show ?thesis by (simp add: trim_def)
qed

lemma length_upper [simp]: "length (upper s) = length s"
  by (simp add: upper_def)

lemma upper_not_space:
  assumes "list_all is_alpha s" and "c \<in> set (upper s)"
  shows "\<not> c_isspace c"
proof -
  from assms obtain d where d: "c = c_toupper d" "is_alpha d"
    by (auto simp: upper_def list_all_iff)
  have "byte d - 32 < 256" using byte_less_256 [of d] by linarith
  then have "byte (char_of (byte d - 32)) = byte d - 32"
    unfolding byte_def by (simp only: of_char_of take_bit_eq_mod) simp
  with d show ?thesis by (auto simp: c_toupper_def is_alpha_def c_isspace_def split: if_splits)
qed

lemma upper_upper: "upper (upper s) = upper s"
proof -
  have "c_toupper (c_toupper c) = c_toupper c" for c
  proof -
    have "byte c - 32 < 256" using byte_less_256 [of c] by linarith
    then have "byte (char_of (byte c - 32)) = byte c - 32"
      unfolding byte_def by (simp only: of_char_of take_bit_eq_mod) simp
    then show ?thesis by (auto simp: c_toupper_def)
  qed
  then show ?thesis by (simp add: upper_def)
qed

lemma request_option_unique:
  assumes "boost_spec b" and "(k, v) \<in> set opts" and "upper n = upper k" and "n \<noteq> []"
    and "distinct (map (\<lambda>e. upper (fst e)) opts)"
  shows "request_option b n opts = v"
  using assms(2,5)
proof (induction opts)
  case (Cons e opts)
  obtain k' v' where e: "e = (k', v')" by (cases e)
  show ?case
  proof (cases "e = (k, v)")
    case True
    then show ?thesis by (simp add: boost_simps [OF assms(1)] assms(3,4))
  next
    case False
    with Cons.prems have "(k, v) \<in> set opts" by simp
    moreover from this Cons.prems e have "upper k' \<noteq> upper k"
      by (auto simp: image_iff)
    ultimately show ?thesis using Cons e by (simp add: boost_simps [OF assms(1)] assms(3,4))
  qed
qed simp

lemma set_map_insert:
  "k \<notin> fst ` set m \<Longrightarrow> set (map_insert k v m) = insert (k, v) (set m)"
  by (induction k v m rule: map_insert.induct) auto

lemma set_put_all:
  assumes "distinct (map fst es)" and "fst ` set es \<inter> fst ` set m = {}"
  shows "set (insertion.put_all es m) = set es \<union> set m"
  using assms
proof (induction es arbitrary: m)
  case Nil
  then show ?case by (simp add: insertion.put_all_def)
next
  case (Cons e es)
  obtain k v where e: "e = (k, v)" by (cases e)
  with Cons.prems have k: "k \<notin> fst ` set m" "k \<notin> fst ` set es" by auto
  have "set (insertion.put_all es (map_insert k v m)) = set es \<union> set (map_insert k v m)"
    using Cons.prems e k by (intro Cons.IH) (auto simp: fst_set_map_insert)
  with k e show ?case by (auto simp: insertion.put_all_def set_map_insert)
qed

lemma put_all_distinct_upper:
  fixes es :: options
  assumes "distinct (map (\<lambda>e. upper (fst e)) es)"
  shows "distinct (map (\<lambda>e. upper (fst e)) (insertion.put_all es []))"
    and "set (insertion.put_all es []) = set es"
proof -
  have f: "map (\<lambda>e. upper (fst e)) es = map upper (map fst es)" for es :: options by simp
  from assms have "distinct (map fst es) \<and> inj_on upper (set (map fst es))"
    unfolding f by (simp only: distinct_map [of upper "map fst es"])
  then have d: "distinct (map fst es)" and inj: "inj_on upper (fst ` set es)" by simp_all
  then show s: "set (insertion.put_all es []) = set es" by (simp add: set_put_all)
  have "sorted_keys (insertion.put_all es [])" by (rule insertion.put_all_sorted) simp
  then have "distinct (map fst (insertion.put_all es []))"
    unfolding sorted_keys_def using strict_sorted_iff by blast
  with inj s show "distinct (map (\<lambda>e. upper (fst e)) (insertion.put_all es []))"
    unfolding f by (simp only: distinct_map [of upper "map fst (insertion.put_all es [])"] set_map)
qed

section \<open>Lines of a request head\<close>

lemma find_sub_skip:
  "CR \<notin> set l \<Longrightarrow> find_sub header_end (l @ r) = map_option (\<lambda>n. length l + n) (find_sub header_end r)"
proof (induction l)
  case Nil
  then show ?case by (cases "find_sub header_end r") simp_all
next
  case (Cons c l)
  then have "c \<noteq> CR" by auto
  then have "take (length header_end) (c # l @ r) \<noteq> header_end"
    by (simp add: header_end_def crlf_def)
  with Cons show ?case by (cases "find_sub header_end r") simp_all
qed

lemma find_sub_crlf_skip:
  assumes "r \<noteq> []" and "hd r \<noteq> CR"
  shows "find_sub header_end (crlf @ r) = map_option (\<lambda>n. 2 + n) (find_sub header_end r)"
  using assms by (cases r) (auto simp: header_end_def crlf_def option.map_comp comp_def)

definition lines :: "string list \<Rightarrow> string" where
  "lines ls = concat (map (\<lambda>l. l @ crlf) ls)"

lemma lines_simps [simp]: "lines [] = []" "lines (l # ls) = l @ crlf @ lines ls"
  by (simp_all add: lines_def)

lemma find_header_end:
  assumes "ls \<noteq> []" and "\<forall>l \<in> set ls. l \<noteq> [] \<and> CR \<notin> set l"
  shows "find_sub header_end (lines ls @ crlf @ body) = Some (length (lines ls) - 2)"
  using assms
proof (induction ls)
  case (Cons l ls)
  then have l: "CR \<notin> set l" by simp
  show ?case
  proof (cases ls)
    case Nil
    have "find_sub header_end (crlf @ crlf @ body) = Some 0"
      by (simp add: header_end_def crlf_def)
    with Nil l show ?thesis by (simp add: find_sub_skip crlf_def)
  next
    case (Cons l' ls')
    define r where "r = lines ls @ crlf @ body"
    from Cons Cons.prems(2) have "r \<noteq> []" "hd r \<noteq> CR"
      unfolding r_def by (cases l'; auto)+
    then have "find_sub header_end (crlf @ r) = map_option (\<lambda>n. 2 + n) (find_sub header_end r)"
      by (rule find_sub_crlf_skip)
    moreover have "find_sub header_end r = Some (length (lines ls) - 2)"
      unfolding r_def using Cons Cons.prems Cons.IH by simp
    moreover have "2 \<le> length (lines ls)" using Cons by (simp add: crlf_def)
    ultimately show ?thesis using l r_def by (simp add: find_sub_skip crlf_def)
  qed
qed simp

lemma getline_line: "LF \<notin> set l \<Longrightarrow> getline (l @ LF # r) = Some (l, r)"
proof -
  assume l: "LF \<notin> set l"
  have "takeWhile (\<lambda>c. c \<noteq> LF) (l @ LF # r) = l" using l by (intro takeWhile_stop) auto
  moreover have "dropWhile (\<lambda>c. c \<noteq> LF) (l @ LF # r) = LF # r" using l by (intro dropWhile_stop) auto
  ultimately show ?thesis by (simp add: getline_def)
qed

lemma put_lines_line:
  assumes "LF \<notin> set l" and "l \<noteq> []"
  shows "put_lines b (l @ crlf @ r) opts = rbind (put_line b (l @ [CR]) opts) (put_lines b r)"
  using getline_line [of "l @ [CR]" r] assms by (subst put_lines.simps) (simp add: crlf_def)

lemma put_lines_end: "put_lines b crlf opts = Inr opts"
  using getline_line [of "[CR]" "[]"] by (subst put_lines.simps) (simp add: crlf_def)

section \<open>Well-formed requests\<close>

text \<open>A request as a client writes it, and when it is well formed.\<close>

definition header_lines :: "options \<Rightarrow> string list" where
  "header_lines hs = map (\<lambda>(n, v). n @ '': '' @ v) hs"

definition render_request :: "string \<Rightarrow> string \<Rightarrow> options \<Rightarrow> string \<Rightarrow> string" where
  "render_request meth uri hs body =
     lines ((meth @ '' '' @ uri @ '' HTTP/1.1'') # header_lines hs) @ crlf @ body"

definition plain :: "string \<Rightarrow> bool" where
  "plain s \<longleftrightarrow> trim s = s \<and> NULC \<notin> set s \<and> CR \<notin> set s \<and> LF \<notin> set s"

definition header_ok :: "string \<times> string \<Rightarrow> bool" where
  "header_ok h \<longleftrightarrow> fst h \<noteq> [] \<and> plain (fst h) \<and> CHR '':'' \<notin> set (fst h) \<and> plain (snd h)"

definition path_char :: "char \<Rightarrow> bool" where
  "path_char c \<longleftrightarrow> \<not> c_isspace c \<and> c \<noteq> NULC \<and> c \<noteq> CHR '':''"

definition path_ok :: "string \<Rightarrow> bool" where
  "path_ok path \<longleftrightarrow> path \<noteq> [] \<and> last path \<noteq> CHR ''/'' \<and> list_all path_char path"

definition reserved :: "string list" where
  "reserved = [request_body, request_method, request_uri, http_version]"

definition headers_ok :: "options \<Rightarrow> bool" where
  "headers_ok hs \<longleftrightarrow> list_all header_ok hs \<and> distinct (map upper (reserved @ map fst hs))"

lemma find_char_first: "c \<notin> set n \<Longrightarrow> find_char c (n @ c # r) = Some (length n)"
  unfolding find_char_def by (subst takeWhile_stop) auto

lemma put_line_header:
  assumes b: "boost_spec b" and h: "header_ok (n, v)"
  shows "put_line b ((n @ '': '' @ v) @ [CR]) opts = Inr (map_insert n v opts)"
proof -
  from h have n: "CHR '':'' \<notin> set n" and t: "trim n = n" "trim v = v"
    by (simp_all add: header_ok_def plain_def)
  have f: "find_char (CHR '':'') ((n @ '': '' @ v) @ [CR]) = Some (length n)"
    using find_char_first [OF n, of "CHR '' '' # v @ [CR]"] by simp
  have "trim (CHR '' '' # v @ [CR]) = v"
    using trim_surrounded [of "[CHR '' '']" "[CR]" v] t by (simp add: c_isspace_def byte_def)
  then show ?thesis unfolding put_line_def f by (simp add: boost_simps [OF b] t)
qed

lemma put_lines_headers:
  assumes b: "boost_spec b" and hs: "list_all header_ok hs"
  shows "put_lines b (lines (header_lines hs) @ crlf) opts = Inr (insertion.put_all hs opts)"
  using hs
proof (induction hs arbitrary: opts)
  case Nil
  then show ?case by (simp add: header_lines_def put_lines_end insertion.put_all_def)
next
  case (Cons h hs)
  obtain n v where h: "h = (n, v)" by (cases h)
  with Cons.prems have ok: "header_ok (n, v)" by simp
  then have "LF \<notin> set (n @ '': '' @ v)" by (simp add: header_ok_def plain_def)
  with Cons h show ?case
    using put_lines_line [of "n @ '': '' @ v" b "lines (header_lines hs) @ crlf" opts]
      put_line_header [OF b ok, of opts]
    by (simp add: header_lines_def insertion.put_all_def)
qed

lemma strip_slashes_replicate:
  assumes "path \<noteq> []" and "last path \<noteq> CHR ''/''"
  shows "strip_slashes (path @ replicate k (CHR ''/'')) = Inr path"
proof (induction k)
  case 0
  with assms show ?case by (simp add: strip_slashes.simps)
next
  case (Suc k)
  define xs where "xs = path @ replicate k (CHR ''/'')"
  have "path @ replicate (Suc k) (CHR ''/'') = xs @ [CHR ''/'']"
    by (simp add: replicate_append_same xs_def)
  moreover have "strip_slashes (xs @ [CHR ''/'']) = strip_slashes xs"
    by (subst strip_slashes.simps) simp
  ultimately show ?case using Suc by (simp add: xs_def)
qed

lemma path_char_simps:
  "path_char (CHR ''/'')" "c_isspace (CHR '' '')" "\<not> is_alpha (CHR '':'')"
  "\<not> path_char CR" "\<not> path_char LF" "\<not> path_char NULC"
  "\<not> is_alpha CR" "\<not> is_alpha LF" "\<not> is_alpha NULC"
  by (simp_all add: path_char_def c_isspace_def is_alpha_def byte_def)

lemma put_line_request:
  assumes b: "boost_spec b" and m: "meth \<noteq> []" "list_all is_alpha meth"
    and p: "path_ok path"
  shows "put_line b ((meth @ '' '' @ (path @ replicate k (CHR ''/'')) @ '' HTTP/1.1'') @ [CR]) opts =
    Inr (insertion.put_all
      [(request_method, upper meth), (request_uri, path), (http_version, ''HTTP/1.1'')] opts)"
proof -
  define u where "u = path @ replicate k (CHR ''/'')"
  have u: "\<forall>c \<in> set u. path_char c" "u \<noteq> []"
    using p path_char_simps by (auto simp: u_def path_ok_def list_all_iff)
  then have u': "\<forall>c \<in> set u. \<not> c_isspace c" "CHR '':'' \<notin> set u" "CHR '' '' \<notin> set u"
    using path_char_simps by (auto simp: path_char_def)
  have m': "CHR '':'' \<notin> set meth" using m path_char_simps by (auto simp: list_all_iff)
  have f: "find_char (CHR '':'') ((meth @ '' '' @ u @ '' HTTP/1.1'') @ [CR]) = None"
    using u' m' by (auto simp: find_char_def)
  have "request_line ((meth @ '' '' @ u @ '' HTTP/1.1'') @ [CR]) meth u ('' HTTP/1.1'' @ [CR])"
    unfolding request_line_def using m u u' by (intro exI [of _ "'' ''"]) simp
  then have q: "request_line_match b ((meth @ '' '' @ u @ '' HTTP/1.1'') @ [CR]) =
      Some (meth, u, '' HTTP/1.1'' @ [CR])"
    by (simp only: boost_simps [OF b])
  have "trim (upper meth) = upper meth" using upper_not_space [OF m(2)] by (simp add: trim_no_space)
  moreover have "trim u = u" using u' by (simp add: trim_no_space)
  moreover have "trim ('' HTTP/1.1'' @ [CR]) = ''HTTP/1.1''" by code_simp
  moreover have "strip_slashes u = Inr path"
    using p by (simp add: u_def path_ok_def strip_slashes_replicate)
  ultimately show ?thesis unfolding u_def [symmetric] put_line_def f q
    by (simp add: put_request_line_def boost_simps [OF b] insertion.put_all_def del: append.simps)
qed

lemma header_lines_ok:
  assumes "list_all header_ok hs" and "l \<in> set (header_lines hs)"
  shows "l \<noteq> [] \<and> CR \<notin> set l \<and> NULC \<notin> set l"
  using assms by (auto simp: header_lines_def list_all_iff header_ok_def plain_def)

lemma lines_no_nul: "\<forall>l \<in> set ls. NULC \<notin> set l \<Longrightarrow> NULC \<notin> set (lines ls)"
  by (induction ls) (auto simp: crlf_def)

lemma parse_request_lines:
  assumes b: "boost_spec b" and ne: "ls \<noteq> []"
    and ls: "\<forall>l \<in> set ls. l \<noteq> [] \<and> CR \<notin> set l \<and> NULC \<notin> set l"
    and body: "NULC \<notin> set body"
  shows "parse_request b (Some (lines ls @ crlf @ body)) old =
    rbind (put_lines b (lines ls @ crlf) (map_insert request_body body [])) (\<lambda>opts. Inr (True, opts))"
proof -
  define s where "s = lines ls @ crlf @ body"
  have c: "c_str s = s" unfolding s_def using ls body lines_no_nul [of ls]
    by (intro c_str_id) (auto simp: crlf_def)
  have f: "find_sub header_end s = Some (length (lines ls) - 2)"
    unfolding s_def using ne ls by (intro find_header_end) auto
  have n: "length (lines ls) - 2 + 4 = length (lines ls @ crlf)"
    using ne by (cases ls) (simp_all add: crlf_def)
  have "take (length (lines ls) - 2 + 4) s = lines ls @ crlf"
    "drop (length (lines ls) - 2 + 4) s = body"
    unfolding n s_def by simp_all
  with c f show ?thesis unfolding s_def [symmetric] parse_request_def
    by (simp add: boost_simps [OF b] header_end_def crlf_def Let_def)
qed

section \<open>The properties of the parser\<close>

lemma request_roundtrip_all:
  assumes b: "boost_spec b" and m: "meth \<noteq> []" "list_all is_alpha meth"
    and p: "path_ok path" and hs: "headers_ok hs" and body: "NULC \<notin> set body"
  shows "\<exists>opts. parse_request b (Some (render_request meth (path @ replicate k (CHR ''/'')) hs body)) old
            = Inr (True, opts) \<and>
          request_option b request_method opts = upper meth \<and>
          request_option b request_uri opts = path \<and>
          request_option b http_version opts = ''HTTP/1.1'' \<and>
          request_option b request_body opts = body \<and>
          (\<forall>(n, v) \<in> set hs. \<forall>n'. upper n' = upper n \<longrightarrow> request_option b n' opts = v)"
proof -
  define u where "u = path @ replicate k (CHR ''/'')"
  define l where "l = meth @ '' '' @ u @ '' HTTP/1.1''"
  define rl where "rl = [(request_method, upper meth), (request_uri, path), (http_version, ''HTTP/1.1'')]"
  define es where "es = [(request_body, body)] @ rl @ hs"
  define opts where "opts = insertion.put_all es []"
  have ok: "list_all header_ok hs" using hs by (simp add: headers_ok_def)
  have uc: "\<forall>c \<in> set u. path_char c" using p path_char_simps by (auto simp: u_def path_ok_def list_all_iff)
  then have "CR \<notin> set u" "LF \<notin> set u" "NULC \<notin> set u" using path_char_simps by auto
  moreover have "CR \<notin> set meth" "LF \<notin> set meth" "NULC \<notin> set meth"
    using m path_char_simps by (auto simp: list_all_iff)
  ultimately have l: "l \<noteq> []" "CR \<notin> set l" "LF \<notin> set l" "NULC \<notin> set l" using m by (auto simp: l_def)
  have "put_lines b (lines (l # header_lines hs) @ crlf) (map_insert request_body body []) =
      rbind (put_line b (l @ [CR]) (map_insert request_body body []))
        (put_lines b (lines (header_lines hs) @ crlf))"
    using put_lines_line [OF l(3,1), of b "lines (header_lines hs) @ crlf"] by simp
  also have "\<dots> = Inr (insertion.put_all hs (insertion.put_all rl (map_insert request_body body [])))"
    unfolding l_def u_def rl_def put_line_request [OF b m p] rbind_simps put_lines_headers [OF b ok] ..
  also have "\<dots> = Inr opts" by (simp add: opts_def es_def insertion.put_all_def)
  finally have "parse_request b (Some (lines (l # header_lines hs) @ crlf @ body)) old = Inr (True, opts)"
    using l header_lines_ok [OF ok] by (subst parse_request_lines [OF b _ _ body]) auto
  moreover have "distinct (map (\<lambda>e. upper (fst e)) es)"
    using hs by (simp add: es_def rl_def headers_ok_def reserved_def comp_def)
  then have d: "distinct (map (\<lambda>e. upper (fst e)) opts)" and s: "set opts = set es"
    unfolding opts_def by (rule put_all_distinct_upper)+
  have look: "request_option b n opts = v" if "(k, v) \<in> set es" "upper n = upper k" "n \<noteq> []" for n k v
    using request_option_unique [OF b, of k v opts n] that d s by simp
  have "request_option b n' opts = v" if "(n, v) \<in> set hs" "upper n' = upper n" for n v n'
  proof (rule look)
    show "(n, v) \<in> set es" using that by (simp add: es_def)
    have "length n' = length n" using that(2) length_upper by metis
    then show "n' \<noteq> []" using ok that(1) by (auto simp: list_all_iff header_ok_def)
  qed (use that in simp)
  moreover have "request_option b request_method opts = upper meth"
    by (rule look [where k = request_method]) (simp_all add: es_def rl_def option_names)
  moreover have "request_option b request_uri opts = path"
    by (rule look [where k = request_uri]) (simp_all add: es_def rl_def option_names)
  moreover have "request_option b http_version opts = ''HTTP/1.1''"
    by (rule look [where k = http_version]) (simp_all add: es_def rl_def option_names)
  moreover have "request_option b request_body opts = body"
    by (rule look [where k = request_body]) (simp_all add: es_def rl_def option_names)
  ultimately show ?thesis unfolding render_request_def l_def u_def by blast
qed

text \<open>C5: A well-formed request is understood: whatever the case of the method and of the
  header names asked for, and however many slashes end the path, \<open>parse_request\<close> returns true
  and \<open>request_option\<close> gives back the method in upper case, the path without the trailing
  slashes, the version, the body and the value of every header.\<close>

theorem request_roundtrip:
  assumes b: "boost_spec b" and m: "meth \<noteq> []" "list_all is_alpha meth"
    and p: "path_ok path" and hs: "headers_ok hs" and body: "NULC \<notin> set body"
  shows "\<exists>opts. parse_request b (Some (render_request meth (path @ replicate k (CHR ''/'')) hs body)) old
            = Inr (True, opts) \<and>
          request_option b request_method opts = upper meth \<and>
          request_option b request_uri opts = path \<and>
          request_option b http_version opts = ''HTTP/1.1'' \<and>
          request_option b request_body opts = body \<and>
          (\<forall>(n, v) \<in> set hs. \<forall>n'. upper n' = upper n \<longrightarrow> request_option b n' opts = v)"
  by (rule request_roundtrip_all [OF assms])

theorem request_roundtrip_witness:
  "\<exists>opts. parse_request ref_boost (Some (render_request ''post'' (''/aa'' @ replicate 2 (CHR ''/''))
        [(''Content-Length'', ''2'')] ''hi'')) [] = Inr (True, opts) \<and>
      request_option ref_boost request_method opts = ''POST'' \<and>
      request_option ref_boost request_uri opts = ''/aa'' \<and>
      request_option ref_boost ''content-length'' opts = ''2''"
proof -
  have "list_all is_alpha ''post''" "path_ok ''/aa''" "headers_ok [(''Content-Length'', ''2'')]"
    by code_simp+
  moreover have "upper ''content-length'' = upper ''Content-Length''" "upper ''post'' = ''POST''"
    by code_simp+
  ultimately show ?thesis
    using request_roundtrip [OF ref_boost_spec, of "''post''" "''/aa''" "[(''Content-Length'', ''2'')]" "''hi''" 2 "[]"]
    by auto
qed

lemma strip_slashes_fault: "strip_slashes u = Inl e \<Longrightarrow> e = OutOfBounds"
  by (induction u rule: strip_slashes.induct) (simp add: strip_slashes.simps split: if_splits)

lemma strip_slashes_result:
  "strip_slashes u = Inr p \<Longrightarrow> p \<noteq> [] \<and> last p \<noteq> CHR ''/'' \<and> (\<exists>k. u = p @ replicate k (CHR ''/''))"
proof (induction u rule: strip_slashes.induct)
  case (1 u)
  show ?case
  proof (cases "u \<noteq> [] \<and> last u = CHR ''/''")
    case True
    with 1 obtain k where k: "p \<noteq> []" "last p \<noteq> CHR ''/''" "butlast u = p @ replicate k (CHR ''/'')"
      by (auto simp: strip_slashes.simps [of u])
    with True have "u = p @ replicate (Suc k) (CHR ''/'')"
      by (metis append_assoc append_butlast_last_id replicate_append_same replicate_Suc)
    with k show ?thesis by blast
  next
    case False
    with "1.prems" have "u \<noteq> []" "p = u" "last u \<noteq> CHR ''/''"
      by (auto simp: strip_slashes.simps [of u] split: if_splits)
    then show ?thesis by (intro conjI exI [of _ 0]) auto
  qed
qed

text \<open>What a line, and the loop over the lines, may do to the options.\<close>

definition opts_ok :: "string \<Rightarrow> options \<Rightarrow> bool" where
  "opts_ok body opts \<longleftrightarrow> sorted_keys opts \<and> map_of opts request_body = Some body"

lemma opts_ok_insert: "opts_ok body opts \<Longrightarrow> opts_ok body (map_insert k v opts)"
  by (auto simp: opts_ok_def insertion.put_sorted insertion.put_lookup)

lemma put_line_opts:
  "opts_ok body opts \<Longrightarrow> case put_line b item opts of Inl e \<Rightarrow> e = OutOfBounds | Inr o' \<Rightarrow> opts_ok body o'"
  by (auto simp: put_line_def put_request_line_def Let_def rbind_def opts_ok_insert
    dest: strip_slashes_fault split: option.split sum.split)

lemma put_lines_opts:
  "opts_ok body opts \<Longrightarrow> case put_lines b resp opts of Inl e \<Rightarrow> e = OutOfBounds | Inr o' \<Rightarrow> opts_ok body o'"
proof (induction b resp opts rule: put_lines.induct)
  case (1 b resp opts)
  show ?case
  proof (cases "getline resp")
    case None
    with 1 show ?thesis by (simp add: put_lines.simps [of b resp])
  next
    case (Some p)
    obtain item rest where p: "p = (item, rest)" by (cases p)
    show ?thesis
      using put_line_opts [OF "1.prems", of b item] 1 Some p
      by (cases "put_line b item opts") (simp_all add: put_lines.simps [of b resp opts])
  qed
qed

text \<open>C18: Whatever bytes arrive, \<open>parse_request\<close> either rejects the head, exactly when it has
  no empty line, and then leaves the options of the last request alone; or accepts it with an
  ordered options map whose body is what follows the first empty line; or runs off an empty
  URI. The assertion on the head never fails.\<close>

theorem parse_request_outcome:
  assumes "boost_spec b"
  shows "case parse_request b ptr old of
      Inl e \<Rightarrow> e = OutOfBounds
    | Inr (accepted, opts) \<Rightarrow>
        (case ptr of None \<Rightarrow> \<not> accepted \<and> opts = old
         | Some mem \<Rightarrow>
             (case find_sub header_end (c_str mem) of
                None \<Rightarrow> \<not> accepted \<and> opts = old
              | Some n \<Rightarrow> accepted \<and> sorted_keys opts \<and>
                  map_of opts request_body = Some (drop (n + 4) (c_str mem))))"
proof (cases ptr)
  case (Some mem)
  show ?thesis
  proof (cases "find_sub header_end (c_str mem)")
    case (Some n)
    define body where "body = drop (n + 4) (c_str mem)"
    have "opts_ok body (map_insert request_body body [])" by (simp add: opts_ok_def)
    from put_lines_opts [OF this, of b "take (n + 4) (c_str mem)"] show ?thesis
      using \<open>ptr = Some mem\<close> Some
      by (auto simp: parse_request_def boost_simps [OF assms] body_def opts_ok_def rbind_def split: sum.splits)
  qed (use Some in \<open>simp add: parse_request_def\<close>)
qed (simp add: parse_request_def)

theorem parse_request_outcome_witness:
  "boost_spec ref_boost \<and> (\<exists>opts. parse_request ref_boost (Some ''POST'') [(''k'', ''v'')] = Inr (False, opts)
     \<and> opts = [(''k'', ''v'')])"
  using parse_request_outcome [OF ref_boost_spec, where ptr = "Some ''POST''" and old = "[(''k'', ''v'')]"] ref_boost_spec
  by (auto simp: parse_request_def header_end_def crlf_def c_str_def)

section \<open>Requests that are not understood\<close>

lemma strip_slashes_only: "strip_slashes (replicate k (CHR ''/'')) = Inl OutOfBounds"
proof (induction k)
  case (Suc k)
  have "replicate (Suc k) (CHR ''/'') = replicate k (CHR ''/'') @ [CHR ''/'']"
    by (simp add: replicate_append_same)
  then show ?case using Suc by (subst strip_slashes.simps) simp
qed (simp add: strip_slashes.simps)

lemma put_line_slashes:
  assumes b: "boost_spec b" and m: "meth \<noteq> []" "list_all is_alpha meth"
  shows "put_line b ((meth @ '' '' @ replicate (Suc k) (CHR ''/'') @ '' HTTP/1.1'') @ [CR]) opts = Inl OutOfBounds"
proof -
  define u where "u = replicate (Suc k) (CHR ''/'')"
  have m': "CHR '':'' \<notin> set meth" using m path_char_simps by (auto simp: list_all_iff)
  then have f: "find_char (CHR '':'') ((meth @ '' '' @ u @ '' HTTP/1.1'') @ [CR]) = None"
    by (auto simp: find_char_def u_def)
  have "request_line ((meth @ '' '' @ u @ '' HTTP/1.1'') @ [CR]) meth u ('' HTTP/1.1'' @ [CR])"
    unfolding request_line_def using m by (intro exI [of _ "'' ''"]) (simp add: u_def)
  then have q: "request_line_match b ((meth @ '' '' @ u @ '' HTTP/1.1'') @ [CR]) =
      Some (meth, u, '' HTTP/1.1'' @ [CR])"
    by (simp only: boost_simps [OF b])
  have "trim u = u" using path_char_simps by (intro trim_no_space) (auto simp: u_def path_char_def)
  then have "strip_slashes (trim u) = Inl OutOfBounds" by (simp only: u_def strip_slashes_only)
  then show ?thesis unfolding u_def [symmetric] put_line_def f q
    by (simp add: put_request_line_def boost_simps [OF b] del: append.simps)
qed

text \<open>A request for the root, \<open>/\<close> or any run of slashes, makes the loop that strips trailing
  slashes read before the start of the emptied URI, whatever its method, headers and body.\<close>

theorem slash_request_out_of_bounds:
  assumes b: "boost_spec b" and m: "meth \<noteq> []" "list_all is_alpha meth"
    and hs: "list_all header_ok hs" and body: "NULC \<notin> set body"
  shows "parse_request b (Some (render_request meth (replicate (Suc k) (CHR ''/'')) hs body)) old = Inl OutOfBounds"
proof -
  define l where "l = meth @ '' '' @ replicate (Suc k) (CHR ''/'') @ '' HTTP/1.1''"
  have "CR \<notin> set meth" "LF \<notin> set meth" "NULC \<notin> set meth"
    using m path_char_simps by (auto simp: list_all_iff)
  then have l: "l \<noteq> []" "CR \<notin> set l" "LF \<notin> set l" "NULC \<notin> set l" using m by (auto simp: l_def)
  have "put_lines b (lines (l # header_lines hs) @ crlf) (map_insert request_body body []) = Inl OutOfBounds"
    using put_lines_line [OF l(3,1), of b "lines (header_lines hs) @ crlf"]
      put_line_slashes [OF b m, of k] by (simp add: l_def)
  with l header_lines_ok [OF hs] show ?thesis
    unfolding render_request_def l_def [symmetric]
    by (subst parse_request_lines [OF b _ _ body]) auto
qed

theorem slash_request_out_of_bounds_witness:
  "parse_request ref_boost (Some (render_request ''GET'' (replicate (Suc 0) (CHR ''/'')) [] '''')) [] = Inl OutOfBounds"
  by (rule slash_request_out_of_bounds [OF ref_boost_spec]) (simp, code_simp, simp, simp)

text \<open>C39: A client can replace the path that was parsed from its request line: the stored path
  is found by a search that ignores case, in key order, so the header \<open>Request_uri_\<close> hides it.\<close>

theorem header_overrides_uri:
  assumes b: "boost_spec b" and m: "meth \<noteq> []" "list_all is_alpha meth"
    and p: "path_ok path" and v: "plain v" and body: "NULC \<notin> set body"
  shows "\<exists>opts. parse_request b (Some (render_request meth path [(''Request_uri_'', v)] body)) old = Inr (True, opts) \<and>
     map_of opts request_uri = Some path \<and> request_option b request_uri opts = v"
proof -
  define l where "l = meth @ '' '' @ path @ '' HTTP/1.1''"
  define rl where "rl = [(request_method, upper meth), (request_uri, path), (http_version, ''HTTP/1.1'')]"
  define hs where "hs = [(''Request_uri_'', v)]"
  have "plain ''Request_uri_''" by code_simp
  with v have ok: "list_all header_ok hs" by (simp add: hs_def header_ok_def)
  have "\<forall>c \<in> set path. path_char c" using p by (auto simp: path_ok_def list_all_iff)
  then have "CR \<notin> set path" "LF \<notin> set path" "NULC \<notin> set path" using path_char_simps by auto
  moreover have "CR \<notin> set meth" "LF \<notin> set meth" "NULC \<notin> set meth"
    using m path_char_simps by (auto simp: list_all_iff)
  ultimately have l: "l \<noteq> []" "CR \<notin> set l" "LF \<notin> set l" "NULC \<notin> set l" using m by (auto simp: l_def)
  define opts where "opts = insertion.put_all hs (insertion.put_all rl (map_insert request_body body []))"
  have "put_lines b (lines (l # header_lines hs) @ crlf) (map_insert request_body body []) = Inr opts"
    using put_lines_line [OF l(3,1), of b "lines (header_lines hs) @ crlf"]
      put_line_request [OF b m p, of 0] put_lines_headers [OF b ok]
    by (simp add: l_def rl_def opts_def)
  with l header_lines_ok [OF ok]
  have "parse_request b (Some (lines (l # header_lines hs) @ crlf @ body)) old = Inr (True, opts)"
    by (subst parse_request_lines [OF b _ _ body]) auto
  moreover have "opts = [(''Request_uri_'', v), (http_version, ''HTTP/1.1''), (request_body, body),
      (request_method, upper meth), (request_uri, path)]"
    by (simp add: opts_def hs_def rl_def insertion.put_all_def option_names)
  moreover have "upper request_uri = upper ''Request_uri_''" "upper request_uri \<noteq> []" by code_simp+
  ultimately show ?thesis
    unfolding render_request_def l_def hs_def
    by (intro exI [of _ opts]) (auto simp: boost_simps [OF b] option_names)
qed

theorem header_overrides_uri_witness:
  "\<exists>opts. parse_request ref_boost (Some (render_request ''POST'' ''/aa'' [(''Request_uri_'', ''/bb'')] '''')) []
      = Inr (True, opts) \<and> request_option ref_boost request_uri opts = ''/bb''"
proof -
  have "list_all is_alpha ''POST''" "path_ok ''/aa''" "plain ''/bb''" by code_simp+
  then show ?thesis
    using header_overrides_uri [OF ref_boost_spec, of "''POST''" "''/aa''" "''/bb''" "''''" "[]"]
    by auto
qed

end
