(* ===== verification/Reply.thy ===== *)
theory Reply
  imports Http_Parser_Facts
begin

text \<open>
  \<open>include/reply.hpp\<close>: the two overloads of \<open>reply_generate\<close>. The current date, printed by
  Boost.Date_Time, is an argument. The lemmas read a generated reply back with the program's
  own header parser.
\<close>

section \<open>Definitions\<close>

record header =
  hname :: string
  hvalue :: string

definition reply_headers :: "string \<Rightarrow> string \<Rightarrow> header list" where
  "reply_headers date len =
     [\<lparr> hname = ''Server'', hvalue = ''airobot_msgd/1.0'' \<rparr>,
      \<lparr> hname = ''Date'', hvalue = date \<rparr>,
      \<lparr> hname = ''Content-Length'', hvalue = len \<rparr>,
      \<lparr> hname = ''Content-Type'', hvalue = ''text/html'' \<rparr>,
      \<lparr> hname = ''Connection'', hvalue = ''keep-alive'' \<rparr>,
      \<lparr> hname = ''Access-Control-Allow-Origin'', hvalue = ''*'' \<rparr>]"

definition add_header :: "string \<Rightarrow> header \<Rightarrow> string" where
  "add_header str h = str @ hname h @ '': '' @ hvalue h @ crlf"

text \<open>\<open>reply_generate (const string& content, const string& stat_str)\<close>.\<close>

definition reply_generate :: "string \<Rightarrow> string \<Rightarrow> string \<Rightarrow> string" where
  "reply_generate date content stat_str =
     foldl add_header stat_str (reply_headers date (show_nat (length content))) @ crlf @ content"

text \<open>
  \<open>reply_generate (const char* data, size_t len, const string& stat_str)\<close>: \<open>str += data\<close>
  appends up to the first NUL, whatever \<open>len\<close> says.
\<close>

definition reply_generate_data :: "string \<Rightarrow> string \<Rightarrow> u64 \<Rightarrow> string \<Rightarrow> string" where
  "reply_generate_data date data len stat_str =
     foldl add_header stat_str (reply_headers date (show_nat (unat len))) @ crlf @ c_str data"

section \<open>Reading a reply back\<close>

definition reply_options :: "string \<Rightarrow> string \<Rightarrow> options" where
  "reply_options date len = map (\<lambda>h. (hname h, hvalue h)) (reply_headers date len)"

lemma ref_match_eq:
  assumes "boost_spec b"
  shows "request_line_match b s = ref_request_line_match s"
proof -
  have eq: "request_line_match b s = Some t \<longleftrightarrow> ref_request_line_match s = Some t" for t
    using boost_simps(5) [OF assms, of s] ref_request_line_match_iff [of s] by (cases t) simp
  then show ?thesis by (cases "request_line_match b s") (metis not_Some_eq, metis)
qed

lemma status_not_request_line: "ref_request_line_match (butlast (status s)) = None"
  by (cases s; hypsubst; code_simp)

lemma header_text_lines:
  "foldl add_header str hs = str @ lines (header_lines (map (\<lambda>h. (hname h, hvalue h)) hs))"
  by (induction hs arbitrary: str) (simp_all add: add_header_def header_lines_def)

lemma show_nat_plain: "plain (show_nat n)"
proof -
  have "\<not> c_isspace c" "c \<noteq> NULC" "c \<noteq> CR" "c \<noteq> LF" if "c \<in> set (show_nat n)" for c
    using show_nat_digits [OF that] by (auto simp: is_digit_def c_isspace_def byte_def)
  then show ?thesis by (auto simp: plain_def trim_no_space)
qed

lemma reply_options_ok:
  assumes "plain date"
  shows "headers_ok (reply_options date (show_nat n))"
proof -
  have "plain ''Server'' \<and> plain ''airobot_msgd/1.0'' \<and> plain ''Date'' \<and> plain ''Content-Length''
    \<and> plain ''Content-Type'' \<and> plain ''text/html'' \<and> plain ''Connection'' \<and> plain ''keep-alive''
    \<and> plain ''Access-Control-Allow-Origin'' \<and> plain ''*''"
    by code_simp
  moreover have "distinct (map upper (reserved @ [''Server'', ''Date'', ''Content-Length'',
      ''Content-Type'', ''Connection'', ''Access-Control-Allow-Origin'']))"
    by code_simp
  ultimately show ?thesis using assms show_nat_plain [of n]
    by (simp add: headers_ok_def header_ok_def reply_options_def reply_headers_def)
qed

lemma parse_reply:
  assumes b: "boost_spec b" and d: "plain date" and body: "NULC \<notin> set body"
  shows "\<exists>opts. parse_request b
      (Some (foldl add_header (status s) (reply_headers date (show_nat n)) @ crlf @ body)) old
        = Inr (True, opts) \<and>
      request_option b request_body opts = body \<and>
      (\<forall>(k, v) \<in> set (reply_options date (show_nat n)). request_option b k opts = v)"
proof -
  define hs where "hs = reply_options date (show_nat n)"
  define es where "es = (request_body, body) # hs"
  define opts where "opts = insertion.put_all es []"
  obtain l where st: "status s = l @ crlf" and l: "l \<noteq> []" "NULC \<notin> set l" "CR \<notin> set l" "LF \<notin> set l"
    "CHR '':'' \<notin> set l"
    using status_line by blast
  have ok: "headers_ok hs" unfolding hs_def by (rule reply_options_ok [OF d])
  then have hok: "list_all header_ok hs" by (simp add: headers_ok_def)
  have "butlast (status s) = l @ [CR]" by (simp add: st crlf_def butlast_append)
  with l have "put_line b (l @ [CR]) o' = Inr o'" for o'
    using status_not_request_line [of s] by (simp add: put_line_def find_char_def ref_match_eq [OF b])
  then have "put_lines b (lines (l # header_lines hs) @ crlf) (map_insert request_body body []) = Inr opts"
    using put_lines_line [OF l(4,1), of b "lines (header_lines hs) @ crlf"] put_lines_headers [OF b hok]
    by (simp add: opts_def es_def insertion.put_all_def)
  with l header_lines_ok [OF hok]
  have "parse_request b (Some (lines (l # header_lines hs) @ crlf @ body)) old = Inr (True, opts)"
    by (subst parse_request_lines [OF b _ _ body]) auto
  moreover have "foldl add_header (status s) (reply_headers date (show_nat n)) @ crlf @ body =
      lines (l # header_lines hs) @ crlf @ body"
    by (simp add: header_text_lines st hs_def reply_options_def)
  moreover have "distinct (map (\<lambda>e. upper (fst e)) es)"
    using ok by (simp add: es_def headers_ok_def reserved_def comp_def)
  then have "distinct (map (\<lambda>e. upper (fst e)) opts)" and "set opts = set es"
    unfolding opts_def by (rule put_all_distinct_upper)+
  then have look: "request_option b k opts = v" if "(k, v) \<in> set es" "k \<noteq> []" for k v
    using request_option_unique [OF b, of k v opts k] that by simp
  have "request_option b k opts = v" if "(k, v) \<in> set hs" for k v
    using that hok by (intro look) (auto simp: es_def list_all_iff header_ok_def)
  moreover have "request_option b request_body opts = body"
    by (rule look) (simp_all add: es_def request_body_def)
  ultimately show ?thesis unfolding hs_def by (intro exI [of _ opts]) auto
qed

text \<open>C19: A reply made from a string is a well-formed message: read back, its body is the
  content and its \<open>Content-Length\<close> is the length of the content, and the program's own
  \<open>atoi\<close> recovers that number.\<close>

theorem reply_roundtrip:
  assumes b: "boost_spec b" and d: "plain date" and c: "NULC \<notin> set content"
    and len: "length content < 2 ^ 31"
  shows "\<exists>opts. parse_request b (Some (reply_generate date content (status s))) old = Inr (True, opts) \<and>
      request_option b request_body opts = content \<and>
      atoi_size (request_option b content_length opts) = of_nat (length content)"
proof -
  define n where "n = length content"
  obtain opts where o: "parse_request b (Some (reply_generate date content (status s))) old = Inr (True, opts)"
    "request_option b request_body opts = content"
    and h: "\<forall>(k, v) \<in> set (reply_options date (show_nat n)). request_option b k opts = v"
    unfolding reply_generate_def n_def using parse_reply [OF b d c] by blast
  from h have "request_option b content_length opts = show_nat n"
    by (simp add: reply_options_def reply_headers_def content_length_def)
  moreover have "atoi_size (show_nat n) = of_nat n" using len by (simp add: n_def atoi_size_show_nat)
  ultimately show ?thesis using o n_def by auto
qed

theorem reply_roundtrip_witness:
  "\<exists>opts. parse_request ref_boost (Some (reply_generate ''2017-Jan-01 10:00:00'' content_ok (status Ok))) []
      = Inr (True, opts) \<and>
      request_option ref_boost request_body opts = ''{}'' \<and>
      atoi_size (request_option ref_boost content_length opts) = 2"
proof -
  have "plain ''2017-Jan-01 10:00:00''" by code_simp
  then show ?thesis
    using reply_roundtrip [OF ref_boost_spec, of "''2017-Jan-01 10:00:00''" content_ok Ok "[]"]
    by (simp add: content_ok_def)
qed

text \<open>A reply made from a pointer and a length announces the length it is given, while its body
  is the data up to the first NUL: the two agree only when \<open>len\<close> is the length of the string,
  and the message is one byte short when \<open>len\<close> counts the terminating NUL.\<close>

theorem reply_data_lengths:
  assumes b: "boost_spec b" and d: "plain date"
  shows "\<exists>opts. parse_request b (Some (reply_generate_data date data len (status s))) old = Inr (True, opts) \<and>
      request_option b request_body opts = c_str data \<and>
      request_option b content_length opts = show_nat (unat len)"
proof -
  obtain opts where "parse_request b (Some (reply_generate_data date data len (status s))) old = Inr (True, opts)"
    "request_option b request_body opts = c_str data"
    and "\<forall>(k, v) \<in> set (reply_options date (show_nat (unat len))). request_option b k opts = v"
    unfolding reply_generate_data_def using parse_reply [OF b d c_str_no_nul] by blast
  then show ?thesis by (intro exI [of _ opts]) (simp add: reply_options_def reply_headers_def content_length_def)
qed

theorem reply_data_lengths_witness:
  "\<exists>opts. parse_request ref_boost (Some (reply_generate_data ''now'' (''bb'' @ [NULC]) 3 (status Ok))) []
      = Inr (True, opts) \<and>
      request_option ref_boost request_body opts = ''bb'' \<and>
      request_option ref_boost content_length opts = ''3''"
proof -
  have "plain ''now''" "c_str (''bb'' @ [NULC]) = ''bb''" "show_nat 3 = ''3''" by code_simp+
  then show ?thesis
    using reply_data_lengths [OF ref_boost_spec, of "''now''" "''bb'' @ [NULC]" 3 Ok "[]"] by simp
qed

end
