(* ===== verification/Connection.thy ===== *)
theory Connection
  imports Reply
begin

text \<open>
  \<open>connection.hpp\<close> and \<open>connection.cpp\<close>, the base class of both kinds of connection. An
  object is a record; the derived classes extend it. An operation returns the updated object
  and the list of asynchronous operations and socket calls it issued, in order, or the fault
  that stops it. A socket pointer is the number of the socket, \<open>None\<close> when it was reset. Time
  is the argument \<open>now\<close>, in seconds.
\<close>

section \<open>State\<close>

datatype connection_stats = conn_working | conn_pending | conn_error

text \<open>The error codes the handlers tell apart.\<close>

datatype error_code = NoError | OperationAborted | OtherError

record connection =
  stats :: connection_stats
  r_size :: u64
  w_size :: u64
  w_pos :: u64
  p_buffer :: string
  p_write :: string
  p_sock :: "nat option"
  touch_time :: int

datatype shutdown_type = shutdown_receive | shutdown_send | shutdown_both

datatype action =
    AsyncReadSome nat               \<comment> \<open>\<open>async_read_some\<close> into that many bytes of \<open>p_buffer\<close>\<close>
  | AsyncReadUntil                  \<comment> \<open>\<open>async_read_until\<close> the empty line, into the streambuf\<close>
  | AsyncRead u64 u64               \<comment> \<open>\<open>async_read\<close>: offset in \<open>p_buffer\<close>, exact length\<close>
  | AsyncWriteSome nat              \<comment> \<open>\<open>async_write_some\<close> of that many bytes of \<open>p_write\<close>\<close>
  | AsyncWrite u64 u64              \<comment> \<open>\<open>async_write\<close>: offset in \<open>p_write\<close>, exact length\<close>
  | Shutdown shutdown_type
  | CancelOps
  | CloseSock
  | NotifyRemove                    \<comment> \<open>\<open>push_to_remove (this)\<close> and \<open>notify_one\<close>\<close>
  | PushFront u64 string u64        \<comment> \<open>\<open>backend_server::push_front\<close>\<close>
  | PushBackend u64 string u64      \<comment> \<open>\<open>http_server::push_backend\<close>\<close>

type_synonym 'c outcome = "('c \<times> action list) result"

definition buffer_size :: nat where
  "buffer_size = 16 * 1024"

section \<open>Operations\<close>

text \<open>The constructor.\<close>

definition new_connection :: "nat \<Rightarrow> int \<Rightarrow> connection" where
  "new_connection sock now =
     \<lparr> stats = conn_pending, r_size = 0, w_size = 0, w_pos = 0,
       p_buffer = replicate buffer_size NULC, p_write = replicate buffer_size NULC,
       p_sock = Some sock, touch_time = now \<rparr>"

definition touch_sock_time :: "int \<Rightarrow> 'a connection_scheme \<Rightarrow> 'a connection_scheme" where
  "touch_sock_time now c = c\<lparr>touch_time := now\<rparr>"

text \<open>A call through \<open>p_sock_\<close>.\<close>

definition on_sock :: "action list \<Rightarrow> 'a connection_scheme \<Rightarrow> 'a connection_scheme outcome" where
  "on_sock acts c = (if p_sock c = None then Inl NullPointer else Inr (c, acts))"

definition do_read :: "int \<Rightarrow> 'a connection_scheme \<Rightarrow> 'a connection_scheme outcome" where
  "do_read now c =
     (if stats c \<noteq> conn_working then Inr (c, [])
      else on_sock [AsyncReadSome (length (p_buffer c))] (touch_sock_time now c))"

definition do_write :: "int \<Rightarrow> 'a connection_scheme \<Rightarrow> 'a connection_scheme outcome" where
  "do_write now c =
     (if stats c \<noteq> conn_working then Inr (c, [])
      else on_sock [AsyncWriteSome (length (p_write c))] (touch_sock_time now c))"

definition start :: "int \<Rightarrow> 'a connection_scheme \<Rightarrow> 'a connection_scheme outcome" where
  "start now c = do_read now (c\<lparr>stats := conn_working\<rparr>)"

text \<open>\<open>fill_and_send (data, len)\<close>: \<open>data\<close> is the memory the pointer addresses.\<close>

definition fill_and_send ::
  "int \<Rightarrow> string option \<Rightarrow> u64 \<Rightarrow> 'a connection_scheme \<Rightarrow> 'a connection_scheme outcome" where
  "fill_and_send now data len c =
     (case data of
        None \<Rightarrow> Inl AssertFailed
      | Some mem \<Rightarrow>
          rbind (require (len \<noteq> 0) AssertFailed) (\<lambda>_.
          rbind (if length (p_write c) < unat len then vec_resize len (p_write c)
                 else Inr (p_write c)) (\<lambda>w.
          rbind (require (unat len \<le> length mem) OutOfBounds) (\<lambda>_.
          rbind (vec_write w 0 (take (unat len) mem)) (\<lambda>w.
          do_write now (c\<lparr>p_write := w, w_size := len, w_pos := 0\<rparr>))))))"

text \<open>The end of both \<open>fill_for_http\<close>: the reply with its NUL goes to \<open>p_write\<close>.\<close>

definition store_reply :: "string \<Rightarrow> 'a connection_scheme \<Rightarrow> 'a connection_scheme result" where
  "store_reply enc c =
     rbind (if length (p_write c) < length enc + 1 then vec_resize (of_nat (length enc + 1)) (p_write c)
            else Inr (p_write c)) (\<lambda>w.
     rbind (vec_write w 0 (enc @ [NULC])) (\<lambda>w.
     Inr (c\<lparr>p_write := w, w_size := of_nat (length enc), w_pos := 0\<rparr>)))"

definition fill_for_http ::
  "string \<Rightarrow> string \<Rightarrow> string \<Rightarrow> 'a connection_scheme \<Rightarrow> 'a connection_scheme result" where
  "fill_for_http date str stat c = store_reply (reply_generate date str stat) c"

definition fill_for_http_data ::
  "string \<Rightarrow> string option \<Rightarrow> u64 \<Rightarrow> string \<Rightarrow> 'a connection_scheme \<Rightarrow> 'a connection_scheme result" where
  "fill_for_http_data date data len stat c =
     (case data of
        None \<Rightarrow> Inl AssertFailed
      | Some mem \<Rightarrow>
          rbind (require (len \<noteq> 0) AssertFailed) (\<lambda>_.
          store_reply (reply_generate_data date mem len stat) c))"

section \<open>Socket options\<close>

text \<open>The kernel's side of a socket option: setting may throw, and reading may too.\<close>

record 'k sock_option =
  set_option :: "bool \<Rightarrow> 'k \<Rightarrow> 'k result"
  get_option :: "'k \<Rightarrow> bool result"

definition set_tcp_nodelay :: "'k sock_option \<Rightarrow> bool \<Rightarrow> 'k \<Rightarrow> (bool \<times> 'k) result" where
  "set_tcp_nodelay no_delay set_true k =
     rbind (set_option no_delay set_true k) (\<lambda>k.
     rbind (get_option no_delay k) (\<lambda>v. Inr (v = set_true, k)))"

definition set_tcp_keepalive :: "'k sock_option \<Rightarrow> bool \<Rightarrow> 'k \<Rightarrow> (bool \<times> 'k) result" where
  "set_tcp_keepalive keep_alive set_true k =
     rbind (set_option keep_alive set_true k) (\<lambda>k.
     rbind (get_option keep_alive k) (\<lambda>v. Inr (v = set_true, k)))"

section \<open>Facts\<close>

lemma touch_sock_time_keeps [keeps]:
  "stats (touch_sock_time now c) = stats c" "p_sock (touch_sock_time now c) = p_sock c"
  "p_buffer (touch_sock_time now c) = p_buffer c" "p_write (touch_sock_time now c) = p_write c"
  "r_size (touch_sock_time now c) = r_size c" "w_size (touch_sock_time now c) = w_size c"
  "w_pos (touch_sock_time now c) = w_pos c"
  "touch_time (touch_sock_time now c) = now"
  by (simp_all add: touch_sock_time_def)

lemma on_sock_Inr [simp]: "on_sock acts c = Inr (c', as) \<longleftrightarrow> p_sock c \<noteq> None \<and> c' = c \<and> as = acts"
  by (auto simp: on_sock_def)

lemma on_sock_some [simp]: "p_sock c = Some s \<Longrightarrow> on_sock acts c = Inr (c, acts)"
  by (simp add: on_sock_def)

text \<open>Both write paths enlarge the buffer when the data does not fit and then copy it in.\<close>

definition grow_write :: "string \<Rightarrow> string \<Rightarrow> string" where
  "grow_write w data = data @ drop (length data) w"

lemma resize_then_write:
  assumes "length data < 2 ^ 63"
  shows "rbind (if length w < length data then vec_resize (of_nat (length data)) w else Inr w)
    (\<lambda>w. vec_write w 0 data) = Inr (grow_write w data)"
proof -
  have "unat (of_nat (length data) :: u64) = length data"
    using assms by (rule unat_of_nat_small)
  then show ?thesis using assms by (auto simp: vec_resize_def vec_write_def grow_write_def)
qed

lemma grow_write_facts [simp]:
  "length (grow_write w data) = max (length w) (length data)"
  "take (length data) (grow_write w data) = data"
  "drop (length data) (grow_write w data) = drop (length data) w"
  by (simp_all add: grow_write_def max_def)

lemma store_reply_eq:
  assumes "length enc + 1 < 2 ^ 63"
  shows "store_reply enc c =
    Inr (c\<lparr>p_write := grow_write (p_write c) (enc @ [NULC]), w_size := of_nat (length enc), w_pos := 0\<rparr>)"
proof -
  have l: "length enc + 1 = length (enc @ [NULC])" by simp
  from assms have "length (enc @ [NULC]) < 2 ^ 63" by simp
  from resize_then_write [OF this, of "p_write c"] show ?thesis
    unfolding store_reply_def l rbind_assoc [symmetric] by (simp only: rbind_simps)
qed

lemma fill_and_send_eq:
  assumes "len = of_nat (length data)" and "data \<noteq> []" and "length data < 2 ^ 63"
  shows "fill_and_send now (Some (data @ rest)) len c =
    do_write now (c\<lparr>p_write := grow_write (p_write c) data, w_size := len, w_pos := 0\<rparr>)"
proof -
  have u: "unat len = length data" using assms unat_of_nat_small by blast
  then have "unat len \<noteq> 0" using assms(2) by simp
  then have "len \<noteq> 0" by (auto simp only: unat_0)
  obtain w where w: "(if length (p_write c) < length data then vec_resize len (p_write c) else Inr (p_write c)) = Inr w"
    and "vec_write w 0 data = Inr (grow_write (p_write c) data)"
    using resize_then_write [OF assms(3), of "p_write c"] assms(1) by (auto simp: rbind_Inr_iff)
  then show ?thesis using \<open>len \<noteq> 0\<close> by (simp add: fill_and_send_def u)
qed

text \<open>The bytes a posted write hands to the socket, read from the buffer when it runs.\<close>

fun write_bytes :: "'a connection_scheme \<Rightarrow> action \<Rightarrow> string" where
  "write_bytes c (AsyncWriteSome n) = take n (p_write c)"
| "write_bytes c (AsyncWrite off n) = take (unat n) (drop (unat off) (p_write c))"
| "write_bytes c _ = []"

text \<open>What a backend peer is sent for one message: \<open>fill_and_send\<close> copies the message to the
  front of the write buffer and records its length, but the base class's \<open>do_write\<close> writes the
  whole buffer, so the message is followed by whatever an earlier one left behind it.\<close>

theorem fill_and_send_bytes:
  assumes "len = of_nat (length data)" and "data \<noteq> []" and "length data < 2 ^ 63"
    and "stats c = conn_working" and "p_sock c = Some s"
  shows "\<exists>c' a. fill_and_send now (Some (data @ rest)) len c = Inr (c', [a]) \<and>
      w_size c' = len \<and> touch_time c' = now \<and>
      write_bytes c' a = data @ drop (length data) (p_write c)"
  using assms(4,5) unfolding fill_and_send_eq [OF assms(1-3)]
  by (simp add: do_write_def keeps on_sock_def) (simp add: grow_write_def)

theorem fill_and_send_bytes_witness:
  "\<exists>c' a. fill_and_send 7 (Some ''ok'') 2
      \<lparr> stats = conn_working, r_size = 0, w_size = 6, w_pos = 0, p_buffer = '''',
        p_write = ''secret'', p_sock = Some 3, touch_time = 0 \<rparr> = Inr (c', [a]) \<and>
     write_bytes c' a = ''okcret''"
  using fill_and_send_bytes [of 2 "''ok''"
      "\<lparr> stats = conn_working, r_size = 0, w_size = 6, w_pos = 0, p_buffer = '''',
        p_write = ''secret'', p_sock = Some 3, touch_time = 0 \<rparr>" 3 7 "''''"] by auto

end
