(* ===== verification/Ieee_Double.thy ===== *)
theory Ieee_Double
  imports C_Numbers
begin

text \<open>
  The C++ \<open>double\<close> of the target: IEEE 754 binary64, computed exactly on integers.
  A finite value is a sign, a significand and an exponent of two; \<open>dbl_round\<close> rounds an
  exact fraction to the nearest value, ties to even. On it rest the conversions the program
  uses: integer to \<open>double\<close>, \<open>strtod\<close>, the truncating casts to 64-bit integers (with no
  result where C++ leaves the cast undefined), \<open>==\<close> and \<open><\<close>, multiplication, and the
  text that \<open>snprintf ("%.17g")\<close> gives. The lemmas show that integers up to \<open>2 ^ 53\<close> in
  magnitude convert exactly, which is what json11 relies on.
\<close>

section \<open>Values and rounding\<close>

datatype dbl = DFin bool nat int | DInf bool | DNaN

fun ilog2 :: "nat \<Rightarrow> nat" where
  "ilog2 n = (if n < 2 then 0 else Suc (ilog2 (n div 2)))"

declare ilog2.simps [simp del]

definition round_half_even :: "nat \<Rightarrow> nat \<Rightarrow> nat" where
  "round_half_even n d =
     (let q = n div d; r = n mod d in
      if 2 * r < d \<or> 2 * r = d \<and> even q then q else Suc q)"

text \<open>The fraction \<open>n / (d * b ^ e)\<close> with both parts natural numbers.\<close>

definition scale_ratio :: "nat \<Rightarrow> nat \<Rightarrow> nat \<Rightarrow> int \<Rightarrow> nat \<times> nat" where
  "scale_ratio b n d e = (if 0 \<le> e then (n, d * b ^ nat e) else (n * b ^ nat (- e), d))"

text \<open>The largest \<open>l\<close> with \<open>2 ^ l \<le> n / d\<close>.\<close>

definition floor_log2 :: "nat \<Rightarrow> nat \<Rightarrow> int" where
  "floor_log2 n d =
     (let l = int (ilog2 n) - int (ilog2 d) in
      case scale_ratio 2 n d l of (n', d') \<Rightarrow> if n' < d' then l - 1 else l)"

definition dbl_round :: "bool \<Rightarrow> nat \<Rightarrow> nat \<Rightarrow> dbl" where
  "dbl_round neg n d =
     (if n = 0 then DFin neg 0 (- 1074)
      else let e = max (floor_log2 n d - 52) (- 1074);
               m = (case scale_ratio 2 n d e of (n', d') \<Rightarrow> round_half_even n' d');
               (m', e') = (if m = 2 ^ 53 then (2 ^ 52, e + 1) else (m, e))
           in if 971 < e' then DInf neg else DFin neg m' e')"

text \<open>A finite value in units of \<open>2 ^ - 1074\<close>, the smallest positive \<open>double\<close>.\<close>

definition unit_exp :: nat where "unit_exp = 1074"

fun dbl_units :: "dbl \<Rightarrow> int" where
  "dbl_units (DFin neg m e) = (if neg then - 1 else 1) * int m * 2 ^ nat (e + int unit_exp)"
| "dbl_units _ = 0"

section \<open>Comparison, casts, arithmetic\<close>

fun dbl_eq :: "dbl \<Rightarrow> dbl \<Rightarrow> bool" where
  "dbl_eq (DFin a m e) (DFin b n f) \<longleftrightarrow> dbl_units (DFin a m e) = dbl_units (DFin b n f)"
| "dbl_eq (DInf a) (DInf b) \<longleftrightarrow> a = b"
| "dbl_eq _ _ \<longleftrightarrow> False"

fun dbl_less :: "dbl \<Rightarrow> dbl \<Rightarrow> bool" where
  "dbl_less (DFin a m e) (DFin b n f) \<longleftrightarrow> dbl_units (DFin a m e) < dbl_units (DFin b n f)"
| "dbl_less (DFin a m e) (DInf b) \<longleftrightarrow> \<not> b"
| "dbl_less (DInf a) (DFin b n f) \<longleftrightarrow> a"
| "dbl_less (DInf a) (DInf b) \<longleftrightarrow> a \<and> \<not> b"
| "dbl_less _ _ \<longleftrightarrow> False"

definition dbl_of_int :: "int \<Rightarrow> dbl" where
  "dbl_of_int i = dbl_round (i < 0) (nat \<bar>i\<bar>) 1"

fun dbl_trunc :: "dbl \<Rightarrow> int option" where
  "dbl_trunc (DFin neg m e) =
     (let t = (if 0 \<le> e then m * 2 ^ nat e else m div 2 ^ nat (- e))
      in Some (if neg then - int t else int t))"
| "dbl_trunc _ = None"

text \<open>\<open>static_cast<uint64_t>\<close> and \<open>static_cast<int64_t>\<close>: no value outside the range.\<close>

definition dbl_to_u64 :: "dbl \<Rightarrow> u64 option" where
  "dbl_to_u64 d =
     (case dbl_trunc d of None \<Rightarrow> None
      | Some t \<Rightarrow> if 0 \<le> t \<and> t < 2 ^ 64 then Some (of_int t) else None)"

definition dbl_to_i64 :: "dbl \<Rightarrow> u64 option" where
  "dbl_to_i64 d =
     (case dbl_trunc d of None \<Rightarrow> None
      | Some t \<Rightarrow> if - (2 ^ 63) \<le> t \<and> t < 2 ^ 63 then Some (of_int t) else None)"

fun dbl_mul :: "dbl \<Rightarrow> dbl \<Rightarrow> dbl" where
  "dbl_mul (DFin a m e) (DFin b n f) =
     (case scale_ratio 2 (m * n) 1 (- (e + f)) of (p, q) \<Rightarrow> dbl_round (a \<noteq> b) p q)"
| "dbl_mul (DInf a) (DFin b n f) = (if n = 0 then DNaN else DInf (a \<noteq> b))"
| "dbl_mul (DFin a m e) (DInf b) = (if m = 0 then DNaN else DInf (a \<noteq> b))"
| "dbl_mul (DInf a) (DInf b) = DInf (a \<noteq> b)"
| "dbl_mul _ _ = DNaN"

section \<open>Decimal text\<close>

text \<open>
  \<open>strtod\<close> on a decimal literal: optional sign, digits, fraction, exponent. The exact value
  is \<open>m * 10 ^ e\<close>. The second result says whether \<open>errno\<close> becomes \<open>ERANGE\<close>: on overflow,
  and (as glibc does) on an inexact result below the normal range.
\<close>

definition strtod_parts :: "string \<Rightarrow> bool \<times> nat \<times> int" where
  "strtod_parts s =
     (let neg = (case s of c # _ \<Rightarrow> c = CHR ''-'' | [] \<Rightarrow> False);
          t = (if neg then tl s else s);
          ds = takeWhile is_digit t; t1 = dropWhile is_digit t;
          fs = (case t1 of c # r \<Rightarrow> if c = CHR ''.'' then takeWhile is_digit r else [] | [] \<Rightarrow> []);
          t2 = (case t1 of c # r \<Rightarrow> if c = CHR ''.'' then dropWhile is_digit r else t1 | [] \<Rightarrow> []);
          e = (case t2 of c # r \<Rightarrow>
                 if c = CHR ''e'' \<or> c = CHR ''E''
                 then (case strtol_parts r of (n, v) \<Rightarrow> if n then - int v else int v) else 0
               | [] \<Rightarrow> 0)
      in (neg, digits_value (ds @ fs), e - int (length fs)))"

definition strtod :: "string \<Rightarrow> dbl \<times> bool" where
  "strtod s =
     (case strtod_parts s of (neg, m, e) \<Rightarrow>
      case scale_ratio 10 m 1 (- e) of (p, q) \<Rightarrow>
        let r = dbl_round neg p q in
        (r, (case r of DFin _ k f \<Rightarrow> k < 2 ^ 52 \<and> k * q \<noteq> p * 2 ^ nat (- f)
             | _ \<Rightarrow> True)))"

text \<open>The largest \<open>x\<close> with \<open>10 ^ x \<le> n / d\<close>, for positive \<open>n\<close> and \<open>d\<close>.\<close>

definition floor_log10 :: "nat \<Rightarrow> nat \<Rightarrow> int" where
  "floor_log10 n d =
     (if d \<le> n then int (length (show_nat (n div d))) - 1
      else let c = (d + n - 1) div n; k = length (show_nat c)
           in if c = 10 ^ (k - 1) then 1 - int k else - int k)"

definition strip_zeros :: "string \<Rightarrow> string" where
  "strip_zeros ds = rev (dropWhile (\<lambda>c. c = CHR ''0'') (rev ds))"

definition with_fraction :: "string \<Rightarrow> string \<Rightarrow> string" where
  "with_fraction a f = (let f' = strip_zeros f in if f' = [] then a else a @ CHR ''.'' # f')"

definition show_exponent :: "int \<Rightarrow> string" where
  "show_exponent x =
     (let a = show_nat (nat \<bar>x\<bar>)
      in (if x < 0 then CHR ''-'' else CHR ''+'') # (if length a < 2 then CHR ''0'' # a else a))"

text \<open>\<open>%.17g\<close> of a finite value: 17 significant digits, trailing zeros dropped.\<close>

fun show_g17 :: "dbl \<Rightarrow> string" where
  "show_g17 (DFin neg m e) =
     (if neg then ''-'' else []) @
     (if m = 0 then ''0''
      else case scale_ratio 2 m 1 (- e) of (n, d) \<Rightarrow>
        let x = floor_log10 n d;
            r = (case scale_ratio 10 n d (x - 16) of (n', d') \<Rightarrow> round_half_even n' d');
            (ds, x') = (if r = 10 ^ 17 then (show_nat (10 ^ 16), x + 1) else (show_nat r, x))
        in if x' < - 4 \<or> 17 \<le> x'
           then with_fraction (take 1 ds) (drop 1 ds) @ CHR ''e'' # show_exponent x'
           else if 0 \<le> x'
           then with_fraction (take (nat x' + 1) ds) (drop (nat x' + 1) ds)
           else with_fraction ''0'' (replicate (nat (- x') - 1) CHR ''0'' @ ds))"
| "show_g17 (DInf neg) = (if neg then ''-inf'' else ''inf'')"
| "show_g17 DNaN = ''nan''"

fun dbl_finite :: "dbl \<Rightarrow> bool" where
  "dbl_finite (DFin _ _ _) = True"
| "dbl_finite _ = False"

section \<open>Integers convert exactly up to 53 bits\<close>

lemma ilog2_bounds: "0 < n \<Longrightarrow> 2 ^ ilog2 n \<le> n \<and> n < 2 ^ Suc (ilog2 n)"
proof (induction n rule: ilog2.induct)
  case (1 n)
  show ?case
  proof (cases "n < 2")
    case True
    with "1.prems" show ?thesis by (simp add: ilog2.simps)
  next
    case False
    then have "2 ^ ilog2 (n div 2) \<le> n div 2 \<and> n div 2 < 2 ^ Suc (ilog2 (n div 2))"
      using "1.IH" by simp
    with False show ?thesis by (subst (1 2) ilog2.simps) auto
  qed
qed

lemma ilog2_1 [simp]: "ilog2 (Suc 0) = 0"
  by (simp add: ilog2.simps)

lemma round_half_even_1 [simp]: "round_half_even n (Suc 0) = n"
  by (simp add: round_half_even_def Let_def)

lemma floor_log2_nat: "0 < n \<Longrightarrow> floor_log2 n (Suc 0) = int (ilog2 n)"
  using ilog2_bounds [of n] by (simp add: floor_log2_def scale_ratio_def)

lemma dbl_round_small:
  assumes "0 < n" "n < 2 ^ 53"
  shows "dbl_round neg n (Suc 0) = DFin neg (n * 2 ^ (52 - ilog2 n)) (int (ilog2 n) - 52)"
proof -
  let ?l = "ilog2 n"
  from ilog2_bounds [OF assms(1)] have b: "2 ^ ?l \<le> n" "n < 2 ^ Suc ?l" by auto
  with assms(2) have "2 ^ ?l < (2::nat) ^ 53" by linarith
  then have l: "?l \<le> 52" using power_less_imp_less_exp [of "2::nat" ?l 53] by simp
  have "n * 2 ^ (52 - ?l) < 2 ^ Suc ?l * 2 ^ (52 - ?l)" using b by simp
  also have "\<dots> = 2 ^ 53" using l by (simp flip: power_add)
  finally have lt: "n * 2 ^ (52 - ?l) < 2 ^ 53" .
  have "nat (52 - int ?l) = 52 - ?l" by simp
  then show ?thesis
    using assms lt l
    by (cases "?l = 52")
       (simp_all add: dbl_round_def floor_log2_nat scale_ratio_def Let_def max_def)
qed

lemma dbl_units_of_int:
  assumes "\<bar>i\<bar> < 2 ^ 53"
  shows "dbl_units (dbl_of_int i) = i * 2 ^ unit_exp"
proof (cases "i = 0")
  case True
  then show ?thesis by (simp add: dbl_of_int_def dbl_round_def)
next
  case False
  let ?n = "nat \<bar>i\<bar>" let ?l = "ilog2 ?n"
  from False assms have n: "0 < ?n" "?n < 2 ^ 53" by (auto simp: nat_less_iff)
  from ilog2_bounds [OF n(1)] n(2) have "2 ^ ?l < (2::nat) ^ 53" by linarith
  then have l: "?l \<le> 52" using power_less_imp_less_exp [of "2::nat" ?l 53] by simp
  then have "(52 - ?l) + nat (int ?l - 52 + int unit_exp) = unit_exp"
    by (simp add: unit_exp_def)
  then have "(2::int) ^ (52 - ?l) * 2 ^ nat (int ?l - 52 + int unit_exp) = 2 ^ unit_exp"
    by (metis power_add)
  then show ?thesis
    using False by (simp add: dbl_of_int_def dbl_round_small [OF n] mult.assoc)
qed

lemma dbl_of_int_finite: "\<bar>i\<bar> < 2 ^ 53 \<Longrightarrow> \<exists>m e. dbl_of_int i = DFin (i < 0) m e"
  using dbl_round_small [of "nat \<bar>i\<bar>" "i < 0"]
  by (cases "i = 0") (auto simp: dbl_of_int_def dbl_round_def nat_less_iff)

lemma dbl_compare_of_int:
  assumes "\<bar>i\<bar> < 2 ^ 53" "\<bar>j\<bar> < 2 ^ 53"
  shows "dbl_eq (dbl_of_int i) (dbl_of_int j) \<longleftrightarrow> i = j"
    and "dbl_less (dbl_of_int i) (dbl_of_int j) \<longleftrightarrow> i < j"
proof -
  obtain m e where i: "dbl_of_int i = DFin (i < 0) m e"
    using dbl_of_int_finite [OF assms(1)] by blast
  obtain n f where j: "dbl_of_int j = DFin (j < 0) n f"
    using dbl_of_int_finite [OF assms(2)] by blast
  have u: "dbl_units (DFin (i < 0) m e) = i * 2 ^ unit_exp"
    "dbl_units (DFin (j < 0) n f) = j * 2 ^ unit_exp"
    using dbl_units_of_int [OF assms(1)] dbl_units_of_int [OF assms(2)] i j by simp_all
  show "dbl_eq (dbl_of_int i) (dbl_of_int j) \<longleftrightarrow> i = j"
    "dbl_less (dbl_of_int i) (dbl_of_int j) \<longleftrightarrow> i < j"
    unfolding i j dbl_eq.simps(1) dbl_less.simps(1) u by simp_all
qed

end
