(* ===== verification/Json_Value.thy ===== *)
theory Json_Value
  imports Ieee_Double
begin

text \<open>
  \<open>source/json11.cpp\<close> and \<open>include/json11.hpp\<close>, the values: the \<open>JsonValue\<close> class
  hierarchy as a datatype (one constructor per final class), its type tags with the order of
  the enumeration, the accessors and their defaults, \<open>operator==\<close> and \<open>operator<\<close>, the
  serializer \<open>dump\<close> and \<open>has_shape\<close>. An object is its \<open>std::map\<close>: the list of members in
  key order. The end states what a well-formed value is and how deep it is nested. The rest of
  the header is in \<open>Json_Api\<close>, with the laws of the comparisons.
\<close>

section \<open>Types and values\<close>

datatype json_type = NUL | NUMBER | BOOL | STRING | ARRAY | OBJECT

fun type_rank :: "json_type \<Rightarrow> nat" where
  "type_rank NUL = 0"
| "type_rank NUMBER = 1"
| "type_rank BOOL = 2"
| "type_rank STRING = 3"
| "type_rank ARRAY = 4"
| "type_rank OBJECT = 5"

lemma type_rank_inj: "type_rank a = type_rank b \<Longrightarrow> a = b"
  by (cases a; cases b) auto

instantiation json_type :: linorder
begin

definition less_json_type :: "json_type \<Rightarrow> json_type \<Rightarrow> bool" where
  "less_json_type a b \<longleftrightarrow> type_rank a < type_rank b"

definition less_eq_json_type :: "json_type \<Rightarrow> json_type \<Rightarrow> bool" where
  "less_eq_json_type a b \<longleftrightarrow> type_rank a \<le> type_rank b"

instance
  by intro_classes (auto simp: less_json_type_def less_eq_json_type_def dest: type_rank_inj)

end

text \<open>A 64-bit payload is its bit pattern; \<open>JsonInt64\<close> reads it as signed.\<close>

datatype json =
    JsonNull
  | JsonDouble dbl
  | JsonInt64 u64
  | JsonUInt64 u64
  | JsonBoolean bool
  | JsonString string
  | JsonArray "json list"
  | JsonObject "(string \<times> json) list"

fun json_tag :: "json \<Rightarrow> json_type" where
  "json_tag JsonNull = NUL"
| "json_tag (JsonDouble d) = NUMBER"
| "json_tag (JsonInt64 w) = NUMBER"
| "json_tag (JsonUInt64 w) = NUMBER"
| "json_tag (JsonBoolean b) = BOOL"
| "json_tag (JsonString s) = STRING"
| "json_tag (JsonArray vs) = ARRAY"
| "json_tag (JsonObject ms) = OBJECT"

section \<open>Accessors\<close>

fun number_value :: "json \<Rightarrow> dbl" where
  "number_value (JsonDouble d) = d"
| "number_value (JsonInt64 w) = dbl_of_int (sint w)"
| "number_value (JsonUInt64 w) = dbl_of_int (uint w)"
| "number_value _ = dbl_of_int 0"

text \<open>The integer views; no value when the cast of a \<open>double\<close> is undefined.\<close>

fun int64_value :: "json \<Rightarrow> u64 option" where
  "int64_value (JsonDouble d) = dbl_to_i64 d"
| "int64_value (JsonInt64 w) = Some w"
| "int64_value (JsonUInt64 w) = Some w"
| "int64_value _ = Some 0"

fun uint64_value :: "json \<Rightarrow> u64 option" where
  "uint64_value (JsonDouble d) = dbl_to_u64 d"
| "uint64_value (JsonInt64 w) = Some w"
| "uint64_value (JsonUInt64 w) = Some w"
| "uint64_value _ = Some 0"

fun bool_value :: "json \<Rightarrow> bool" where
  "bool_value (JsonBoolean b) = b"
| "bool_value _ = False"

fun string_value :: "json \<Rightarrow> string" where
  "string_value (JsonString s) = s"
| "string_value _ = []"

fun array_items :: "json \<Rightarrow> json list" where
  "array_items (JsonArray vs) = vs"
| "array_items _ = []"

fun object_items :: "json \<Rightarrow> (string \<times> json) list" where
  "object_items (JsonObject ms) = ms"
| "object_items _ = []"

fun at_index :: "json \<Rightarrow> nat \<Rightarrow> json" where
  "at_index (JsonArray vs) i = (if length vs \<le> i then JsonNull else vs ! i)"
| "at_index _ i = JsonNull"

fun at_key :: "json \<Rightarrow> string \<Rightarrow> json" where
  "at_key (JsonObject ms) k = (case map_of ms k of None \<Rightarrow> JsonNull | Some v \<Rightarrow> v)"
| "at_key _ k = JsonNull"

section \<open>Serialization\<close>

definition hex_digit :: "nat \<Rightarrow> char" where
  "hex_digit d = (if d < 10 then char_of (48 + d) else char_of (87 + d))"

definition hex4 :: "nat \<Rightarrow> string" where
  "hex4 n = [hex_digit (n div 4096 mod 16), hex_digit (n div 256 mod 16),
             hex_digit (n div 16 mod 16), hex_digit (n mod 16)]"

fun dump_chars :: "string \<Rightarrow> string" where
  "dump_chars [] = []"
| "dump_chars (ch # cs) =
     (if ch = BSLASH then [BSLASH, BSLASH] @ dump_chars cs
      else if ch = QUOTE then [BSLASH, QUOTE] @ dump_chars cs
      else if ch = CHR 0x08 then [BSLASH, CHR ''b''] @ dump_chars cs
      else if ch = CHR 0x0C then [BSLASH, CHR ''f''] @ dump_chars cs
      else if ch = LF then [BSLASH, CHR ''n''] @ dump_chars cs
      else if ch = CR then [BSLASH, CHR ''r''] @ dump_chars cs
      else if ch = TAB then [BSLASH, CHR ''t''] @ dump_chars cs
      else if byte ch \<le> 0x1f then BSLASH # CHR ''u'' # hex4 (byte ch) @ dump_chars cs
      else if byte ch = 0xe2 \<and> byte (char_at cs 0) = 0x80 \<and> byte (char_at cs 1) = 0xa8
      then BSLASH # ''u2028'' @ dump_chars (drop 2 cs)
      else if byte ch = 0xe2 \<and> byte (char_at cs 0) = 0x80 \<and> byte (char_at cs 1) = 0xa9
      then BSLASH # ''u2029'' @ dump_chars (drop 2 cs)
      else ch # dump_chars cs)"

definition dump_string :: "string \<Rightarrow> string" where
  "dump_string s = QUOTE # dump_chars s @ [QUOTE]"

definition dump_double :: "dbl \<Rightarrow> string" where
  "dump_double d = (if dbl_finite d then show_g17 d else ''null'')"

function (sequential) dump :: "json \<Rightarrow> string"
  and dump_items :: "bool \<Rightarrow> json list \<Rightarrow> string"
  and dump_members :: "bool \<Rightarrow> (string \<times> json) list \<Rightarrow> string" where
  "dump JsonNull = ''null''"
| "dump (JsonDouble d) = dump_double d"
| "dump (JsonInt64 w) = show_int (sint w)"
| "dump (JsonUInt64 w) = show_int (uint w)"
| "dump (JsonBoolean b) = (if b then ''true'' else ''false'')"
| "dump (JsonString s) = dump_string s"
| "dump (JsonArray vs) = CHR ''['' # dump_items True vs @ '']''"
| "dump (JsonObject ms) = CHR ''{'' # dump_members True ms @ ''}''"
| "dump_items first [] = []"
| "dump_items first (v # vs) = (if first then [] else '', '') @ dump v @ dump_items False vs"
| "dump_members first [] = []"
| "dump_members first ((k, v) # ms) =
     (if first then [] else '', '') @ dump_string k @ '': '' @ dump v @ dump_members False ms"
  by pat_completeness auto
termination
  by (relation "measure (\<lambda>x. case x of Inl j \<Rightarrow> size j
        | Inr (Inl (f, vs)) \<Rightarrow> size_list size vs
        | Inr (Inr (f, ms)) \<Rightarrow> size_list (size_prod (\<lambda>_. 0) size) ms)") auto

section \<open>Comparison\<close>

text \<open>
  \<open>std::vector\<close> and \<open>std::map\<close> compare element by element; the members of a map are pairs.
\<close>

function (sequential) json_eq :: "json \<Rightarrow> json \<Rightarrow> bool"
  and items_eq :: "json list \<Rightarrow> json list \<Rightarrow> bool"
  and members_eq :: "(string \<times> json) list \<Rightarrow> (string \<times> json) list \<Rightarrow> bool" where
  "json_eq a b =
     (if json_tag a \<noteq> json_tag b then False
      else case a of
        JsonNull \<Rightarrow> True
      | JsonDouble d \<Rightarrow> dbl_eq d (number_value b)
      | JsonInt64 w \<Rightarrow> dbl_eq (dbl_of_int (sint w)) (number_value b)
      | JsonUInt64 w \<Rightarrow> dbl_eq (dbl_of_int (uint w)) (number_value b)
      | JsonBoolean v \<Rightarrow> v = bool_value b
      | JsonString s \<Rightarrow> s = string_value b
      | JsonArray vs \<Rightarrow> items_eq vs (array_items b)
      | JsonObject ms \<Rightarrow> members_eq ms (object_items b))"
| "items_eq [] [] \<longleftrightarrow> True"
| "items_eq (v # vs) (w # ws) \<longleftrightarrow> json_eq v w \<and> items_eq vs ws"
| "items_eq _ _ \<longleftrightarrow> False"
| "members_eq [] [] \<longleftrightarrow> True"
| "members_eq ((k, v) # ms) ((l, w) # ns) \<longleftrightarrow> (k = l \<and> json_eq v w) \<and> members_eq ms ns"
| "members_eq _ _ \<longleftrightarrow> False"
  by pat_completeness auto
termination
  by (relation "measure (\<lambda>x. case x of Inl (a, b) \<Rightarrow> size (a :: json)
        | Inr (Inl (vs, ws)) \<Rightarrow> size_list size vs
        | Inr (Inr (ms, ns)) \<Rightarrow> size_list (size_prod (\<lambda>_. 0) size) ms)") auto

function (sequential) json_less :: "json \<Rightarrow> json \<Rightarrow> bool"
  and items_less :: "json list \<Rightarrow> json list \<Rightarrow> bool"
  and members_less :: "(string \<times> json) list \<Rightarrow> (string \<times> json) list \<Rightarrow> bool" where
  "json_less a b =
     (if json_tag a \<noteq> json_tag b then json_tag a < json_tag b
      else case a of
        JsonNull \<Rightarrow> False
      | JsonDouble d \<Rightarrow> dbl_less d (number_value b)
      | JsonInt64 w \<Rightarrow> dbl_less (dbl_of_int (sint w)) (number_value b)
      | JsonUInt64 w \<Rightarrow> dbl_less (dbl_of_int (uint w)) (number_value b)
      | JsonBoolean v \<Rightarrow> \<not> v \<and> bool_value b
      | JsonString s \<Rightarrow> s < string_value b
      | JsonArray vs \<Rightarrow> (case b of JsonArray ws \<Rightarrow> items_less vs ws | _ \<Rightarrow> False)
      | JsonObject ms \<Rightarrow> (case b of JsonObject ns \<Rightarrow> members_less ms ns | _ \<Rightarrow> False))"
| "items_less _ [] \<longleftrightarrow> False"
| "items_less [] (w # ws) \<longleftrightarrow> True"
| "items_less (v # vs) (w # ws) =
     (if json_less v w then True else if json_less w v then False else items_less vs ws)"
| "members_less _ [] \<longleftrightarrow> False"
| "members_less [] (n # ns) \<longleftrightarrow> True"
| "members_less ((k, v) # ms) ((l, w) # ns) =
     (if k < l \<or> \<not> l < k \<and> json_less v w then True
      else if l < k \<or> \<not> k < l \<and> json_less w v then False
      else members_less ms ns)"
  by pat_completeness auto
termination
  by (relation "measure (\<lambda>x. case x of Inl (a, b) \<Rightarrow> size a + size b
        | Inr (Inl (vs, ws)) \<Rightarrow> size_list size vs + size_list size ws
        | Inr (Inr (ms, ns)) \<Rightarrow> size_list (size_prod (\<lambda>_. 0) size) ms
            + size_list (size_prod (\<lambda>_. 0) size) ns)") auto

section \<open>Shape checking\<close>

text \<open>The result and, when it is false, the message left in \<open>err\<close>.\<close>

fun first_bad_type :: "json \<Rightarrow> (string \<times> json_type) list \<Rightarrow> string option" where
  "first_bad_type j [] = None"
| "first_bad_type j ((k, t) # ts) =
     (if json_tag (at_key j k) \<noteq> t then Some k else first_bad_type j ts)"

definition has_shape :: "json \<Rightarrow> (string \<times> json_type) list \<Rightarrow> bool \<times> string option" where
  "has_shape j types =
     (if json_tag j \<noteq> OBJECT then (False, Some (''expected JSON object, got '' @ dump j))
      else case first_bad_type j types of
        None \<Rightarrow> (True, None)
      | Some k \<Rightarrow> (False, Some (''bad type for '' @ k @ '' in '' @ dump j)))"

section \<open>Well-formed values and their nesting\<close>

declare json_eq.simps [simp del] json_less.simps [simp del]

lemma size_json_elem [termination_simp]:
  "(v :: json) \<in> set vs \<Longrightarrow> size v < Suc (size_list size vs)"
  by (induction vs) auto

lemma size_json_member [termination_simp]:
  "(m :: string \<times> json) \<in> set ms \<Longrightarrow> size (snd m) < Suc (size_list (size_prod (\<lambda>_. 0) size) ms)"
  by (induction ms) auto

text \<open>Every object is a real \<open>std::map\<close>: keys strictly ascending.\<close>

fun json_wf :: "json \<Rightarrow> bool" where
  "json_wf (JsonArray vs) \<longleftrightarrow> (\<forall>v \<in> set vs. json_wf v)"
| "json_wf (JsonObject ms) \<longleftrightarrow> sorted_keys ms \<and> (\<forall>m \<in> set ms. json_wf (snd m))"
| "json_wf _ \<longleftrightarrow> True"

text \<open>How deep arrays and objects are nested; a scalar has height 0.\<close>

fun json_height :: "json \<Rightarrow> nat" where
  "json_height (JsonArray vs) = Suc (foldr max (map json_height vs) 0)"
| "json_height (JsonObject ms) = Suc (foldr max (map (\<lambda>m. json_height (snd m)) ms) 0)"
| "json_height _ = 0"

lemma foldr_max_le_iff: "foldr max xs 0 \<le> (n::nat) \<longleftrightarrow> (\<forall>x \<in> set xs. x \<le> n)"
  by (induction xs) auto

lemma json_height_le_Suc_iff:
  "json_height (JsonArray vs) \<le> Suc n \<longleftrightarrow> (\<forall>v \<in> set vs. json_height v \<le> n)"
  "json_height (JsonObject ms) \<le> Suc n \<longleftrightarrow> (\<forall>m \<in> set ms. json_height (snd m) \<le> n)"
  by (auto simp: foldr_max_le_iff)

end
