(* ===== verification/Json_Parser.thy ===== *)
theory Json_Parser
  imports Json_Value
begin

text \<open>
  \<open>source/json11.cpp\<close>, the parser: \<open>struct JsonParser\<close> as a record of its mutable fields
  (position, error, failure flag) plus the thread's \<open>errno\<close>, which the number conversion
  reads; its member functions in the order of the source; \<open>Json::parse\<close> and
  \<open>Json::parse_multi\<close>. The input and the strategy do not change and are arguments.
  \<open>parse_json\<close> takes fuel for the nesting and its two \<open>while (1)\<close> loops for their
  iterations; \<open>Json_Parser_Facts\<close> shows that \<open>max_depth + 2\<close> and \<open>size + 2\<close> always suffice.
\<close>

section \<open>State and failure\<close>

datatype json_strategy = STANDARD | COMMENTS

record parser =
  pos :: nat              \<comment> \<open>\<open>i\<close>\<close>
  err :: string
  failed :: bool
  erange :: bool          \<comment> \<open>\<open>errno == ERANGE\<close> in this thread\<close>

definition fail :: "string \<Rightarrow> parser \<Rightarrow> parser" where
  "fail msg p = (if failed p then p else p\<lparr>err := msg\<rparr>)\<lparr>failed := True\<rparr>"

definition esc :: "char \<Rightarrow> string" where
  "esc c =
     (if 0x20 \<le> byte c \<and> byte c \<le> 0x7f
      then CHR 0x27 # c # CHR 0x27 # '' ('' @ show_int (schar c) @ '')''
      else CHR ''('' # show_int (schar c) @ '')'')"

definition in_range :: "int \<Rightarrow> int \<Rightarrow> int \<Rightarrow> bool" where
  "in_range x lower upper \<longleftrightarrow> lower \<le> x \<and> x \<le> upper"

section \<open>Whitespace and comments\<close>

definition is_json_space :: "char \<Rightarrow> bool" where
  "is_json_space c \<longleftrightarrow> c = CHR '' '' \<or> c = CR \<or> c = LF \<or> c = TAB"

function skip_space :: "string \<Rightarrow> nat \<Rightarrow> nat" where
  "skip_space str i = (if is_json_space (char_at str i) then skip_space str (i + 1) else i)"
  by pat_completeness auto
termination
  by (relation "measure (\<lambda>(str, i). length str - i)")
     (auto simp: is_json_space_def char_at_def split: if_splits)

declare skip_space.simps [simp del]

definition consume_whitespace :: "string \<Rightarrow> parser \<Rightarrow> parser" where
  "consume_whitespace str p = p\<lparr>pos := skip_space str (pos p)\<rparr>"

text \<open>
  The two inner loops of \<open>consume_comment\<close>: the position where the loop stops and whether it
  stopped at the terminator (otherwise at the end of the input). Both are entered with the
  position inside the input, so \<open>size \<le> i + 1\<close> is the source's \<open>i + 1 == size\<close>.
\<close>

function line_comment :: "string \<Rightarrow> nat \<Rightarrow> bool \<times> nat" where
  "line_comment str i =
     (if char_at str i = LF then (True, i)
      else if length str \<le> i + 1 then (False, i + 1)
      else line_comment str (i + 1))"
  by pat_completeness auto
termination
  by (relation "measure (\<lambda>(str, i). length str - i)") auto

function block_comment :: "string \<Rightarrow> nat \<Rightarrow> bool \<times> nat" where
  "block_comment str i =
     (if char_at str i = CHR ''*'' \<and> char_at str (i + 1) = CHR ''/'' then (True, i)
      else if length str - 2 < i + 1 then (False, i + 1)
      else block_comment str (i + 1))"
  by pat_completeness auto
termination
  by (relation "measure (\<lambda>(str, i). length str - i)") auto

declare line_comment.simps [simp del] block_comment.simps [simp del]

definition consume_comment :: "string \<Rightarrow> parser \<Rightarrow> bool \<times> parser" where
  "consume_comment str p =
     (if char_at str (pos p) = CHR ''/'' then
        let p1 = p\<lparr>pos := pos p + 1\<rparr> in
        if pos p1 = length str
        then (False, fail ''unexpected end of input inside comment'' p1)
        else if char_at str (pos p1) = CHR ''/'' then
          let p2 = p1\<lparr>pos := pos p1 + 1\<rparr> in
          if pos p2 = length str
          then (False, fail ''unexpected end of input inside inline comment'' p2)
          else case line_comment str (pos p2) of
              (True, j) \<Rightarrow> (True, p2\<lparr>pos := j\<rparr>)
            | (False, j) \<Rightarrow>
                (False, fail ''unexpected end of input inside inline comment'' (p2\<lparr>pos := j\<rparr>))
        else if char_at str (pos p1) = CHR ''*'' then
          let p2 = p1\<lparr>pos := pos p1 + 1\<rparr> in
          if length str - 2 < pos p2
          then (False, fail ''unexpected end of input inside multi-line comment'' p2)
          else case block_comment str (pos p2) of
              (False, j) \<Rightarrow>
                (False, fail ''unexpected end of input inside multi-line comment'' (p2\<lparr>pos := j\<rparr>))
            | (True, j) \<Rightarrow>
                (let p3 = p2\<lparr>pos := j + 2\<rparr> in
                 if pos p3 = length str
                 then (False, fail ''unexpected end of input inside multi-line comment'' p3)
                 else (True, p3))
        else (False, fail ''malformed comment'' p1)
      else (False, p))"

lemma skip_space_le: "i \<le> skip_space str i"
proof (induction str i rule: skip_space.induct)
  case (1 str i)
  then show ?case by (subst skip_space.simps) auto
qed

lemma line_comment_ge: "line_comment str i = (b, j) \<Longrightarrow> i \<le> j"
proof (induction str i arbitrary: b j rule: line_comment.induct)
  case (1 str i)
  then show ?case by (subst (asm) (2) line_comment.simps) (fastforce split: if_splits)
qed

lemma block_comment_ge: "block_comment str i = (b, j) \<Longrightarrow> i \<le> j"
proof (induction str i arbitrary: b j rule: block_comment.induct)
  case (1 str i)
  then show ?case by (subst (asm) (2) block_comment.simps) (fastforce split: if_splits)
qed

text \<open>A comment that was found started inside the input and moved the position.\<close>

lemma consume_comment_progress:
  assumes "consume_comment str p = (True, q)"
  shows "pos p < pos q \<and> pos p < length str"
proof -
  from assms have "char_at str (pos p) = CHR ''/''"
    by (auto simp: consume_comment_def split: if_splits)
  then have "pos p < length str" by (auto simp: char_at_def split: if_splits)
  moreover from assms have "pos p < pos q"
    by (auto simp: consume_comment_def Let_def split: if_splits prod.splits bool.splits
        dest!: line_comment_ge block_comment_ge)
  ultimately show ?thesis by simp
qed

text \<open>The \<open>do ... while (comment_found)\<close> loop.\<close>

function comment_loop :: "string \<Rightarrow> parser \<Rightarrow> parser" where
  "comment_loop str p =
     (case consume_comment str p of (found, p1) \<Rightarrow>
        let p2 = consume_whitespace str p1 in if found then comment_loop str p2 else p2)"
  by pat_completeness auto
termination
proof (relation "measure (\<lambda>(str, p). length str - pos p)")
  fix str p found p1 p2
  assume a: "(found, p1) = consume_comment str p" "p2 = consume_whitespace str p1" and found
  then have "consume_comment str p = (True, p1)" by simp
  from consume_comment_progress [OF this] a
  show "((str, p2), str, p) \<in> measure (\<lambda>(str, p). length str - pos p)"
    using skip_space_le [of "pos p1" str] by (auto simp: consume_whitespace_def)
qed auto

declare comment_loop.simps [simp del]

definition consume_garbage :: "json_strategy \<Rightarrow> string \<Rightarrow> parser \<Rightarrow> parser" where
  "consume_garbage strategy str p =
     (let p1 = consume_whitespace str p
      in if strategy = COMMENTS then comment_loop str p1 else p1)"

definition get_next_token :: "json_strategy \<Rightarrow> string \<Rightarrow> parser \<Rightarrow> char \<times> parser" where
  "get_next_token strategy str p =
     (let p1 = consume_garbage strategy str p
      in if pos p1 = length str then (NULC, fail ''unexpected end of input'' p1)
         else (char_at str (pos p1), p1\<lparr>pos := pos p1 + 1\<rparr>))"

section \<open>Strings\<close>

definition encode_utf8 :: "int \<Rightarrow> string" where
  "encode_utf8 pt =
     (if pt < 0 then []
      else if pt < 0x80 then [char_of pt]
      else if pt < 0x800 then
        [char_of (drop_bit 6 pt OR 0xC0), char_of (pt AND 0x3F OR 0x80)]
      else if pt < 0x10000 then
        [char_of (drop_bit 12 pt OR 0xE0), char_of (drop_bit 6 pt AND 0x3F OR 0x80),
         char_of (pt AND 0x3F OR 0x80)]
      else
        [char_of (drop_bit 18 pt OR 0xF0), char_of (drop_bit 12 pt AND 0x3F OR 0x80),
         char_of (drop_bit 6 pt AND 0x3F OR 0x80), char_of (pt AND 0x3F OR 0x80)])"

definition simple_escape :: "char \<Rightarrow> char option" where
  "simple_escape ch =
     (if ch = CHR ''b'' then Some (CHR 0x08)
      else if ch = CHR ''f'' then Some (CHR 0x0C)
      else if ch = CHR ''n'' then Some LF
      else if ch = CHR ''r'' then Some CR
      else if ch = CHR ''t'' then Some TAB
      else if ch = QUOTE \<or> ch = BSLASH \<or> ch = CHR ''/'' then Some ch
      else None)"

text \<open>
  The body of the \<open>while (true)\<close> loop of \<open>parse_string\<close>, with its locals \<open>out\<close> and
  \<open>last_escaped_codepoint\<close>: it returns a string or goes round with new locals.
\<close>

datatype string_flow = StringDone string | StringNext string int

definition escape_step :: "string \<Rightarrow> string \<Rightarrow> int \<Rightarrow> parser \<Rightarrow> string_flow \<times> parser" where
  "escape_step str out cp p =
     (if pos p = length str
      then (StringDone [], fail ''unexpected end of input in string'' p)
      else
        let ch = char_at str (pos p); p1 = p\<lparr>pos := pos p + 1\<rparr> in
        if ch = CHR ''u'' then
          let es = take 4 (drop (pos p1) str) in
          if length es < 4 \<or> \<not> list_all is_xdigit es
          then (StringDone [], fail (''bad '' @ BSLASH # ''u escape: '' @ es) p1)
          else
            let codepoint = hex_value es; p2 = p1\<lparr>pos := pos p1 + 4\<rparr> in
            if in_range cp 0xD800 0xDBFF \<and> in_range codepoint 0xDC00 0xDFFF
            then (StringNext (out @ encode_utf8
                    ((push_bit 10 (cp - 0xD800) OR (codepoint - 0xDC00)) + 0x10000)) (- 1), p2)
            else (StringNext (out @ encode_utf8 cp) codepoint, p2)
        else
          case simple_escape ch of
            Some c \<Rightarrow> (StringNext (out @ encode_utf8 cp @ [c]) (- 1), p1)
          | None \<Rightarrow> (StringDone [], fail (''invalid escape character '' @ esc ch) p1))"

definition string_step :: "string \<Rightarrow> string \<Rightarrow> int \<Rightarrow> parser \<Rightarrow> string_flow \<times> parser" where
  "string_step str out cp p =
     (if pos p = length str
      then (StringDone [], fail ''unexpected end of input in string'' p)
      else
        let ch = char_at str (pos p); p1 = p\<lparr>pos := pos p + 1\<rparr> in
        if ch = QUOTE then (StringDone (out @ encode_utf8 cp), p1)
        else if in_range (schar ch) 0 0x1f
        then (StringDone [], fail (''unescaped '' @ esc ch @ '' in string'') p1)
        else if ch \<noteq> BSLASH then (StringNext (out @ encode_utf8 cp @ [ch]) (- 1), p1)
        else escape_step str out cp p1)"

lemma escape_step_next:
  "escape_step str out cp p = (StringNext out' cp', q) \<Longrightarrow> pos p < pos q"
  by (auto simp: escape_step_def Let_def split: if_splits option.splits)

lemma string_step_next:
  assumes "string_step str out cp p = (StringNext out' cp', q)"
  shows "pos p < pos q \<and> pos p < length str"
proof -
  from assms have "char_at str (pos p) \<noteq> NULC"
    by (auto simp: string_step_def in_range_def schar_def byte_def split: if_splits)
  moreover from assms have "pos p < pos q"
    by (auto simp: string_step_def Let_def split: if_splits dest!: escape_step_next)
  ultimately show ?thesis by (auto dest: char_at_nonnul_less)
qed

function parse_string_loop :: "string \<Rightarrow> string \<Rightarrow> int \<Rightarrow> parser \<Rightarrow> string \<times> parser" where
  "parse_string_loop str out cp p =
     (case string_step str out cp p of
        (StringDone s, q) \<Rightarrow> (s, q)
      | (StringNext out' cp', q) \<Rightarrow> parse_string_loop str out' cp' q)"
  by pat_completeness auto
termination
  by (relation "measure (\<lambda>(str, out, cp, p). length str - pos p)")
     (auto dest!: sym [of "(_, _)"] string_step_next)

declare parse_string_loop.simps [simp del]

definition parse_string :: "string \<Rightarrow> parser \<Rightarrow> string \<times> parser" where
  "parse_string str p = parse_string_loop str [] (- 1) p"

section \<open>Numbers and literals\<close>

function skip_digits :: "string \<Rightarrow> nat \<Rightarrow> nat" where
  "skip_digits str i = (if is_digit (char_at str i) then skip_digits str (i + 1) else i)"
  by pat_completeness auto
termination
  by (relation "measure (\<lambda>(str, i). length str - i)")
     (auto simp: is_digit_def char_at_def byte_def split: if_splits)

declare skip_digits.simps [simp del]

text \<open>
  Both digit limits of the source, \<open>ceil (63 * log10 (2) + 1)\<close> and \<open>ceil (64 * log10 (2))\<close>,
  are 20. \<open>errno\<close> is tested without having been reset: an \<open>ERANGE\<close> left by an earlier
  conversion of this thread diverts every integer to \<open>strtod\<close>.
\<close>

definition max_int_chars :: nat where "max_int_chars = 20"

definition frac_end :: "string \<Rightarrow> nat \<Rightarrow> nat" where
  "frac_end str i = (if char_at str i = CHR ''.'' then skip_digits str (i + 1) else i)"

definition is_exp :: "char \<Rightarrow> bool" where
  "is_exp c \<longleftrightarrow> c = CHR ''e'' \<or> c = CHR ''E''"

definition exp_start :: "string \<Rightarrow> nat \<Rightarrow> nat" where
  "exp_start str i =
     (if char_at str (i + 1) = CHR ''+'' \<or> char_at str (i + 1) = CHR ''-'' then i + 2 else i + 1)"

text \<open>\<open>parse_number\<close> from its decimal part on; \<open>start\<close> is \<open>start_pos\<close>.\<close>

definition parse_decimal :: "string \<Rightarrow> nat \<Rightarrow> parser \<Rightarrow> json \<times> parser" where
  "parse_decimal str start p =
     (let i1 = pos p; i2 = frac_end str i1; i3 = exp_start str i2
      in if char_at str i1 = CHR ''.'' \<and> \<not> is_digit (char_at str (i1 + 1))
         then (JsonNull,
               fail ''at least one digit required in fractional part'' (p\<lparr>pos := i1 + 1\<rparr>))
         else if is_exp (char_at str i2) \<and> \<not> is_digit (char_at str i3)
         then (JsonNull, fail ''at least one digit required in exponent'' (p\<lparr>pos := i3\<rparr>))
         else
           let i4 = (if is_exp (char_at str i2) then skip_digits str i3 else i2);
               (d, range) = strtod (c_str (drop start str))
           in (JsonDouble d, p\<lparr>pos := i4, erange := erange p \<or> range\<rparr>))"

definition sign_end :: "string \<Rightarrow> nat \<Rightarrow> nat" where
  "sign_end str i = (if char_at str i = CHR ''-'' then i + 1 else i)"

definition int_part_end :: "string \<Rightarrow> nat \<Rightarrow> nat" where
  "int_part_end str i = (if char_at str i = CHR ''0'' then i + 1 else skip_digits str (i + 1))"

text \<open>The integer conversions; no value when \<open>errno\<close> is \<open>ERANGE\<close> afterwards.\<close>

definition convert_int :: "string \<Rightarrow> nat \<Rightarrow> parser \<Rightarrow> json option \<times> parser" where
  "convert_int str start p =
     (let neg = (char_at str start = CHR ''-'');
          (w, range) = (if neg then atoll (c_str (drop start str))
                        else strtoull (c_str (drop start str)));
          p1 = p\<lparr>erange := erange p \<or> range\<rparr>
      in (if erange p1 then None else Some (if neg then JsonInt64 w else JsonUInt64 w), p1))"

definition parse_number :: "string \<Rightarrow> parser \<Rightarrow> json \<times> parser" where
  "parse_number str p =
     (let start = pos p; i0 = sign_end str start
      in if char_at str i0 = CHR ''0'' \<and> is_digit (char_at str (i0 + 1))
         then (JsonNull, fail ''leading 0s not permitted in numbers'' (p\<lparr>pos := i0 + 1\<rparr>))
         else if \<not> is_digit (char_at str i0)
         then (JsonNull, fail (''invalid '' @ esc (char_at str i0) @ '' in number'')
                 (p\<lparr>pos := i0\<rparr>))
         else
           let i1 = int_part_end str i0;
               p1 = p\<lparr>pos := i1\<rparr>;
               c = char_at str i1
           in if c \<noteq> CHR ''.'' \<and> c \<noteq> CHR ''e'' \<and> c \<noteq> CHR ''E'' \<and> i1 - start \<le> max_int_chars
              then (case convert_int str start p1 of
                      (Some v, p2) \<Rightarrow> (v, p2)
                    | (None, p2) \<Rightarrow> parse_decimal str start p2)
              else parse_decimal str start p1)"

definition expect :: "string \<Rightarrow> string \<Rightarrow> json \<Rightarrow> parser \<Rightarrow> json \<times> parser" where
  "expect str expected res p =
     (let p1 = p\<lparr>pos := pos p - 1\<rparr>; got = take (length expected) (drop (pos p1) str)
      in if got = expected then (res, p1\<lparr>pos := pos p1 + length expected\<rparr>)
         else (JsonNull, fail (''parse error: expected '' @ expected @ '', got '' @ got) p1))"

section \<open>Values\<close>

definition max_depth :: nat where "max_depth = 200"

text \<open>
  \<open>parse_json\<close> and its two \<open>while (1)\<close> loops, cut at the recursive calls: a piece of code
  either returns a value from \<open>parse_json\<close> or goes on with what the next piece needs.
  \<open>value_head\<close> is \<open>parse_json\<close> up to the loops, \<open>member_head\<close> and \<open>member_tail\<close> the body of
  the object loop before and after the call for the value, \<open>elem_tail\<close> the body of the array
  loop after that call.
\<close>

datatype 'a flow = Return json | Go 'a

datatype loop = ObjectLoop char | ArrayLoop

definition expected_got :: "char \<Rightarrow> string \<Rightarrow> char \<Rightarrow> string" where
  "expected_got c place ch =
     ''expected '' @ CHR 0x27 # c # CHR 0x27 # '' in '' @ place @ '', got '' @ esc ch"

definition value_head ::
  "json_strategy \<Rightarrow> string \<Rightarrow> nat \<Rightarrow> parser \<Rightarrow> loop flow \<times> parser" where
  "value_head strategy str depth p =
     (if max_depth < depth
      then (Return JsonNull, fail ''exceeded maximum nesting depth'' p)
      else
        let (ch, p1) = get_next_token strategy str p in
        if failed p1 then (Return JsonNull, p1)
        else if ch = CHR ''-'' \<or> is_digit ch
        then (case parse_number str (p1\<lparr>pos := pos p1 - 1\<rparr>) of (v, p2) \<Rightarrow> (Return v, p2))
        else if ch = CHR ''t''
        then (case expect str ''true'' (JsonBoolean True) p1 of (v, p2) \<Rightarrow> (Return v, p2))
        else if ch = CHR ''f''
        then (case expect str ''false'' (JsonBoolean False) p1 of (v, p2) \<Rightarrow> (Return v, p2))
        else if ch = CHR ''n''
        then (case expect str ''null'' JsonNull p1 of (v, p2) \<Rightarrow> (Return v, p2))
        else if ch = QUOTE
        then (case parse_string str p1 of (s, p2) \<Rightarrow> (Return (JsonString s), p2))
        else if ch = CHR ''{'' then
          let (ch2, p2) = get_next_token strategy str p1 in
          if ch2 = CHR ''}'' then (Return (JsonObject []), p2) else (Go (ObjectLoop ch2), p2)
        else if ch = CHR ''['' then
          let (ch2, p2) = get_next_token strategy str p1 in
          if ch2 = CHR '']'' then (Return (JsonArray []), p2) else (Go ArrayLoop, p2)
        else (Return JsonNull, fail (''expected value, got '' @ esc ch) p1))"

definition member_head ::
  "json_strategy \<Rightarrow> string \<Rightarrow> char \<Rightarrow> parser \<Rightarrow> string flow \<times> parser" where
  "member_head strategy str ch p =
     (if ch \<noteq> QUOTE
      then (Return JsonNull, fail (expected_got QUOTE ''object'' ch) p)
      else
        let (key, p1) = parse_string str p in
        if failed p1 then (Return JsonNull, p1)
        else
          let (ch2, p2) = get_next_token strategy str p1 in
          if ch2 \<noteq> CHR '':''
          then (Return JsonNull, fail (expected_got (CHR '':'') ''object'' ch2) p2)
          else (Go key, p2))"

definition member_tail ::
  "json_strategy \<Rightarrow> string \<Rightarrow> (string \<times> json) list \<Rightarrow> parser \<Rightarrow> char flow \<times> parser" where
  "member_tail strategy str data p =
     (if failed p then (Return JsonNull, p)
      else
        let (ch, p1) = get_next_token strategy str p in
        if ch = CHR ''}'' then (Return (JsonObject data), p1)
        else if ch \<noteq> CHR '',''
        then (Return JsonNull, fail (expected_got (CHR '','') ''object'' ch) p1)
        else (case get_next_token strategy str p1 of (ch2, p2) \<Rightarrow> (Go ch2, p2)))"

definition elem_tail ::
  "json_strategy \<Rightarrow> string \<Rightarrow> json list \<Rightarrow> parser \<Rightarrow> unit flow \<times> parser" where
  "elem_tail strategy str data p =
     (if failed p then (Return JsonNull, p)
      else
        let (ch, p1) = get_next_token strategy str p in
        if ch = CHR '']'' then (Return (JsonArray data), p1)
        else if ch \<noteq> CHR '',''
        then (Return JsonNull, fail (expected_got (CHR '','') ''list'' ch) p1)
        else (case get_next_token strategy str p1 of (ch2, p2) \<Rightarrow> (Go (), p2)))"

text \<open>
  Each loop takes the recursive call as the function \<open>value\<close> and fuel for its iterations,
  each of which consumes a character; \<open>parse_json\<close> takes fuel for the nesting.
\<close>

primrec parse_members :: "nat \<Rightarrow> (parser \<Rightarrow> (json \<times> parser) option) \<Rightarrow> json_strategy \<Rightarrow> string \<Rightarrow>
    char \<Rightarrow> (string \<times> json) list \<Rightarrow> parser \<Rightarrow> (json \<times> parser) option" where
  "parse_members 0 parse_value strategy str ch data p = None"
| "parse_members (Suc fuel) parse_value strategy str ch data p =
     (case member_head strategy str ch p of
        (Return v, q) \<Rightarrow> Some (v, q)
      | (Go key, q) \<Rightarrow>
          (case parse_value q of
             None \<Rightarrow> None
           | Some (v, q1) \<Rightarrow>
               (case member_tail strategy str (map_assign key v data) q1 of
                  (Return r, q2) \<Rightarrow> Some (r, q2)
                | (Go ch2, q2) \<Rightarrow>
                    parse_members fuel parse_value strategy str ch2 (map_assign key v data) q2)))"

primrec parse_elems :: "nat \<Rightarrow> (parser \<Rightarrow> (json \<times> parser) option) \<Rightarrow> json_strategy \<Rightarrow> string \<Rightarrow>
    json list \<Rightarrow> parser \<Rightarrow> (json \<times> parser) option" where
  "parse_elems 0 parse_value strategy str data p = None"
| "parse_elems (Suc fuel) parse_value strategy str data p =
     (case parse_value (p\<lparr>pos := pos p - 1\<rparr>) of
        None \<Rightarrow> None
      | Some (v, q1) \<Rightarrow>
          (case elem_tail strategy str (data @ [v]) q1 of
             (Return r, q2) \<Rightarrow> Some (r, q2)
           | (Go _, q2) \<Rightarrow> parse_elems fuel parse_value strategy str (data @ [v]) q2))"

definition loop_fuel :: "string \<Rightarrow> nat" where
  "loop_fuel str = length str + 2"

primrec parse_json :: "nat \<Rightarrow> json_strategy \<Rightarrow> string \<Rightarrow> nat \<Rightarrow> parser \<Rightarrow> (json \<times> parser) option" where
  "parse_json 0 strategy str depth p = None"
| "parse_json (Suc fuel) strategy str depth p =
     (case value_head strategy str depth p of
        (Return v, q) \<Rightarrow> Some (v, q)
      | (Go l, q) \<Rightarrow>
          (case l of
             ObjectLoop ch \<Rightarrow> parse_members (loop_fuel str)
               (parse_json fuel strategy str (depth + 1)) strategy str ch [] q
           | ArrayLoop \<Rightarrow> parse_elems (loop_fuel str)
               (parse_json fuel strategy str (depth + 1)) strategy str [] q))"

definition parse_fuel :: nat where
  "parse_fuel = max_depth + 2"

text \<open>
  \<open>Json::parse (in, err, strategy)\<close>: \<open>err0\<close> and \<open>errno0\<close> are the caller's \<open>err\<close> and the
  thread's \<open>errno\<close> on entry; the result carries both as they are on return.
\<close>

definition parse :: "json_strategy \<Rightarrow> string \<Rightarrow> string \<Rightarrow> bool \<Rightarrow> (json \<times> parser) option" where
  "parse strategy str err0 errno0 =
     (case parse_json parse_fuel strategy str 0
             \<lparr>pos = 0, err = err0, failed = False, erange = errno0\<rparr> of
        None \<Rightarrow> None
      | Some (result, p) \<Rightarrow>
          let p1 = consume_garbage strategy str p in
          if pos p1 \<noteq> length str
          then Some (JsonNull, fail (''unexpected trailing '' @ esc (char_at str (pos p1))) p1)
          else Some (result, p1))"

text \<open>The loop of \<open>parse_multi\<close>: the values, \<open>parser_stop_pos\<close> and the final state.\<close>

fun parse_multi_loop :: "nat \<Rightarrow> json_strategy \<Rightarrow> string \<Rightarrow> json list \<Rightarrow> nat \<Rightarrow> parser \<Rightarrow>
    (json list \<times> nat \<times> parser) option" where
  "parse_multi_loop 0 strategy str vec stop p = None"
| "parse_multi_loop (Suc fuel) strategy str vec stop p =
     (if pos p \<noteq> length str \<and> \<not> failed p then
        case parse_json parse_fuel strategy str 0 p of
          None \<Rightarrow> None
        | Some (v, p1) \<Rightarrow>
            let p2 = consume_garbage strategy str p1
            in parse_multi_loop fuel strategy str (vec @ [v]) (if failed p2 then stop else pos p2) p2
      else Some (vec, stop, p))"

definition parse_multi :: "json_strategy \<Rightarrow> string \<Rightarrow> string \<Rightarrow> bool \<Rightarrow>
    (json list \<times> nat \<times> parser) option" where
  "parse_multi strategy str err0 errno0 =
     parse_multi_loop (loop_fuel str) strategy str [] 0
       \<lparr>pos = 0, err = err0, failed = False, erange = errno0\<rparr>"

end
