(* ===== verification/Json_Parser_Facts.thy ===== *)
theory Json_Parser_Facts
  imports Json_Parser
begin

text \<open>
  What every member function of \<open>JsonParser\<close> promises, stated once as the interface
  \<open>parser_op\<close> and interpreted for each of them: the position stays inside the input and only
  advances, a failure is never cleared and keeps its first message, \<open>err\<close> changes exactly
  when the parse fails, \<open>errno\<close> is never reset. From it: \<open>Json::parse\<close> always returns
  (the fuel suffices), sets \<open>err\<close> exactly on failure, and yields objects with ordered keys
  nested at most \<open>max_depth + 1\<close> deep.
\<close>

section \<open>The contract of a parser operation\<close>

definition goes :: "string \<Rightarrow> parser \<Rightarrow> parser \<Rightarrow> bool" where
  "goes str p q \<longleftrightarrow>
     pos p \<le> pos q \<and> pos q \<le> length str \<and>
     (failed p \<longrightarrow> failed q) \<and>
     (failed p \<or> \<not> failed q \<longrightarrow> err q = err p) \<and>
     (\<not> failed p \<and> failed q \<longrightarrow> err q \<noteq> []) \<and>
     (erange p \<longrightarrow> erange q)"

lemma goes_refl: "pos p \<le> length str \<Longrightarrow> goes str p p"
  by (simp add: goes_def)

lemma goes_trans [trans]: "goes str p q \<Longrightarrow> goes str q r \<Longrightarrow> goes str p r"
  unfolding goes_def by (cases "failed q") auto

lemma goes_inside: "goes str p q \<Longrightarrow> pos q \<le> length str"
  by (simp add: goes_def)

lemma goes_failed: "goes str p q \<Longrightarrow> failed p \<Longrightarrow> failed q"
  by (simp add: goes_def)

lemma goes_pos: "pos p \<le> n \<Longrightarrow> n \<le> length str \<Longrightarrow> goes str p (p\<lparr>pos := n\<rparr>)"
  by (simp add: goes_def)

lemma goes_fail:
  "pos p \<le> n \<Longrightarrow> n \<le> length str \<Longrightarrow> msg \<noteq> [] \<Longrightarrow> goes str p (fail msg (p\<lparr>pos := n\<rparr>))"
  by (simp add: goes_def fail_def)

lemma goes_erange: "goes str p q \<Longrightarrow> goes str p (q\<lparr>erange := erange q \<or> b\<rparr>)"
  by (simp add: goes_def)

lemma goes_fail_here: "pos p \<le> length str \<Longrightarrow> msg \<noteq> [] \<Longrightarrow> goes str p (fail msg p)"
  by (simp add: goes_def fail_def)

lemma fail_simps [simp]:
  "failed (fail msg p)" "pos (fail msg p) = pos p" "erange (fail msg p) = erange p"
  by (simp_all add: fail_def)

lemma esc_nonempty [simp]: "esc c \<noteq> []"
  by (simp add: esc_def)

locale parser_op =
  fixes act :: "string \<Rightarrow> parser \<Rightarrow> 'a \<times> parser"
  assumes act_goes: "pos p \<le> length str \<Longrightarrow> act str p = (x, q) \<Longrightarrow> goes str p q"
begin

lemma act_then:
  assumes "goes str p q" "act str q = (x, r)"
  shows "goes str p r"
  using assms goes_trans act_goes goes_inside by blast

lemma act_quiet: "pos p \<le> length str \<Longrightarrow> act str p = (x, q) \<Longrightarrow> \<not> failed q \<Longrightarrow> \<not> failed p"
  using act_goes goes_failed by blast

lemma act_first_error:
  "pos p \<le> length str \<Longrightarrow> act str p = (x, q) \<Longrightarrow> failed p \<Longrightarrow> failed q \<and> err q = err p"
  using act_goes unfolding goes_def by blast

end

section \<open>Every member function keeps the contract\<close>

lemma skip_space_inside: "i \<le> length str \<Longrightarrow> skip_space str i \<le> length str"
proof (induction str i rule: skip_space.induct)
  case (1 str i)
  then show ?case
    by (subst skip_space.simps) (auto simp: is_json_space_def char_at_def split: if_splits)
qed

lemma skip_digits_bounds:
  "i \<le> length str \<Longrightarrow> i \<le> skip_digits str i \<and> skip_digits str i \<le> length str"
proof (induction str i rule: skip_digits.induct)
  case (1 str i)
  show ?case
  proof (cases "is_digit (char_at str i)")
    case True
    then have "char_at str i \<noteq> NULC" by (auto simp: is_digit_def byte_def)
    then have "i < length str" by (rule char_at_nonnul_less)
    with 1 True show ?thesis by (subst (1 2) skip_digits.simps) simp
  next
    case False
    with 1 show ?thesis by (subst (1 2) skip_digits.simps) simp
  qed
qed

interpretation whitespace: parser_op "\<lambda>str p. ((), consume_whitespace str p)"
  by unfold_locales (auto simp: consume_whitespace_def skip_space_le skip_space_inside intro: goes_pos)

lemma line_comment_inside:
  "line_comment str i = (b, j) \<Longrightarrow> i < length str \<Longrightarrow> i \<le> j \<and> j \<le> length str"
proof (induction str i arbitrary: b j rule: line_comment.induct)
  case (1 str i)
  then show ?case by (subst (asm) (2) line_comment.simps) (fastforce split: if_splits)
qed

lemma block_comment_inside:
  "block_comment str i = (b, j) \<Longrightarrow> i + 2 \<le> length str \<Longrightarrow>
   i \<le> j \<and> j \<le> length str \<and> (b \<longrightarrow> j + 2 \<le> length str)"
proof (induction str i arbitrary: b j rule: block_comment.induct)
  case (1 str i)
  then show ?case by (subst (asm) (2) block_comment.simps) (fastforce split: if_splits)
qed

lemma consume_comment_goes:
  assumes p: "pos p \<le> length str" and c: "consume_comment str p = (x, q)"
  shows "goes str p q"
proof -
  let ?i = "pos p"
  consider (none) "char_at str ?i \<noteq> CHR ''/''"
    | (short) "char_at str ?i = CHR ''/''" "?i + 1 = length str"
    | (two) "char_at str ?i = CHR ''/''" "?i + 1 < length str"
    using p by (fastforce simp: char_at_def split: if_splits)
  then show ?thesis
  proof cases
    case none
    with c p show ?thesis by (auto simp: consume_comment_def goes_refl)
  next
    case short
    with c p show ?thesis by (auto simp: consume_comment_def Let_def intro!: goes_fail)
  next
    case two
    have line: "?i + 2 \<le> j \<and> j \<le> length str"
      if "line_comment str (?i + 2) = (b, j)" "?i + 2 \<noteq> length str" for b j
      using line_comment_inside [OF that(1)] that(2) two by simp
    have block: "?i + 2 \<le> j \<and> j \<le> length str \<and> (b \<longrightarrow> j + 2 \<le> length str)"
      if "block_comment str (?i + 2) = (b, j)" "\<not> length str - 2 < ?i + 2" for b j
      using block_comment_inside [OF that(1)] that(2) two by simp
    from c two show ?thesis
      by (auto simp: consume_comment_def Let_def intro!: goes_fail goes_pos
          split: if_splits prod.splits bool.splits dest: line [simplified] block [simplified])
  qed
qed

interpretation comment: parser_op consume_comment
  by unfold_locales (rule consume_comment_goes)

lemma comment_loop_goes: "pos p \<le> length str \<Longrightarrow> goes str p (comment_loop str p)"
proof (induction str p rule: comment_loop.induct)
  case (1 str p)
  obtain x q where c: "consume_comment str p = (x, q)" by fastforce
  with "1.prems" have "goes str p q" by (rule consume_comment_goes)
  then have g: "goes str p (consume_whitespace str q)" by (rule whitespace.act_then) simp
  show ?case
  proof (cases x)
    case True
    with "1.IH" [OF c [symmetric] refl] g have "goes str (consume_whitespace str q)
        (comment_loop str (consume_whitespace str q))" by (auto dest: goes_inside)
    with g c True show ?thesis by (subst comment_loop.simps) (auto intro: goes_trans)
  next
    case False
    with g c show ?thesis by (subst comment_loop.simps) simp
  qed
qed

interpretation garbage: parser_op "\<lambda>str p. ((), consume_garbage strategy str p)" for strategy
proof unfold_locales
  fix str p x q
  assume p: "pos p \<le> length str" and c: "((), consume_garbage strategy str p) = (x, q)"
  have g: "goes str p (consume_whitespace str p)" using p by (rule whitespace.act_goes) simp
  then show "goes str p q"
    using c comment_loop_goes [of "consume_whitespace str p" str]
    by (auto simp: consume_garbage_def Let_def intro: goes_trans dest: goes_inside split: if_splits)
qed

interpretation token: parser_op "get_next_token strategy" for strategy
proof unfold_locales
  fix str p x q
  assume p: "pos p \<le> length str" and c: "get_next_token strategy str p = (x, q)"
  let ?r = "consume_garbage strategy str p"
  have g: "goes str p ?r" using p by (rule garbage.act_goes) simp
  then have "goes str ?r q"
    using c by (auto simp: get_next_token_def Let_def dest!: goes_inside
        intro: goes_fail_here goes_pos split: if_splits)
  with g show "goes str p q" by (rule goes_trans)
qed

lemma get_next_token_progress:
  assumes "pos p \<le> length str" "get_next_token strategy str p = (c, q)"
  shows "failed q \<or> pos p < pos q"
proof -
  have "goes str p (consume_garbage strategy str p)"
    using assms(1) by (rule garbage.act_goes) simp
  then show ?thesis
    using assms(2) by (auto simp: get_next_token_def Let_def goes_def split: if_splits)
qed

lemma get_next_token_char:
  assumes "pos p \<le> length str" "get_next_token strategy str p = (c, q)" "c \<noteq> NULC"
  shows "pos p < pos q" "c = char_at str (pos q - 1)"
proof -
  have "goes str p (consume_garbage strategy str p)"
    using assms(1) by (rule garbage.act_goes) simp
  then show "pos p < pos q" "c = char_at str (pos q - 1)"
    using assms(2,3) by (auto simp: get_next_token_def Let_def goes_def split: if_splits)
qed

text \<open>Strings: one round of the loop, then the loop.\<close>

lemma goes_later: "goes str (p\<lparr>pos := n\<rparr>) q \<Longrightarrow> pos p \<le> n \<Longrightarrow> goes str p q"
  by (auto simp: goes_def)

lemma escape_step_goes:
  "pos p \<le> length str \<Longrightarrow> escape_step str out cp p = (f, q) \<Longrightarrow> goes str p q"
  by (auto simp: escape_step_def Let_def intro!: goes_fail goes_fail_here goes_pos
      split: if_splits option.splits)

lemma string_step_goes:
  assumes "pos p \<le> length str" "string_step str out cp p = (f, q)"
  shows "goes str p q \<and> (failed q \<or> pos p < pos q)"
proof (cases "pos p = length str")
  case True
  with assms show ?thesis by (auto simp: string_step_def intro!: goes_fail_here)
next
  case False
  with assms have lt: "pos p + 1 \<le> length str" by simp
  show ?thesis
  proof (cases "escape_step str out cp (p\<lparr>pos := pos p + 1\<rparr>) = (f, q)")
    case True
    with lt have "goes str (p\<lparr>pos := pos p + 1\<rparr>) q" by (intro escape_step_goes) auto
    then show ?thesis by (auto intro: goes_later simp: goes_def)
  next
    case False
    with assms lt show ?thesis
      by (auto simp: string_step_def Let_def intro!: goes_fail goes_pos split: if_splits)
  qed
qed

lemma parse_string_loop_goes:
  "pos p \<le> length str \<Longrightarrow> parse_string_loop str out cp p = (x, q) \<Longrightarrow>
   goes str p q \<and> (failed q \<or> pos p < pos q)"
proof (induction str out cp p arbitrary: x q rule: parse_string_loop.induct)
  case (1 str out cp p)
  obtain f r where s: "string_step str out cp p = (f, r)" by fastforce
  from string_step_goes [OF "1.prems"(1) s]
  have g: "goes str p r" and pr: "failed r \<or> pos p < pos r" by auto
  show ?case
  proof (cases f)
    case (StringDone t)
    with s "1.prems"(2) g pr show ?thesis by (subst (asm) parse_string_loop.simps) simp
  next
    case (StringNext out' cp')
    with s "1.prems"(2) have "parse_string_loop str out' cp' r = (x, q)"
      by (subst (asm) parse_string_loop.simps) simp
    with "1.IH" s StringNext g have "goes str r q \<and> (failed q \<or> pos r < pos q)"
      by (metis goes_inside)
    with g show ?thesis by (auto intro: goes_trans simp: goes_def)
  qed
qed

interpretation str: parser_op parse_string
  by unfold_locales (auto simp: parse_string_def dest: parse_string_loop_goes)

lemma parse_string_progress:
  "pos p \<le> length str \<Longrightarrow> parse_string str p = (x, q) \<Longrightarrow> failed q \<or> pos p < pos q"
  by (auto simp: parse_string_def dest: parse_string_loop_goes)

section \<open>Numbers and literals\<close>

lemma parse_decimal_goes:
  assumes "pos p \<le> length str" "parse_decimal str start p = (v, q)"
  shows "goes str p q \<and> json_height v = 0 \<and> json_wf v"
proof -
  have lt: "i + 1 \<le> length str" if "char_at str i = c" "c \<noteq> NULC" for i c
    using that by (auto simp: char_at_def split: if_splits)
  let ?i1 = "pos p" let ?i2 = "frac_end str ?i1" let ?i3 = "exp_start str ?i2"
  have 2: "?i1 \<le> ?i2" "?i2 \<le> length str"
    using assms(1) skip_digits_bounds [of "?i1 + 1" str] lt [of ?i1] by (auto simp: frac_end_def)
  have 3: "?i2 \<le> ?i3" "?i3 \<le> length str" if "is_exp (char_at str ?i2)"
  proof -
    from that lt have "?i2 + 1 \<le> length str" by (auto simp: is_exp_def)
    then show "?i2 \<le> ?i3" "?i3 \<le> length str"
      using lt [of "?i2 + 1"] by (auto simp: exp_start_def)
  qed
  define i4 where "i4 = (if is_exp (char_at str ?i2) then skip_digits str ?i3 else ?i2)"
  have 4: "?i1 \<le> i4" "i4 \<le> length str"
    using 2 3 skip_digits_bounds [of ?i3 str] by (auto simp: i4_def)
  obtain d range where d: "strtod (c_str (drop start str)) = (d, range)" by fastforce
  have "parse_decimal str start p =
     (if char_at str ?i1 = CHR ''.'' \<and> \<not> is_digit (char_at str (?i1 + 1))
      then (JsonNull, fail ''at least one digit required in fractional part'' (p\<lparr>pos := ?i1 + 1\<rparr>))
      else if is_exp (char_at str ?i2) \<and> \<not> is_digit (char_at str ?i3)
      then (JsonNull, fail ''at least one digit required in exponent'' (p\<lparr>pos := ?i3\<rparr>))
      else (JsonDouble d, p\<lparr>pos := i4, erange := erange p \<or> range\<rparr>))"
    by (simp add: parse_decimal_def Let_def d i4_def)
  with assms(2) consider
      "char_at str ?i1 = CHR ''.''" "v = JsonNull"
      "q = fail ''at least one digit required in fractional part'' (p\<lparr>pos := ?i1 + 1\<rparr>)"
    | "is_exp (char_at str ?i2)" "v = JsonNull"
      "q = fail ''at least one digit required in exponent'' (p\<lparr>pos := ?i3\<rparr>)"
    | "v = JsonDouble d" "q = p\<lparr>pos := i4, erange := erange p \<or> range\<rparr>"
    by (auto split: if_splits)
  then show ?thesis
  proof cases
    case 1
    with lt [of ?i1] show ?thesis by (auto intro!: goes_fail)
  next
    case 2
    with 3 \<open>?i1 \<le> ?i2\<close> show ?thesis by (auto intro!: goes_fail)
  next
    case 3
    with 4 show ?thesis by (auto simp: goes_def)
  qed
qed

lemma convert_int_keeps:
  assumes "convert_int str start p = (r, q)" "goes str p' p"
  shows "pos q = pos p \<and> goes str p' q \<and> (\<forall>v. r = Some v \<longrightarrow> json_height v = 0 \<and> json_wf v)"
proof -
  obtain w b where "(if char_at str start = CHR ''-'' then atoll (c_str (drop start str))
      else strtoull (c_str (drop start str))) = (w, b)" by fastforce
  then have "q = p\<lparr>erange := erange p \<or> b\<rparr>"
    "r = None \<or> r = Some (JsonInt64 w) \<or> r = Some (JsonUInt64 w)"
    using assms(1) by (auto simp: convert_int_def Let_def split: if_splits)
  with assms(2) show ?thesis by (auto simp: goes_def)
qed

lemma parse_number_goes:
  assumes "pos p \<le> length str" "parse_number str p = (v, q)"
  shows "goes str p q \<and> (failed q \<or> pos p < pos q) \<and> json_height v = 0 \<and> json_wf v"
proof -
  have lt: "i < length str" if "is_digit (char_at str i) \<or> char_at str i = CHR ''-''" for i
    using that by (auto simp: char_at_def is_digit_def byte_def split: if_splits)
  have zero: "is_digit CHR ''0''" by (simp add: is_digit_def byte_def)
  let ?i0 = "sign_end str (pos p)" let ?i1 = "int_part_end str ?i0"
  have 0: "pos p \<le> ?i0" "?i0 \<le> length str"
    using assms(1) lt [of "pos p"] by (auto simp: sign_end_def Suc_le_eq)
  show ?thesis
  proof (cases "is_digit (char_at str ?i0)")
    case False
    with zero have "char_at str ?i0 \<noteq> CHR ''0''" by metis
    with False assms(2) have "q = fail (''invalid '' @ esc (char_at str ?i0) @ '' in number'')
        (p\<lparr>pos := ?i0\<rparr>)" "v = JsonNull"
      by (simp_all add: parse_number_def Let_def)
    with 0 show ?thesis by (auto intro!: goes_fail)
  next
    case True
    then have 2: "?i0 + 1 \<le> length str" using lt by (simp add: Suc_le_eq)
    then have 1: "?i0 < ?i1" "?i1 \<le> length str"
      using skip_digits_bounds [of "?i0 + 1" str] by (auto simp: int_part_end_def)
    with 0 have g: "goes str p (p\<lparr>pos := ?i1\<rparr>)" by (auto intro: goes_pos)
    have dec: "parse_decimal str start r = (v, q) \<Longrightarrow> ?thesis" if "goes str p r" "pos r = ?i1" for start r
      using parse_decimal_goes [of r str start v q] that 0 1 goes_trans [of str p r q]
      by (auto simp: goes_def)
    obtain r p2 where c: "convert_int str (pos p) (p\<lparr>pos := ?i1\<rparr>) = (r, p2)" by fastforce
    from convert_int_keeps [OF c g] have p2: "pos p2 = ?i1" "goes str p p2"
      "\<And>w. r = Some w \<Longrightarrow> json_height w = 0 \<and> json_wf w" by auto
    have eq: "parse_number str p =
      (if char_at str ?i0 = CHR ''0'' \<and> is_digit (char_at str (?i0 + 1))
       then (JsonNull, fail ''leading 0s not permitted in numbers'' (p\<lparr>pos := ?i0 + 1\<rparr>))
       else if char_at str ?i1 \<noteq> CHR ''.'' \<and> char_at str ?i1 \<noteq> CHR ''e'' \<and>
         char_at str ?i1 \<noteq> CHR ''E'' \<and> ?i1 - pos p \<le> max_int_chars
       then (case r of Some w \<Rightarrow> (w, p2) | None \<Rightarrow> parse_decimal str (pos p) p2)
       else parse_decimal str (pos p) (p\<lparr>pos := ?i1\<rparr>))"
      using True by (cases r) (simp_all add: parse_number_def Let_def c)
    from eq assms(2) consider "v = JsonNull" "q = fail ''leading 0s not permitted in numbers'' (p\<lparr>pos := ?i0 + 1\<rparr>)"
      | "r = Some v" "q = p2" | "parse_decimal str (pos p) p2 = (v, q)"
      | "parse_decimal str (pos p) (p\<lparr>pos := ?i1\<rparr>) = (v, q)"
      by (cases r) (auto split: if_splits)
    then show ?thesis
    proof cases
      case 1
      with 0 2 show ?thesis by (auto intro!: goes_fail)
    next
      case 2
      with 0 1 p2 show ?thesis by auto
    next
      case 3
      with dec [OF p2(2,1)] show ?thesis .
    next
      case 4
      with dec [OF g] show ?thesis by simp
    qed
  qed
qed

lemma expect_goes:
  assumes "pos p \<le> length str" "0 < pos p" "expected \<noteq> []" "expect str expected res p = (v, q)"
  shows "goes str (p\<lparr>pos := pos p - 1\<rparr>) q \<and> (failed q \<or> pos p \<le> pos q) \<and> (v = res \<or> v = JsonNull)"
proof -
  have "pos p - 1 + length expected \<le> length str"
    if "take (length expected) (drop (pos p - 1) str) = expected"
  proof -
    from that have "length expected \<le> length (drop (pos p - 1) str)"
      by (metis length_take min.cobounded1)
    with assms(1-3) show ?thesis by (cases expected) auto
  qed
  with assms show ?thesis
    by (cases expected) (auto simp: expect_def Let_def goes_def fail_def split: if_splits)
qed

section \<open>The pieces of \<open>parse_json\<close>\<close>

abbreviation moved :: "string \<Rightarrow> parser \<Rightarrow> parser \<Rightarrow> bool" where
  "moved str p q \<equiv> goes str p q \<and> (failed q \<or> pos p < pos q)"

lemma moved_trans: "moved str p q \<Longrightarrow> goes str q r \<Longrightarrow> moved str p r"
  by (auto intro: goes_trans simp: goes_def)

lemma goes_le: "goes str p q \<Longrightarrow> pos p \<le> pos q"
  by (simp add: goes_def)

lemma moved_inside: "moved str p q \<Longrightarrow> pos q \<le> length str"
  by (simp add: goes_def)

lemma goes_moved: "goes str p q \<Longrightarrow> moved str q r \<Longrightarrow> moved str p r"
  using goes_trans goes_le by (metis le_less_trans)

lemma less_moved: "goes str p q \<Longrightarrow> pos p < pos q \<Longrightarrow> goes str q r \<Longrightarrow> moved str p r"
  using goes_trans goes_le by (metis less_le_trans)

lemma goes_back: "goes str p q \<Longrightarrow> pos p < pos q \<Longrightarrow> goes str p (q\<lparr>pos := pos q - 1\<rparr>)"
  by (auto simp: goes_def)

lemma token_moved:
  "pos p \<le> length str \<Longrightarrow> get_next_token strategy str p = (c, q) \<Longrightarrow> moved str p q"
  using get_next_token_progress token.act_goes by blast

lemma string_moved: "pos p \<le> length str \<Longrightarrow> parse_string str p = (x, q) \<Longrightarrow> moved str p q"
  using parse_string_progress str.act_goes by blast

lemma expected_got_nonempty [simp]: "expected_got c place ch \<noteq> []"
  by (simp add: expected_got_def)

lemma number_moved:
  assumes "moved str p q" "\<not> failed q" "parse_number str (q\<lparr>pos := pos q - 1\<rparr>) = (v, r)"
  shows "moved str p r \<and> json_height v = 0 \<and> json_wf v"
proof -
  let ?q = "q\<lparr>pos := pos q - 1\<rparr>"
  from assms(1,2) have q: "goes str p ?q" "pos ?q \<le> length str" by (auto simp: goes_def)
  from parse_number_goes [OF q(2) assms(3)]
  have r: "goes str ?q r \<and> (failed r \<or> pos ?q < pos r)" "json_height v = 0 \<and> json_wf v"
    by auto
  with q have "goes str p r" using goes_trans by blast
  with q r show ?thesis by (auto simp: goes_def)
qed

lemma expect_moved:
  assumes "moved str p q" "\<not> failed q" "expected \<noteq> []" "expect str expected res q = (v, r)"
  shows "moved str p r \<and> (v = res \<or> v = JsonNull)"
proof -
  let ?q = "q\<lparr>pos := pos q - 1\<rparr>"
  from assms(1,2) have q: "goes str p ?q" "pos q \<le> length str" "0 < pos q" "pos p < pos q"
    by (auto simp: goes_def)
  from expect_goes [OF q(2,3) assms(3,4)]
  have r: "goes str ?q r" "failed r \<or> pos q \<le> pos r" "v = res \<or> v = JsonNull" by auto
  from q(1) r(1) have "goes str p r" by (rule goes_trans)
  with q r show ?thesis by auto
qed

definition head_ok :: "string \<Rightarrow> nat \<Rightarrow> parser \<Rightarrow> loop flow \<times> parser \<Rightarrow> bool" where
  "head_ok str depth p r \<longleftrightarrow>
     moved str p (snd r) \<and>
     (\<forall>v. fst r = Return v \<longrightarrow> json_wf v \<and> json_height v \<le> max_depth + 1 - depth) \<and>
     (\<forall>l. fst r = Go l \<longrightarrow> depth \<le> max_depth \<and> pos p < pos (snd r))"

lemma head_ok_Return:
  "moved str p q \<Longrightarrow> json_wf v \<and> json_height v \<le> max_depth + 1 - depth \<Longrightarrow>
   head_ok str depth p (Return v, q)"
  by (simp add: head_ok_def)

lemma head_ok_Go:
  "moved str p q \<Longrightarrow> depth \<le> max_depth \<Longrightarrow> pos p < pos q \<Longrightarrow> head_ok str depth p (Go l, q)"
  by (simp add: head_ok_def)

lemma value_head_ok:
  assumes "pos p \<le> length str"
  shows "head_ok str depth p (value_head strategy str depth p)"
proof (cases "max_depth < depth")
  case True
  have "moved str p (fail ''exceeded maximum nesting depth'' p)"
    using goes_fail_here [OF assms] by simp
  with True show ?thesis by (auto simp: value_head_def intro: head_ok_Return)
next
  case depth: False
  then have d: "depth \<le> max_depth" by simp
  obtain ch p1 where t: "get_next_token strategy str p = (ch, p1)" by fastforce
  from token_moved [OF assms t] have p1: "moved str p p1" "pos p1 \<le> length str"
    by (auto simp: goes_def)
  obtain s p2 where s: "parse_string str p1 = (s, p2)" by fastforce
  obtain c p3 where c: "get_next_token strategy str p1 = (c, p3)" by fastforce
  obtain n p4 where n: "parse_number str (p1\<lparr>pos := pos p1 - 1\<rparr>) = (n, p4)" by fastforce
  obtain vt pt where vt: "expect str ''true'' (JsonBoolean True) p1 = (vt, pt)" by fastforce
  obtain vf pf where vf: "expect str ''false'' (JsonBoolean False) p1 = (vf, pf)" by fastforce
  obtain vn pn where vn: "expect str ''null'' JsonNull p1 = (vn, pn)" by fastforce
  define p5 where "p5 = fail (''expected value, got '' @ esc ch) p1"
  have m2: "moved str p p2" and m3: "moved str p p3"
    using moved_trans [OF p1(1)] string_moved [OF p1(2) s] token_moved [OF p1(2) c] by blast+
  have "goes str p1 p5" unfolding p5_def by (rule goes_fail_here [OF p1(2)]) simp
  then have m5: "moved str p p5" using moved_trans [OF p1(1)] by blast
  show ?thesis
  proof (cases "failed p1")
    case True
    with depth t p1 show ?thesis by (auto simp: value_head_def intro: head_ok_Return)
  next
    case False
    have go: "pos p < pos p3"
      using False p1(1) goes_le [of str p1 p3] token_moved [OF p1(2) c] by auto
    have num: "head_ok str depth p (Return n, p4)"
      using number_moved [OF p1(1) False n] by (intro head_ok_Return) auto
    have lit: "head_ok str depth p (Return vt, pt)" "head_ok str depth p (Return vf, pf)"
      "head_ok str depth p (Return vn, pn)"
      using expect_moved [OF p1(1) False _ vt] expect_moved [OF p1(1) False _ vf]
        expect_moved [OF p1(1) False _ vn]
      by (auto intro!: head_ok_Return)
    have oks: "head_ok str depth p (Return (JsonString s), p2)"
      "head_ok str depth p (Return (JsonObject []), p3)"
      "head_ok str depth p (Return (JsonArray []), p3)"
      "head_ok str depth p (Return JsonNull, p5)"
      "\<And>l. head_ok str depth p (Go l, p3)"
      using m2 m3 m5 go d by (auto intro!: head_ok_Return head_ok_Go)
    show ?thesis
      using depth False num lit oks unfolding p5_def
      by (simp add: value_head_def t s c n [simplified] vt vf vn Let_def)
  qed
qed

lemma member_head_moved:
  assumes "pos p \<le> length str" "member_head strategy str ch p = (f, q)"
  shows "goes str p q \<and> (failed q \<or> pos p < pos q) \<and> (\<forall>v. f = Return v \<longrightarrow> v = JsonNull \<and> failed q) \<and>
    (\<forall>k. f = Go k \<longrightarrow> \<not> failed p \<and> pos p < pos q)"
proof (cases "ch = QUOTE")
  case False
  with assms show ?thesis by (auto simp: member_head_def intro!: goes_fail_here)
next
  case ch: True
  obtain key p1 where s: "parse_string str p = (key, p1)" by fastforce
  from string_moved [OF assms(1) s] have p1: "moved str p p1" "pos p1 \<le> length str"
    by (auto simp: goes_def)
  obtain c p2 where c: "get_next_token strategy str p1 = (c, p2)" by fastforce
  have m2: "goes str p p2" "goes str p1 p2"
    using token_moved [OF p1(2) c] p1(1) goes_trans by blast+
  have mf: "goes str p (fail msg p2)" if "msg \<noteq> []" for msg
    using goes_trans [OF m2(1) goes_fail_here] m2(1) that by (auto simp: goes_def)
  show ?thesis
  proof (cases "failed p1")
    case True
    with assms(2) ch s p1 show ?thesis by (auto simp: member_head_def)
  next
    case False
    with p1(1) m2 have "\<not> failed p" "pos p < pos p2" by (auto simp: goes_def)
    with False assms(2) ch s c m2 mf show ?thesis
      by (auto simp: member_head_def Let_def split: if_splits)
  qed
qed

lemma member_tail_moved:
  assumes "pos p \<le> length str" "member_tail strategy str data p = (f, q)"
  shows "goes str p q \<and> (\<forall>v. f = Return v \<longrightarrow> v = JsonNull \<or> v = JsonObject data) \<and>
    (\<forall>c. f = Go c \<longrightarrow> \<not> failed p \<and> pos p < pos q)"
proof (cases "failed p")
  case True
  with assms show ?thesis by (auto simp: member_tail_def goes_refl)
next
  case False
  obtain ch p1 where t: "get_next_token strategy str p = (ch, p1)" by fastforce
  have p1: "goes str p p1" using assms(1) t by (rule token.act_goes)
  then have in1: "pos p1 \<le> length str" by (rule goes_inside)
  obtain c p2 where c: "get_next_token strategy str p1 = (c, p2)" by fastforce
  have p2: "goes str p1 p2" using in1 c by (rule token.act_goes)
  have mf: "goes str p (fail (expected_got (CHR '','') ''object'' ch) p1)"
    using p1 goes_fail_here [OF in1] goes_trans by (metis expected_got_nonempty)
  have "pos p < pos p2" if "ch = CHR '',''"
    using get_next_token_char(1) [OF assms(1) t] p2 that by (auto simp: goes_def)
  with False assms(2) t c p1 goes_trans [OF p1 p2] mf show ?thesis
    by (auto simp: member_tail_def Let_def split: if_splits)
qed

lemma elem_tail_moved:
  assumes "pos p \<le> length str" "elem_tail strategy str data p = (f, q)"
  shows "goes str p q \<and> (\<forall>v. f = Return v \<longrightarrow> v = JsonNull \<or> v = JsonArray data) \<and>
    (\<forall>c. f = Go c \<longrightarrow> \<not> failed p \<and> pos p < pos q)"
proof (cases "failed p")
  case True
  with assms show ?thesis by (auto simp: elem_tail_def goes_refl)
next
  case False
  obtain ch p1 where t: "get_next_token strategy str p = (ch, p1)" by fastforce
  have p1: "goes str p p1" using assms(1) t by (rule token.act_goes)
  then have in1: "pos p1 \<le> length str" by (rule goes_inside)
  obtain c p2 where c: "get_next_token strategy str p1 = (c, p2)" by fastforce
  have p2: "goes str p1 p2" using in1 c by (rule token.act_goes)
  have mf: "goes str p (fail (expected_got (CHR '','') ''list'' ch) p1)"
    using p1 goes_fail_here [OF in1] goes_trans by (metis expected_got_nonempty)
  have "pos p < pos p2" if "ch = CHR '',''"
    using get_next_token_char(1) [OF assms(1) t] p2 that by (auto simp: goes_def)
  with False assms(2) t c p1 goes_trans [OF p1 p2] mf show ?thesis
    by (auto simp: elem_tail_def Let_def split: if_splits)
qed

section \<open>The loops and the recursion\<close>

text \<open>
  What the two loops need from the recursive call \<open>value\<close>: it returns, keeps the contract,
  consumes a character unless it fails, and its results satisfy \<open>good\<close>.
\<close>

locale value_parser =
  fixes str :: string and parse_value :: "parser \<Rightarrow> (json \<times> parser) option"
    and good :: "json \<Rightarrow> bool"
  assumes value_returns: "pos p \<le> length str \<Longrightarrow>
    \<exists>v q. parse_value p = Some (v, q) \<and> moved str p q \<and> good v"
begin

lemma members_return:
  "pos p \<le> length str \<Longrightarrow> 0 < n \<Longrightarrow> failed p \<or> length str - pos p < n \<Longrightarrow>
   sorted_keys data \<Longrightarrow> \<forall>m \<in> set data. good (snd m) \<Longrightarrow>
   \<exists>v q. parse_members n parse_value strategy str ch data p = Some (v, q) \<and> moved str p q \<and>
     (v = JsonNull \<or> (\<exists>ms. v = JsonObject ms \<and> sorted_keys ms \<and> (\<forall>m \<in> set ms. good (snd m))))"
proof (induction n arbitrary: ch data p)
  case 0
  then show ?case by simp
next
  case (Suc n)
  obtain f p1 where h: "member_head strategy str ch p = (f, p1)" by fastforce
  note mh = member_head_moved [OF Suc.prems(1) h]
  show ?case
  proof (cases f)
    case (Return v)
    with h mh show ?thesis by auto
  next
    case (Go key)
    with mh have p1: "goes str p p1" "pos p < pos p1" "\<not> failed p" "pos p1 \<le> length str"
      by (auto simp: goes_def)
    obtain v p2 where v: "parse_value p1 = Some (v, p2)" "goes str p1 p2" "good v"
      using value_returns [OF p1(4)] by auto
    let ?data = "map_assign key v data"
    from Suc.prems(4) have data: "sorted_keys ?data" by (rule assign.put_sorted)
    have good: "\<forall>m \<in> set ?data. good (snd m)"
    proof
      fix m
      assume "m \<in> set ?data"
      from set_map_assign [OF this] Suc.prems(5) v(3) show "good (snd m)" by auto
    qed
    have p2: "goes str p p2" "pos p < pos p2" "pos p2 \<le> length str"
      by (rule goes_trans [OF p1(1) v(2)], rule less_le_trans [OF p1(2) goes_le [OF v(2)]],
          rule goes_inside [OF v(2)])
    obtain f2 p3 where t: "member_tail strategy str ?data p2 = (f2, p3)" by fastforce
    note mt = member_tail_moved [OF p2(3) t]
    then have g3: "goes str p2 p3" by blast
    have p3: "goes str p p3" "pos p < pos p3" "pos p3 \<le> length str"
      by (rule goes_trans [OF p2(1) g3], rule less_le_trans [OF p2(2) goes_le [OF g3]],
          rule goes_inside [OF g3])
    show ?thesis
    proof (cases f2)
      case (Return r)
      with h Go v(1) t mt p3 data good show ?thesis by auto
    next
      case (Go c)
      from Suc.prems(3) p1(3) p3(2,3) have "0 < n" "length str - pos p3 < n" by auto
      from Suc.IH [OF p3(3) this(1) _ data good, of c] this(2)
      obtain w q where "parse_members n parse_value strategy str c ?data p3 = Some (w, q)" "moved str p3 q"
        "w = JsonNull \<or> (\<exists>ms. w = JsonObject ms \<and> sorted_keys ms \<and> (\<forall>m \<in> set ms. good (snd m)))"
        by auto
      moreover have "moved str p q" using goes_moved [OF p3(1)] calculation(2) by blast
      ultimately show ?thesis using h \<open>f = Go key\<close> v(1) t Go by auto
    qed
  qed
qed

lemma elems_return:
  "pos p \<le> length str \<Longrightarrow> 0 < pos p \<Longrightarrow> 0 < n \<Longrightarrow> failed p \<or> length str - pos p < n \<Longrightarrow>
   \<forall>v \<in> set data. good v \<Longrightarrow>
   \<exists>v q. parse_elems n parse_value strategy str data p = Some (v, q) \<and>
     moved str (p\<lparr>pos := pos p - 1\<rparr>) q \<and>
     (v = JsonNull \<or> (\<exists>vs. v = JsonArray vs \<and> (\<forall>v \<in> set vs. good v)))"
proof (induction n arbitrary: data p)
  case 0
  then show ?case by simp
next
  case (Suc n)
  let ?p = "p\<lparr>pos := pos p - 1\<rparr>"
  from Suc.prems(1) have "pos ?p \<le> length str" by simp
  then obtain v p2 where v: "parse_value ?p = Some (v, p2)" "moved str ?p p2" "good v"
    using value_returns by blast
  then have in2: "pos p2 \<le> length str" by (auto simp: goes_def)
  obtain f p3 where t: "elem_tail strategy str (data @ [v]) p2 = (f, p3)" by fastforce
  note et = elem_tail_moved [OF in2 t]
  have p3: "moved str ?p p3" using moved_trans v(2) et by blast
  show ?case
  proof (cases f)
    case (Return r)
    with v t et p3 Suc.prems(5) show ?thesis by auto
  next
    case (Go c)
    with et have "\<not> failed p2" "pos p2 < pos p3" by auto
    with v(2) Suc.prems(2) have ps: "pos p < pos p3" "\<not> failed p" "pos p3 \<le> length str"
      using et by (auto simp: goes_def)
    with Suc.prems(4) have n: "0 < n" "length str - pos p3 < n" by auto
    from Suc.prems(5) v(3) have "\<forall>v \<in> set (data @ [v]). good v" by auto
    with Suc.IH [OF ps(3) _ n(1), of "data @ [v]"] n(2) ps obtain w q where
      w: "parse_elems n parse_value strategy str (data @ [v]) p3 = Some (w, q)"
      "moved str (p3\<lparr>pos := pos p3 - 1\<rparr>) q"
      "w = JsonNull \<or> (\<exists>vs. w = JsonArray vs \<and> (\<forall>v \<in> set vs. good v))" by auto
    from p3 ps(1) have g: "goes str ?p (p3\<lparr>pos := pos p3 - 1\<rparr>)" by (intro goes_back) auto
    have "moved str ?p q" using goes_moved [OF g w(2)] .
    with v(1) t Go w show ?thesis by auto
  qed
qed

lemma members_return_start:
  assumes "pos p \<le> length str"
  obtains v q where "parse_members (loop_fuel str) parse_value strategy str ch [] p = Some (v, q)"
    "moved str p q"
    "v = JsonNull \<or> (\<exists>ms. v = JsonObject ms \<and> sorted_keys ms \<and> (\<forall>m \<in> set ms. good (snd m)))"
proof -
  have n: "0 < loop_fuel str" "length str - pos p < loop_fuel str" by (simp_all add: loop_fuel_def)
  have "\<forall>m \<in> set ([] :: (string \<times> json) list). good (snd m)" by simp
  from members_return [OF assms n(1) disjI2 [OF n(2)] sorted_keys_simps(1) this, of strategy ch]
  show thesis using that by blast
qed

lemma elems_return_start:
  assumes "pos p \<le> length str" "0 < pos p"
  obtains v q where "parse_elems (loop_fuel str) parse_value strategy str [] p = Some (v, q)"
    "moved str (p\<lparr>pos := pos p - 1\<rparr>) q"
    "v = JsonNull \<or> (\<exists>vs. v = JsonArray vs \<and> (\<forall>v \<in> set vs. good v))"
proof -
  have n: "0 < loop_fuel str" "length str - pos p < loop_fuel str" by (simp_all add: loop_fuel_def)
  have "\<forall>v \<in> set []. good v" by simp
  from elems_return [OF assms n(1) disjI2 [OF n(2)] this, of strategy]
  show thesis using that by blast
qed

end

definition fuel_at :: "nat \<Rightarrow> nat" where
  "fuel_at depth = Suc (max_depth + 1 - depth)"

definition good_at :: "nat \<Rightarrow> json \<Rightarrow> bool" where
  "good_at depth v \<longleftrightarrow> json_wf v \<and> json_height v \<le> max_depth + 1 - depth"

lemma value_parser_parse_json:
  "value_parser str (parse_json (fuel_at depth) strategy str depth) (good_at depth)"
proof (induction "max_depth + 1 - depth" arbitrary: depth)
  case 0
  then have d: "max_depth < depth" by simp
  show ?case
    by unfold_locales
      (auto simp: fuel_at_def value_head_def good_at_def d intro!: goes_fail_here)
next
  case (Suc n)
  then have d: "depth \<le> max_depth" "n = max_depth + 1 - (depth + 1)" by simp_all
  from d(1) have fuel: "fuel_at depth = Suc (fuel_at (depth + 1))" by (simp add: fuel_at_def)
  note inner = Suc.hyps(1) [OF d(2)]
  have height: "max_depth + 1 - depth = Suc (max_depth + 1 - (depth + 1))" using d(1) by simp
  have object: "good_at depth (JsonObject ms)"
    if "sorted_keys ms" "\<forall>m \<in> set ms. good_at (depth + 1) (snd m)" for ms
    using that unfolding good_at_def height json_height_le_Suc_iff by auto
  have array: "good_at depth (JsonArray vs)" if "\<forall>v \<in> set vs. good_at (depth + 1) v" for vs
    using that unfolding good_at_def height json_height_le_Suc_iff by auto
  have null: "good_at depth JsonNull" by (simp add: good_at_def)
  show ?case
  proof unfold_locales
    fix p :: parser
    assume p: "pos p \<le> length str"
    obtain f p1 where h: "value_head strategy str depth p = (f, p1)" by fastforce
    from value_head_ok [OF p, of depth strategy] h
    have vh: "moved str p p1 \<and>
      (\<forall>v. f = Return v \<longrightarrow> json_wf v \<and> json_height v \<le> max_depth + 1 - depth) \<and>
      (\<forall>l. f = Go l \<longrightarrow> depth \<le> max_depth \<and> pos p < pos p1)" by (simp add: head_ok_def)
    then have in1: "pos p1 \<le> length str" by (auto simp: goes_def)
    show "\<exists>v q. parse_json (fuel_at depth) strategy str depth p = Some (v, q) \<and>
        moved str p q \<and> good_at depth v"
    proof (cases f)
      case (Return v)
      with h vh show ?thesis by (auto simp: fuel good_at_def)
    next
      case (Go l)
      with vh have go: "pos p < pos p1" "goes str p p1" by auto
      show ?thesis
      proof (cases l)
        case (ObjectLoop ch)
        obtain v q where m: "parse_members (loop_fuel str) (parse_json (fuel_at (depth + 1)) strategy
            str (depth + 1)) strategy str ch [] p1 = Some (v, q)" "moved str p1 q"
          "v = JsonNull \<or> (\<exists>ms. v = JsonObject ms \<and> sorted_keys ms \<and>
             (\<forall>m \<in> set ms. good_at (depth + 1) (snd m)))"
          by (rule value_parser.members_return_start [OF inner in1])
        have "moved str p q" using goes_moved [OF go(2) m(2)] .
        moreover from m(3) have "good_at depth v" using object null by blast
        ultimately show ?thesis using h Go ObjectLoop m(1) by (simp add: fuel)
      next
        case ArrayLoop
        from go(1) have "0 < pos p1" by simp
        then obtain v q where m: "parse_elems (loop_fuel str) (parse_json (fuel_at (depth + 1)) strategy
            str (depth + 1)) strategy str [] p1 = Some (v, q)"
          "moved str (p1\<lparr>pos := pos p1 - 1\<rparr>) q"
          "v = JsonNull \<or> (\<exists>vs. v = JsonArray vs \<and> (\<forall>v \<in> set vs. good_at (depth + 1) v))"
          by (rule value_parser.elems_return_start [OF inner in1])
        have g: "goes str p (p1\<lparr>pos := pos p1 - 1\<rparr>)" using go(2,1) by (rule goes_back)
        have "moved str p q" using goes_moved [OF g m(2)] .
        moreover from m(3) have "good_at depth v" using array null by blast
        ultimately show ?thesis using h Go ArrayLoop m(1) by (simp add: fuel)
      qed
    qed
  qed
qed

interpretation recursion: value_parser str "parse_json (fuel_at depth) strategy str depth"
    "good_at depth" for str strategy depth
  by (rule value_parser_parse_json)

lemma parse_fuel_at: "parse_fuel = fuel_at 0"
  by (simp add: parse_fuel_def fuel_at_def)

section \<open>\<open>Json::parse\<close> and \<open>Json::parse_multi\<close>\<close>

definition parse_start :: "string \<Rightarrow> bool \<Rightarrow> parser" where
  "parse_start err0 errno0 = \<lparr>pos = 0, err = err0, failed = False, erange = errno0\<rparr>"

lemma parse_spec:
  obtains j p where "parse strategy str err0 errno0 = Some (j, p)"
    "goes str (parse_start err0 errno0) p" "failed p \<or> pos p = length str" "good_at 0 j"
proof -
  let ?s = "parse_start err0 errno0"
  have s0: "pos ?s \<le> length str" by (simp add: parse_start_def)
  obtain v q where v: "parse_json parse_fuel strategy str 0 ?s = Some (v, q)" "moved str ?s q" "good_at 0 v"
    using recursion.value_returns [OF s0, where strategy = strategy and depth = 0] by (auto simp: parse_fuel_at)
  let ?g = "consume_garbage strategy str q"
  have g: "goes str q ?g" using moved_inside [OF v(2)] by (rule garbage.act_goes) simp
  with v(2) have sg: "goes str ?s ?g" using goes_trans by blast
  show thesis
  proof (cases "pos ?g = length str")
    case True
    with v sg show thesis by (intro that) (auto simp: parse_def parse_start_def)
  next
    case False
    let ?msg = "''unexpected trailing '' @ esc (char_at str (pos ?g))"
    have "parse strategy str err0 errno0 = Some (JsonNull, fail ?msg ?g)"
      using v False by (simp add: parse_def parse_start_def Let_def)
    moreover have "goes str ?s (fail ?msg ?g)"
      using sg by (rule goes_trans) (rule goes_fail_here [OF goes_inside [OF sg]], simp)
    ultimately show thesis by (rule that) (simp_all add: good_at_def)
  qed
qed

lemma parse_multi_loop_returns:
  "pos p \<le> length str \<Longrightarrow> 0 < n \<Longrightarrow> failed p \<or> length str - pos p < n \<Longrightarrow>
   \<forall>v \<in> set vec. good_at 0 v \<Longrightarrow> stop \<le> pos p \<Longrightarrow>
   \<exists>vs s q. parse_multi_loop n strategy str vec stop p = Some (vs, s, q) \<and> goes str p q \<and>
     s \<le> pos q \<and> (failed q \<or> pos q = length str) \<and> (\<forall>v \<in> set vs. good_at 0 v)"
proof (induction n arbitrary: vec stop p)
  case 0
  then show ?case by simp
next
  case (Suc n)
  show ?case
  proof (cases "pos p \<noteq> length str \<and> \<not> failed p")
    case False
    with Suc.prems show ?thesis by (auto simp: goes_refl)
  next
    case True
    obtain v q where v: "parse_json parse_fuel strategy str 0 p = Some (v, q)" "moved str p q" "good_at 0 v"
      using recursion.value_returns [OF Suc.prems(1), where strategy = strategy and depth = 0] by (auto simp: parse_fuel_at)
    let ?g = "consume_garbage strategy str q"
    have g: "goes str q ?g" using moved_inside [OF v(2)] by (rule garbage.act_goes) simp
    from v(2) g have pg: "moved str p ?g" by (rule moved_trans)
    have n: "0 < n" "failed ?g \<or> length str - pos ?g < n"
      using Suc.prems(1,3) True pg by auto
    have st: "(if failed ?g then stop else pos ?g) \<le> pos ?g"
      using Suc.prems(5) goes_le [of str p ?g] pg by auto
    have vec: "\<forall>v \<in> set (vec @ [v]). good_at 0 v" using Suc.prems(4) v(3) by simp
    from Suc.IH [OF moved_inside [OF pg] n vec st] obtain vs s r where
      "parse_multi_loop n strategy str (vec @ [v]) (if failed ?g then stop else pos ?g) ?g = Some (vs, s, r)"
      "goes str ?g r" "s \<le> pos r" "failed r \<or> pos r = length str" "\<forall>v \<in> set vs. good_at 0 v" by blast
    moreover have "goes str p r" using pg calculation(2) goes_trans by blast
    ultimately show ?thesis using True v(1) by (simp add: Let_def)
  qed
qed

text \<open>C6: \<open>Json::parse\<close> returns on every input, in both strategies and whatever \<open>errno\<close> is on entry;
  it stops inside the input, and unless it failed it has consumed all of it.\<close>

theorem parse_returns:
  "\<exists>j p. parse strategy str err0 errno0 = Some (j, p) \<and> pos p \<le> length str \<and>
     (failed p \<or> pos p = length str)"
  by (rule parse_spec [of strategy str err0 errno0]) (auto dest: goes_inside)

text \<open>C31: A caller that passes an empty \<open>err\<close>, as every caller in this program does, finds it
  empty afterwards exactly when the parse succeeded.\<close>

theorem parse_err_iff_failed:
  assumes "parse strategy str [] errno0 = Some (j, p)"
  shows "err p = [] \<longleftrightarrow> \<not> failed p"
  by (rule parse_spec [of strategy str "[]" errno0]) (use assms in \<open>auto simp: goes_def parse_start_def\<close>)

theorem parse_err_iff_failed_witness:
  "\<exists>j p. parse STANDARD ''[1'' [] False = Some (j, p) \<and> (err p = [] \<longleftrightarrow> \<not> failed p)"
  using parse_returns [of STANDARD "''[1''" "[]" False] parse_err_iff_failed by blast

text \<open>C32: Whatever the input, the value that \<open>Json::parse\<close> returns has only objects with strictly
  ascending keys and is nested at most \<open>max_depth + 1\<close> deep, so the recursive functions over
  it (\<open>dump\<close>, the comparisons, the destructors) recurse at most that deep.\<close>

theorem parse_wf_bounded:
  assumes "parse strategy str err0 errno0 = Some (j, p)"
  shows "json_wf j \<and> json_height j \<le> max_depth + 1"
  by (rule parse_spec [of strategy str err0 errno0]) (use assms in \<open>auto simp: good_at_def\<close>)

theorem parse_wf_bounded_witness:
  "\<exists>j p. parse COMMENTS ''[[],{}]'' [] False = Some (j, p) \<and> json_wf j \<and> json_height j \<le> max_depth + 1"
  using parse_returns [of COMMENTS "''[[],{}]''" "[]" False] parse_wf_bounded by blast

text \<open>\<open>Json::parse_multi\<close> returns on every input; \<open>parser_stop_pos\<close> never lies beyond the
  position reached, and every value is well formed and of bounded height.\<close>

theorem parse_multi_returns:
  "\<exists>vs s p. parse_multi strategy str err0 errno0 = Some (vs, s, p) \<and> s \<le> pos p \<and>
     pos p \<le> length str \<and> (failed p \<or> pos p = length str) \<and> list_all (good_at 0) vs"
  using parse_multi_loop_returns
    [of "parse_start err0 errno0" str "loop_fuel str" "[]" 0 strategy]
  by (auto simp: parse_multi_def parse_start_def loop_fuel_def list_all_iff goes_def)

end
