(* ===== verification/Backend.thy ===== *)
theory Backend
  imports Connection Json_Parser_Facts
begin

text \<open>
  The backend side: the handlers of \<open>backend_conn.cpp\<close> and the connection vector of
  \<open>backend_server.cpp\<close> with its selection, acceptance, clean-up and statistics. The locale
  \<open>backend_selector\<close> is the contract \<open>push_backend\<close> relies on when it asks for a connection.
\<close>

section \<open>The ids in a message\<close>

text \<open>
  \<open>Json::parse\<close> into a fresh error string; \<open>errno0\<close> tells whether this thread's \<open>errno\<close> is
  still \<open>ERANGE\<close> from before. By \<open>parse_returns\<close> the parse always gives a value.
\<close>

definition parse_message :: "bool \<Rightarrow> string \<Rightarrow> json \<times> string" where
  "parse_message errno0 body = (case the (parse STANDARD body '''' errno0) of (j, p) \<Rightarrow> (j, err p))"

text \<open>\<open>json_parsed[key].uint64_value ()\<close>; the cast of a double may be undefined.\<close>

definition id_field :: "json \<Rightarrow> string \<Rightarrow> u64 result" where
  "id_field j key = (case uint64_value (at_key j key) of Some w \<Rightarrow> Inr w | None \<Rightarrow> Inl BadCast)"

section \<open>backend\_conn\<close>

definition backend_stop :: "connection \<Rightarrow> connection" where
  "backend_stop c = c\<lparr>stats := conn_pending\<rparr>"

text \<open>The error branch of both handlers.\<close>

definition backend_conn_error :: "connection \<Rightarrow> connection outcome" where
  "backend_conn_error c = on_sock [CloseSock] (c\<lparr>stats := conn_error\<rparr>)"

definition backend_read_handler ::
  "int \<Rightarrow> bool \<Rightarrow> error_code \<Rightarrow> nat \<Rightarrow> connection \<Rightarrow> connection outcome" where
  "backend_read_handler now errno0 ec bytes_transferred c =
     (let again = (\<lambda>acts c. rbind (do_read now c) (\<lambda>(c, acts'). Inr (c, acts @ acts'))) in
      if ec = NoError \<and> bytes_transferred \<noteq> 0 then
        rbind (require (NULC \<in> set (p_buffer c)) OutOfBounds) (\<lambda>_.
        let json_parsed = fst (parse_message errno0 (c_str (p_buffer c))) in
        rbind (id_field json_parsed ''session_id'') (\<lambda>session_id.
        rbind (id_field json_parsed ''site_id'') (\<lambda>site_id.
        if session_id = 0 \<or> site_id = 0 then again [] c
        else again [PushFront session_id (p_buffer c) (of_nat (length (c_str (p_buffer c)) + 1))] c)))
      else if ec \<noteq> OperationAborted then
        rbind (backend_conn_error c) (\<lambda>(c, acts). again acts c)
      else again [] c)"

definition backend_write_handler ::
  "error_code \<Rightarrow> nat \<Rightarrow> connection \<Rightarrow> connection outcome" where
  "backend_write_handler ec bytes_transferred c =
     (if ec = NoError \<and> bytes_transferred \<noteq> 0 then Inr (c, [])
      else if ec \<noteq> OperationAborted then backend_conn_error c
      else Inr (c, []))"

text \<open>What \<open>async_read_some\<close> does before it calls the handler: the bytes go to the front of
  \<open>p_buffer\<close>, the rest of the buffer stays as it was.\<close>

definition receive_some :: "string \<Rightarrow> 'a connection_scheme \<Rightarrow> 'a connection_scheme result" where
  "receive_some bytes c = rbind (vec_write (p_buffer c) 0 bytes) (\<lambda>b. Inr (c\<lparr>p_buffer := b\<rparr>))"

section \<open>backend\_server\<close>

type_synonym backend_conns = "connection list"

partial_function (option) ring_search :: "(nat \<Rightarrow> bool) \<Rightarrow> nat \<Rightarrow> nat \<Rightarrow> nat \<Rightarrow> nat option option" where
  "ring_search working n flag index =
     (let index = (index + 1) mod n in
      if working index then Some (Some index)
      else if index = flag then Some None
      else ring_search working n flag index)"

text \<open>\<open>require_backend_conn\<close>: the position of the connection it returns, \<open>Some None\<close> for the
  null pointer; the outer \<open>None\<close> would be a search that never ends.\<close>

definition require_backend_conn :: "u64 \<Rightarrow> backend_conns \<Rightarrow> nat option option" where
  "require_backend_conn site_id conns =
     (let working = (\<lambda>i. stats (conns ! i) = conn_working) in
      if length conns = 0 then Some None
      else
        let index = unat site_id mod length conns in
        if working index then Some (Some index)
        else ring_search working (length conns) index index)"

text \<open>\<open>http_server::push_backend\<close>, with the position of the connection its actions belong to.\<close>

definition push_backend ::
  "int \<Rightarrow> u64 \<Rightarrow> string option \<Rightarrow> u64 \<Rightarrow> backend_conns \<Rightarrow> (backend_conns \<times> (nat \<times> action) list) result" where
  "push_backend now site_id dat len conns =
     (case the (require_backend_conn site_id conns) of
        None \<Rightarrow> Inr (conns, [])
      | Some i \<Rightarrow>
          rbind (fill_and_send now dat len (conns ! i)) (\<lambda>(c, acts).
          Inr (conns[i := c], map (Pair i) acts)))"

text \<open>
  The handler of the acceptor; the flag tells whether \<open>do_accept\<close> was called again. \<open>peer\<close> is
  whether \<open>remote_endpoint ()\<close> succeeds, which throws otherwise.
\<close>

definition backend_accept_handler ::
  "int \<Rightarrow> bool \<Rightarrow> bool \<Rightarrow> nat \<Rightarrow> backend_conns \<Rightarrow> (backend_conns \<times> (nat \<times> action) list \<times> bool) result" where
  "backend_accept_handler now ec peer sock conns =
     (if ec then Inr (conns, [], False)
      else if \<not> peer then Inl SystemError
      else
        rbind (start now (new_connection sock now)) (\<lambda>(new_c, acts).
        Inr (conns @ [new_c], map (Pair (length conns)) acts, True)))"

definition on_check_timeout :: "error_code \<Rightarrow> backend_conns \<Rightarrow> backend_conns" where
  "on_check_timeout e conns =
     (if e \<noteq> OperationAborted then
        if conns = [] then conns
        else
          let all_ok = list_all (\<lambda>item. stats item \<noteq> conn_error) conns in
          if all_ok then conns
          else fold (\<lambda>item new_store. if stats item = conn_error then new_store else new_store @ [item])
                 conns []
      else conns)"

record conns_info =
  total_cnt :: nat
  work_cnt :: nat
  pend_cnt :: nat
  err_cnt :: nat

definition count_conn :: "connection_stats \<Rightarrow> conns_info \<Rightarrow> conns_info" where
  "count_conn st info =
     (let info = (if st = conn_working then info\<lparr>work_cnt := work_cnt info + 1\<rparr> else info);
          info = (if st = conn_pending then info\<lparr>pend_cnt := pend_cnt info + 1\<rparr> else info);
          info = (if st = conn_error then info\<lparr>err_cnt := err_cnt info + 1\<rparr> else info)
      in info\<lparr>total_cnt := total_cnt info + 1\<rparr>)"

definition backend_conns_info :: "backend_conns \<Rightarrow> conns_info" where
  "backend_conns_info conns =
     fold (\<lambda>item. count_conn (stats item)) conns
       \<lparr> total_cnt = 0, work_cnt = 0, pend_cnt = 0, err_cnt = 0 \<rparr>"

section \<open>Selection\<close>

text \<open>The order in which the ring is searched, from the connection the site maps to.\<close>

definition ring :: "nat \<Rightarrow> nat \<Rightarrow> nat list" where
  "ring first n = map (\<lambda>k. (first + k) mod n) [0..<n]"

lemma ring_search_find:
  assumes "k < n" and "flag < n"
  shows "ring_search working n flag ((flag + k) mod n) =
    Some (find working (map (\<lambda>j. (flag + j) mod n) [Suc k..<Suc n]))"
  using assms(1)
proof (induction "n - k" arbitrary: k)
  case (Suc d)
  define i where "i = (flag + Suc k) mod n"
  have i: "((flag + k) mod n + 1) mod n = i" by (simp add: i_def mod_Suc_eq)
  have l: "[Suc k..<Suc n] = Suc k # [Suc (Suc k)..<Suc n]" using Suc.prems by (simp add: upt_rec)
  show ?case
  proof (cases "working i")
    case True
    with l i show ?thesis by (subst ring_search.simps) (simp add: i_def Let_def)
  next
    case nw: False
    show ?thesis
    proof (cases "Suc k = n")
      case True
      then have "i = flag" using assms(2) by (simp add: i_def)
      with nw l i True show ?thesis by (subst ring_search.simps) (simp add: i_def Let_def)
    next
      case False
      with Suc.prems have k: "Suc k < n" by simp
      have "i \<noteq> flag"
      proof
        assume "i = flag"
        then have "(flag + Suc k) mod n = flag mod n" using assms(2) by (simp add: i_def)
        then have "n dvd Suc k" by (metis add_diff_cancel_left' le_add1 mod_eq_dvd_iff_nat)
        with k show False by (auto dest: dvd_imp_le)
      qed
      moreover have "ring_search working n flag ((flag + Suc k) mod n) =
          Some (find working (map (\<lambda>j. (flag + j) mod n) [Suc (Suc k)..<Suc n]))"
        using Suc.hyps k by (intro Suc.hyps(1)) auto
      ultimately show ?thesis using nw l i
        by (subst ring_search.simps) (simp add: i_def Let_def)
    qed
  qed
qed simp

lemma find_snoc: "find P (xs @ [x]) = (case find P xs of Some y \<Rightarrow> Some y | None \<Rightarrow> if P x then Some x else None)"
  by (induction xs) auto

lemma require_backend_conn_eq:
  "require_backend_conn site_id conns =
     Some (find (\<lambda>i. stats (conns ! i) = conn_working) (ring (unat site_id mod length conns) (length conns)))"
proof (cases "conns = []")
  case False
  define n where "n = length conns"
  define first where "first = unat site_id mod n"
  define working where "working = (\<lambda>i. stats (conns ! i) = conn_working)"
  from False have n: "0 < n" and f: "first < n" by (simp_all add: n_def first_def)
  have r: "ring first n = first # map (\<lambda>k. (first + k) mod n) [1..<n]"
    using n f by (simp add: ring_def upt_conv_Cons)
  show ?thesis
  proof (cases "working first")
    case True
    with n r show ?thesis
      by (simp add: require_backend_conn_def n_def first_def working_def)
  next
    case nw: False
    have "ring_search working n first first = Some (find working (map (\<lambda>j. (first + j) mod n) [1..<Suc n]))"
      using ring_search_find [of 0 n first working] n f by simp
    also have "map (\<lambda>j. (first + j) mod n) [1..<Suc n] = map (\<lambda>j. (first + j) mod n) [1..<n] @ [first]"
      using n f by simp
    finally have "ring_search working n first first = Some (find working (ring first n))"
      using nw r by (simp add: find_snoc split: option.split)
    with nw n show ?thesis
      by (simp add: require_backend_conn_def n_def first_def working_def)
  qed
qed (simp add: require_backend_conn_def ring_def)

text \<open>C13: \<open>require_backend_conn\<close> always returns, and returns the first working connection in
  the ring that starts where the site id points: the null pointer only when no connection works.\<close>

theorem require_backend_conn_is_first_working:
  "require_backend_conn site_id conns =
     Some (find (\<lambda>i. stats (conns ! i) = conn_working) (ring (unat site_id mod length conns) (length conns)))"
  by (rule require_backend_conn_eq)

text \<open>
  What a client of the selection may rely on: it returns, it returns a working connection of
  the vector, and the null pointer only when none works.
\<close>

locale backend_selector =
  fixes select :: "u64 \<Rightarrow> backend_conns \<Rightarrow> nat option option"
  assumes select_returns: "\<exists>r. select site_id conns = Some r"
    and select_working:
      "select site_id conns = Some (Some i) \<Longrightarrow> i < length conns \<and> stats (conns ! i) = conn_working"
    and select_null:
      "select site_id conns = Some None \<Longrightarrow> c \<in> set conns \<Longrightarrow> stats c \<noteq> conn_working"
begin

lemma select_null_iff:
  "the (select site_id conns) = None \<longleftrightarrow> (\<forall>c \<in> set conns. stats c \<noteq> conn_working)"
proof -
  obtain r where r: "select site_id conns = Some r" using select_returns by blast
  show ?thesis
  proof (cases r)
    case None
    with r show ?thesis using select_null by auto
  next
    case (Some i)
    with r select_working [of site_id conns i] show ?thesis by auto
  qed
qed

text \<open>A message that goes through the selection is written at once: the connection that is
  returned never refuses it.\<close>

lemma selected_writes:
  assumes "the (select site_id conns) = Some i" and "\<forall>c \<in> set conns. p_sock c \<noteq> None"
    and "len = of_nat (length data)" and "data \<noteq> []" and "length data < 2 ^ 63"
  shows "i < length conns \<and> (\<exists>c' n. fill_and_send now (Some (data @ rest)) len (conns ! i) =
      Inr (c', [AsyncWriteSome n]) \<and> length data \<le> n \<and> take (length data) (p_write c') = data \<and> w_size c' = len)"
proof -
  have "select site_id conns = Some (Some i)" using assms(1) select_returns by (metis option.sel)
  then have i: "i < length conns" "stats (conns ! i) = conn_working" using select_working by blast+
  with assms(2) obtain s where "p_sock (conns ! i) = Some s" by (metis nth_mem not_None_eq)
  with i show ?thesis unfolding fill_and_send_eq [OF assms(3-5)]
    by (simp add: do_write_def keeps on_sock_def)
qed

end

lemma ring_elems: "0 < n \<Longrightarrow> set (ring first n) = {..<n}"
proof (intro set_eqI iffI)
  fix i
  assume n: "0 < n" and "i \<in> {..<n}"
  then have i: "i < n" by simp
  define k where "k = (i + (n - first mod n)) mod n"
  have "(first + k) mod n = (first mod n + (i + (n - first mod n))) mod n"
    by (simp add: k_def mod_add_right_eq mod_add_left_eq)
  also have "first mod n + (i + (n - first mod n)) = i + n"
    using mod_less_divisor [OF n, of first] by linarith
  also have "(i + n) mod n = i" using i by simp
  finally have "i = (first + k) mod n" ..
  moreover have "k < n" using n by (simp add: k_def)
  ultimately show "i \<in> set (ring first n)" by (auto simp: ring_def)
qed (auto simp: ring_def)

interpretation selection: backend_selector require_backend_conn
proof unfold_locales
  fix site_id :: u64 and conns :: backend_conns
  let ?r = "ring (unat site_id mod length conns) (length conns)"
  note spec = require_backend_conn_eq [of site_id conns]
  show "\<exists>r. require_backend_conn site_id conns = Some r" by (simp add: spec)
  fix i
  assume "require_backend_conn site_id conns = Some (Some i)"
  then have f: "find (\<lambda>i. stats (conns ! i) = conn_working) ?r = Some i" by (simp add: spec)
  then have "i \<in> set ?r" and w: "stats (conns ! i) = conn_working"
    by (auto simp: find_Some_iff)
  moreover have "0 < length conns" using f by (auto simp: ring_def intro: gr0I)
  ultimately show "i < length conns \<and> stats (conns ! i) = conn_working" using ring_elems by blast
next
  fix site_id :: u64 and conns :: backend_conns and c
  assume "require_backend_conn site_id conns = Some None" and c: "c \<in> set conns"
  then have "find (\<lambda>i. stats (conns ! i) = conn_working)
      (ring (unat site_id mod length conns) (length conns)) = None"
    by (simp add: require_backend_conn_eq)
  moreover obtain i where "i < length conns" "c = conns ! i" using c by (auto simp: in_set_conv_nth)
  moreover have "0 < length conns" using c by auto
  ultimately show "stats c \<noteq> conn_working" using ring_elems by (auto simp: find_None_iff)
qed

lemma push_backend_cases:
  assumes "\<forall>c \<in> set conns. p_sock c \<noteq> None"
    and "len = of_nat (length data)" and "data \<noteq> []" and "length data < 2 ^ 63"
  shows "if \<forall>c \<in> set conns. stats c \<noteq> conn_working
    then push_backend now site_id (Some (data @ rest)) len conns = Inr (conns, [])
    else \<exists>i c' n. i < length conns \<and> stats (conns ! i) = conn_working \<and>
      push_backend now site_id (Some (data @ rest)) len conns = Inr (conns[i := c'], [(i, AsyncWriteSome n)]) \<and>
      length data \<le> n \<and> take (length data) (p_write c') = data \<and> w_size c' = len"
proof (cases "the (require_backend_conn site_id conns)")
  case None
  moreover from this have "\<forall>c \<in> set conns. stats c \<noteq> conn_working" by (simp only: selection.select_null_iff)
  ultimately show ?thesis by (simp add: push_backend_def)
next
  case (Some i)
  from selection.selected_writes [OF Some assms] obtain c' n where i: "i < length conns"
    and "fill_and_send now (Some (data @ rest)) len (conns ! i) = Inr (c', [AsyncWriteSome n])"
    and "length data \<le> n \<and> take (length data) (p_write c') = data \<and> w_size c' = len" by blast
  moreover have "stats (conns ! i) = conn_working"
    using selection.select_working selection.select_returns Some by (metis option.sel)
  moreover have "\<not> (\<forall>c \<in> set conns. stats c \<noteq> conn_working)" using calculation i nth_mem by blast
  ultimately show ?thesis using Some by (auto simp: push_backend_def)
qed

text \<open>C14: A message for the backend is written on one connection, a working one, complete and at
  the front of its buffer, with every other connection untouched; and it is dropped without a
  trace exactly when no connection works.\<close>

theorem push_backend_dispatch:
  assumes "\<forall>c \<in> set conns. p_sock c \<noteq> None"
    and "len = of_nat (length data)" and "data \<noteq> []" and "length data < 2 ^ 63"
  shows "if \<forall>c \<in> set conns. stats c \<noteq> conn_working
    then push_backend now site_id (Some (data @ rest)) len conns = Inr (conns, [])
    else \<exists>i c' n. i < length conns \<and> stats (conns ! i) = conn_working \<and>
      push_backend now site_id (Some (data @ rest)) len conns = Inr (conns[i := c'], [(i, AsyncWriteSome n)]) \<and>
      length data \<le> n \<and> take (length data) (p_write c') = data \<and> w_size c' = len"
  using assms by (rule push_backend_cases)

theorem push_backend_dispatch_witness:
  "\<exists>conns i c' n. map stats conns = [conn_error, conn_working] \<and>
     push_backend 5 6 (Some ''{}'') 2 conns = Inr (conns[i := c'], [(i, AsyncWriteSome n)]) \<and>
     take (length ''{}'') (p_write c') = ''{}''"
proof -
  define conns where
    "conns = [(new_connection 1 0)\<lparr>stats := conn_error\<rparr>, (new_connection 2 0)\<lparr>stats := conn_working\<rparr>]"
  have p: "\<forall>c \<in> set conns. p_sock c \<noteq> None" and m: "map stats conns = [conn_error, conn_working]"
    and w: "\<not> (\<forall>c \<in> set conns. stats c \<noteq> conn_working)"
    by (simp_all add: conns_def new_connection_def)
  have l: "2 = (of_nat (length ''{}'') :: u64)" "''{}'' \<noteq> []" "length ''{}'' < 2 ^ 63" by simp_all
  from push_backend_dispatch [OF p l, of 5 6 "''''"]
  obtain i c' n where "push_backend 5 6 (Some (''{}'' @ [])) 2 conns = Inr (conns[i := c'], [(i, AsyncWriteSome n)])"
    "take (length ''{}'') (p_write c') = ''{}''"
    unfolding if_not_P [OF w] by blast
  with m show ?thesis unfolding append_Nil2 by (intro exI [of _ conns] exI [of _ i] exI [of _ c'] exI [of _ n] conjI)
qed

lemma on_check_timeout_eq:
  "on_check_timeout e conns =
     (if e = OperationAborted then conns else filter (\<lambda>c. stats c \<noteq> conn_error) conns)"
proof -
  have "fold (\<lambda>item new_store. if stats item = conn_error then new_store else new_store @ [item]) conns acc
      = acc @ filter (\<lambda>c. stats c \<noteq> conn_error) conns" for acc
    by (induction conns arbitrary: acc) auto
  then show ?thesis by (auto simp: on_check_timeout_def Let_def list_all_iff filter_id_conv)
qed

text \<open>The periodic check removes the connections in error and only those, keeping the order of
  the rest, and it leaves the vector alone when its timer was cancelled.\<close>

theorem on_check_timeout_removes_errors:
  "on_check_timeout e conns =
     (if e = OperationAborted then conns else filter (\<lambda>c. stats c \<noteq> conn_error) conns)"
  by (rule on_check_timeout_eq)

text \<open>The statistics count every connection once: the three states add up to the total.\<close>

theorem backend_conns_info_counts:
  "backend_conns_info conns =
     \<lparr> total_cnt = length conns,
       work_cnt = length (filter (\<lambda>c. stats c = conn_working) conns),
       pend_cnt = length (filter (\<lambda>c. stats c = conn_pending) conns),
       err_cnt = length (filter (\<lambda>c. stats c = conn_error) conns) \<rparr>
   \<and> total_cnt (backend_conns_info conns) = work_cnt (backend_conns_info conns) +
       pend_cnt (backend_conns_info conns) + err_cnt (backend_conns_info conns)"
proof -
  have "fold (\<lambda>item. count_conn (stats item)) conns \<lparr> total_cnt = t, work_cnt = w, pend_cnt = p, err_cnt = e \<rparr> =
     \<lparr> total_cnt = t + length conns,
       work_cnt = w + length (filter (\<lambda>c. stats c = conn_working) conns),
       pend_cnt = p + length (filter (\<lambda>c. stats c = conn_pending) conns),
       err_cnt = e + length (filter (\<lambda>c. stats c = conn_error) conns) \<rparr>" for t w p e
    by (induction conns arbitrary: t w p e) (simp_all add: count_conn_def)
  then have i: "backend_conns_info conns =
     \<lparr> total_cnt = length conns,
       work_cnt = length (filter (\<lambda>c. stats c = conn_working) conns),
       pend_cnt = length (filter (\<lambda>c. stats c = conn_pending) conns),
       err_cnt = length (filter (\<lambda>c. stats c = conn_error) conns) \<rparr>"
    by (simp add: backend_conns_info_def)
  have "length conns = length (filter (\<lambda>c. stats c = conn_working) conns) +
      length (filter (\<lambda>c. stats c = conn_pending) conns) + length (filter (\<lambda>c. stats c = conn_error) conns)"
  proof (induction conns)
    case (Cons c conns)
    then show ?case by (cases "stats c") simp_all
  qed simp
  with i show ?thesis by simp
qed

section \<open>Receiving from a backend\<close>

text \<open>C35: On a working connection, what a backend sends is read up to its NUL, parsed, and handed to the
  front server under its session id with its NUL; a message in which one of the two ids is
  missing or zero is dropped (both must convert to 64 bits, or the cast is undefined); and the next read is
  posted in both cases. A message sent without NUL is taken together with what earlier ones left
  in the buffer.\<close>

theorem backend_message_read:
  assumes "stats c = conn_working" and "p_sock c = Some sock"
    and "NULC \<notin> set msg" and "t = [] \<or> hd t = NULC" and "msg @ t \<noteq> []" and "length (msg @ t) \<le> length (p_buffer c)"
    and "t \<noteq> [] \<or> NULC \<in> set (drop (length msg) (p_buffer c))"
    and "body = (if t = [] then msg @ c_str (drop (length msg) (p_buffer c)) else msg)"
    and "id_field (fst (parse_message errno0 body)) ''session_id'' = Inr session_id"
    and "id_field (fst (parse_message errno0 body)) ''site_id'' = Inr site_id"
  shows "\<exists>c'. receive_some (msg @ t) c = Inr c' \<and>
    backend_read_handler now errno0 NoError (length (msg @ t)) c' =
      Inr (touch_sock_time now c',
        (if session_id = 0 \<or> site_id = 0 then [] else [PushFront session_id (p_buffer c') (of_nat (length body + 1))]) @
        [AsyncReadSome (length (p_buffer c))]) \<and>
    take (length body + 1) (p_buffer c') = body @ [NULC]"
proof -
  define b where "b = msg @ t @ drop (length (msg @ t)) (p_buffer c)"
  define c' where "c' = c\<lparr>p_buffer := b\<rparr>"
  have r: "receive_some (msg @ t) c = Inr c'" using assms(6) by (simp add: receive_some_def vec_write_def b_def c'_def)
  have body: "c_str b = body"
  proof (cases t)
    case Nil
    with assms(3,8) show ?thesis unfolding c_str_def b_def by (subst append_assoc [symmetric], subst takeWhile_append2) auto
  next
    case (Cons d u)
    with assms(3,4,8) show ?thesis by (simp add: b_def)
  qed
  have nul: "NULC \<in> set b" using assms(4,7) by (cases t) (auto simp: b_def)
  have l: "length b = length (p_buffer c)" using assms(6) by (simp add: b_def)
  have "b = takeWhile (\<lambda>x. x \<noteq> NULC) b @ dropWhile (\<lambda>x. x \<noteq> NULC) b" by simp
  moreover obtain r where "dropWhile (\<lambda>x. x \<noteq> NULC) b = NULC # r"
    using nul hd_dropWhile [of "\<lambda>x. x \<noteq> NULC" b] by (cases "dropWhile (\<lambda>x. x \<noteq> NULC) b") auto
  ultimately have "b = body @ NULC # r" using body by (simp add: c_str_def)
  then have tk: "take (length body + 1) b = body @ [NULC]" by simp
  have "length (msg @ t) \<noteq> 0" using assms(5) by simp
  then have "backend_read_handler now errno0 NoError (length (msg @ t)) c' = Inr (touch_sock_time now c',
        (if session_id = 0 \<or> site_id = 0 then [] else [PushFront session_id (p_buffer c') (of_nat (length body + 1))]) @
        [AsyncReadSome (length (p_buffer c))])"
    using assms(1,2,9,10) nul l
    by (simp add: backend_read_handler_def c'_def body do_read_def on_sock_def touch_sock_time_def del: length_append)
  with r tk show ?thesis by (intro exI [of _ c']) (simp add: c'_def)
qed

text \<open>A read that fills the whole buffer without a NUL makes the handler read past the end of
  the buffer.\<close>

theorem backend_full_read_out_of_bounds:
  assumes "length bytes = length (p_buffer c)" and "NULC \<notin> set bytes" and "bytes \<noteq> []"
  shows "\<exists>c'. receive_some bytes c = Inr c' \<and>
    backend_read_handler now errno0 NoError (length bytes) c' = Inl OutOfBounds"
proof -
  from assms have "p_buffer c \<noteq> []" by auto
  with assms show ?thesis by (simp add: receive_some_def vec_write_def backend_read_handler_def)
qed

theorem backend_full_read_out_of_bounds_witness:
  "\<exists>c'. receive_some (replicate buffer_size (CHR ''x'')) (new_connection 1 0) = Inr c' \<and>
    backend_read_handler 9 False NoError buffer_size c' = Inl OutOfBounds"
  using backend_full_read_out_of_bounds [of "replicate buffer_size (CHR ''x'')" "new_connection 1 0" 9 False]
  by (simp add: new_connection_def buffer_size_def)

text \<open>C36: After an error that is not a cancellation, either handler closes the socket and marks the
  connection, and the read handler posts nothing more: the periodic check then removes it.\<close>

theorem backend_error_ends_connection:
  assumes "ec \<noteq> OperationAborted" and "ec \<noteq> NoError \<or> n = 0" and "p_sock c = Some s"
  shows "\<exists>c'. backend_read_handler now errno0 ec n c = Inr (c', [CloseSock]) \<and>
      backend_write_handler ec n c = Inr (c', [CloseSock]) \<and> stats c' = conn_error \<and>
      on_check_timeout NoError (xs @ c' # ys) = on_check_timeout NoError (xs @ ys)"
  using assms unfolding on_check_timeout_eq
  by (auto simp: backend_read_handler_def backend_write_handler_def backend_conn_error_def do_read_def on_sock_def)

theorem backend_error_ends_connection_witness:
  "\<exists>c'. backend_read_handler 3 False OtherError 0 (new_connection 1 0) = Inr (c', [CloseSock]) \<and> stats c' = conn_error"
  using backend_error_ends_connection [of OtherError 0 "new_connection 1 0" 1 3 False "[]" "[]"]
  by (auto simp: new_connection_def)

end
