(* ===== verification/Client_Ops.thy ===== *)
theory Client_Ops
  imports Connection
begin

text \<open>
  The synchronous client operations of \<open>client_ops.cpp\<close>. The socket is a parameter: a state
  \<open>'s\<close> and the blocking calls on it. A message is a decimal length, a colon and the payload.
\<close>

section \<open>The socket\<close>

text \<open>
  \<open>read_some n\<close> gives the error flag, the bytes it stored (at most \<open>n\<close>, by the documentation
  of Boost.Asio) and the socket afterwards; \<open>connect\<close> gives the error flag; \<open>write_some\<close>
  is the overload that throws, when its flag is set.
\<close>

record 's io =
  read_some :: "u64 \<Rightarrow> 's \<Rightarrow> bool \<times> string \<times> 's"
  connect :: "'s \<Rightarrow> bool \<times> 's"
  write_some :: "string \<Rightarrow> 's \<Rightarrow> bool \<times> 's"

text \<open>What became of the deadline timer of a timed operation.\<close>

datatype timer = NoTimer | TimerCancelled | TimerLeft

section \<open>Reading\<close>

definition sync_read_some :: "'s io \<Rightarrow> string \<Rightarrow> 's \<Rightarrow> (u64 \<times> string \<times> bool \<times> 's) result" where
  "sync_read_some sock read_buff s =
     (case read_some sock (of_nat (length read_buff)) s of (ec, bytes, s) \<Rightarrow>
      rbind (vec_write read_buff 0 bytes) (\<lambda>read_buff.
      if ec then Inr (0, read_buff, ec, s)
      else Inr (of_nat (length bytes), read_buff, ec, s)))"

text \<open>The loop that collects the rest of the payload; \<open>None\<close> would be a loop that never ends.\<close>

partial_function (option) read_rest ::
  "'s io \<Rightarrow> u64 \<Rightarrow> u64 \<Rightarrow> string \<Rightarrow> 's \<Rightarrow> (u64 \<times> string \<times> bool \<times> 's) result option" where
  "read_rest sock real_len actual_len read_buff s =
     (if \<not> actual_len < real_len then Some (Inr (actual_len, read_buff, False, s))
      else
        (case read_some sock (of_nat (length read_buff) - actual_len) s of (ec, bytes, s') \<Rightarrow>
         (case vec_write read_buff (unat actual_len) bytes of
            Inl e \<Rightarrow> Some (Inl e)
          | Inr read_buff' \<Rightarrow>
              if ec \<or> bytes = [] then Some (Inr (actual_len, read_buff', ec, s'))
              else read_rest sock real_len (actual_len + of_nat (length bytes)) read_buff' s')))"

definition sync_read_from ::
  "'s io \<Rightarrow> string \<Rightarrow> 's \<Rightarrow> (u64 \<times> string \<times> bool \<times> 's) result option" where
  "sync_read_from sock read_buff s =
     (case read_some sock (of_nat (length read_buff)) s of (ec, bytes, s) \<Rightarrow>
      (case vec_write read_buff 0 bytes of
         Inl e \<Rightarrow> Some (Inl e)
       | Inr read_buff \<Rightarrow>
           if ec then Some (Inr (0, read_buff, ec, s))
           else if length read_buff < 20 then Some (Inl OutOfBounds)
           else
             let len_str = c_str (take 20 read_buff) in
             (case find_char (CHR '':'') len_str of
                None \<Rightarrow> Some (Inr (0, read_buff, ec, s))
              | Some pos \<Rightarrow>
                  let real_len = atoi_size (take pos len_str) in
                  if real_len = 0 then Some (Inr (0, read_buff, ec, s))
                  else
                    let read_buff = drop (pos + 1) read_buff in
                    (case (if length read_buff < unat real_len then vec_resize (real_len + 256) read_buff
                           else Inr read_buff) of
                       Inl e \<Rightarrow> Some (Inl e)
                     | Inr read_buff \<Rightarrow>
                         read_rest sock real_len (of_nat (length bytes) - of_nat pos - 1) read_buff s))))"

section \<open>Timed variants\<close>

text \<open>\<open>expired\<close> is the outcome of comparing the timer's expiry with the clock afterwards.\<close>

definition timed :: "nat \<Rightarrow> bool \<Rightarrow> timer" where
  "timed time_ms expired =
     (if time_ms = 0 then NoTimer else if \<not> expired then TimerCancelled else TimerLeft)"

definition sync_timed_connect :: "'s io \<Rightarrow> nat \<Rightarrow> bool \<Rightarrow> 's \<Rightarrow> bool \<times> 's \<times> timer" where
  "sync_timed_connect sock time_ms expired s =
     (case connect sock s of (ec, s) \<Rightarrow> (ec, s, timed time_ms expired))"

definition sync_timed_read_from ::
  "'s io \<Rightarrow> string \<Rightarrow> nat \<Rightarrow> bool \<Rightarrow> 's \<Rightarrow> (u64 \<times> string \<times> bool \<times> 's) result option \<times> timer" where
  "sync_timed_read_from sock read_buff time_ms expired s =
     (sync_read_from sock read_buff s, timed time_ms expired)"

definition sync_timed_read_some ::
  "'s io \<Rightarrow> string \<Rightarrow> nat \<Rightarrow> bool \<Rightarrow> 's \<Rightarrow> (u64 \<times> string \<times> bool \<times> 's) result \<times> timer" where
  "sync_timed_read_some sock read_buff time_ms expired s =
     (sync_read_some sock read_buff s, timed time_ms expired)"

section \<open>The loop ends\<close>

lemma read_rest_stop:
  "\<not> actual_len < real_len \<Longrightarrow>
   read_rest sock real_len actual_len read_buff s = Some (Inr (actual_len, read_buff, False, s))"
  by (subst read_rest.simps) simp

lemma read_rest_round:
  assumes "actual_len < real_len"
    and "read_some sock (of_nat (length read_buff) - actual_len) s = (ec, bytes, s')"
  shows "read_rest sock real_len actual_len read_buff s =
    (case vec_write read_buff (unat actual_len) bytes of
       Inl e \<Rightarrow> Some (Inl e)
     | Inr b \<Rightarrow> if ec \<or> bytes = [] then Some (Inr (actual_len, b, ec, s'))
               else read_rest sock real_len (actual_len + of_nat (length bytes)) b s')"
  using assms by (subst read_rest.simps) simp

lemma read_rest_returns:
  assumes "length read_buff < 2 ^ 63"
  shows "\<exists>r. read_rest sock real_len actual_len read_buff s = Some r"
  using assms
proof (induction "length read_buff - unat actual_len" arbitrary: actual_len read_buff s rule: less_induct)
  case less
  show ?case
  proof (cases "actual_len < real_len")
    case True
    obtain ec bytes s' where r: "read_some sock (of_nat (length read_buff) - actual_len) s = (ec, bytes, s')"
      by (cases "read_some sock (of_nat (length read_buff) - actual_len) s") auto
    show ?thesis
    proof (cases "vec_write read_buff (unat actual_len) bytes")
      case (Inr b)
      then have fits: "unat actual_len + length bytes \<le> length read_buff"
        by (simp add: vec_write_def split: if_splits)
      from Inr have l: "length b = length read_buff" by (rule vec_write_length)
      show ?thesis
      proof (cases "ec \<or> bytes = []")
        case False
        have "unat (of_nat (length bytes) :: u64) = length bytes"
          using fits less.prems by (intro unat_of_nat_small) simp
        moreover have "unat actual_len + length bytes < 2 ^ 64" using fits less.prems by simp
        ultimately have "unat (actual_len + of_nat (length bytes)) = unat actual_len + length bytes"
          by (simp add: unat_word_ariths)
        with False fits l less.prems have "\<exists>r. read_rest sock real_len (actual_len + of_nat (length bytes)) b s' = Some r"
          by (intro less.hyps) (cases bytes; simp)+
        with False Inr show ?thesis unfolding read_rest_round [OF True r] by simp
      qed (simp add: read_rest_round [OF True r] Inr)
    qed (simp add: read_rest_round [OF True r])
  qed (simp add: read_rest_stop)
qed

text \<open>\<open>sync_read_from\<close> always returns, whatever the peer sends and however it is cut into
  reads: every round of its loop either stops or stores more bytes.\<close>

theorem sync_read_from_returns:
  assumes "length read_buff < 2 ^ 62"
  shows "\<exists>r. sync_read_from sock read_buff s = Some r"
proof -
  obtain ec bytes s' where r: "read_some sock (of_nat (length read_buff)) s = (ec, bytes, s')"
    by (cases "read_some sock (of_nat (length read_buff)) s") auto
  have "length b < 2 ^ 63" if "vec_resize n v = Inr b" for n v b
    using that vec_resize_length [OF that] by (auto simp: vec_resize_def split: if_splits)
  moreover have "length b < 2 ^ 63" if "vec_write read_buff 0 bytes = Inr b" for b
    using assms vec_write_length [OF that] by simp
  ultimately show ?thesis
    using r by (auto simp: sync_read_from_def Let_def split: sum.splits option.splits if_splits
      intro!: read_rest_returns)
qed

section \<open>A message in pieces\<close>

text \<open>A peer that sends these pieces and then closes; every read takes at most one piece.\<close>

definition piece_io :: "string list io" where
  "piece_io =
     \<lparr> read_some = (\<lambda>n s. case s of
          [] \<Rightarrow> (True, [], [])
        | p # ps \<Rightarrow> if length p \<le> unat n then (False, p, ps) else (False, take (unat n) p, drop (unat n) p # ps)),
       connect = (\<lambda>s. (False, s)), write_some = (\<lambda>_ s. (False, s)) \<rparr>"

lemma piece_read: "length p \<le> unat n \<Longrightarrow> read_some piece_io n (p # ps) = (False, p, ps)"
  by (simp add: piece_io_def)

lemma unat_diff_of_nat:
  "a \<le> b \<Longrightarrow> b < 2 ^ 63 \<Longrightarrow> unat (of_nat b - of_nat a :: u64) = b - a"
  by (metis of_nat_diff le_less_trans diff_le_self unat_of_nat_small)

lemma read_rest_pieces:
  assumes "\<forall>p \<in> set ps. p \<noteq> []" and "concat ps = drop a body" and "a \<le> length body"
    and "length body \<le> length buf" and "length buf < 2 ^ 63" and "take a buf = take a body"
  shows "\<exists>buf'. read_rest piece_io (of_nat (length body)) (of_nat a) buf ps =
      Some (Inr (of_nat (length body), buf', False, [])) \<and> take (length body) buf' = body"
  using assms
proof (induction ps arbitrary: a buf)
  case Nil
  then show ?case by (auto simp: read_rest_stop)
next
  case (Cons p ps)
  define n where "n = length body"
  from Cons.prems have p: "p \<noteq> []" and body: "drop a body = p @ concat ps" by auto
  then have len: "a + length p \<le> n"
    using Cons.prems(3) length_drop [of a body] by (simp add: n_def)
  have small: "unat (of_nat a :: u64) = a" "unat (of_nat n :: u64) = n" "unat (of_nat (length p) :: u64) = length p"
    using Cons.prems(4,5) len by (auto simp: n_def intro!: unat_of_nat_small)
  have "a < n" using p len by (cases p) auto
  then have lt: "(of_nat a :: u64) < of_nat n" by (simp only: word_less_nat_alt small)
  have "unat (of_nat (length buf) - of_nat a :: u64) = length buf - a"
    using Cons.prems(3-5) by (intro unat_diff_of_nat) auto
  then have rd: "read_some piece_io (of_nat (length buf) - of_nat a) (p # ps) = (False, p, ps)"
    using len Cons.prems(4) n_def by (intro piece_read) simp
  define buf1 where "buf1 = take a buf @ p @ drop (a + length p) buf"
  have w: "vec_write buf (unat (of_nat a :: u64)) p = Inr buf1"
    using len Cons.prems(4) by (simp add: vec_write_def small buf1_def n_def)
  have "\<exists>buf'. read_rest piece_io (of_nat n) (of_nat (a + length p)) buf1 ps =
      Some (Inr (of_nat n, buf', False, [])) \<and> take n buf' = body"
    unfolding n_def
  proof (rule Cons.IH)
    show "concat ps = drop (a + length p) body" using body by (simp add: drop_append_ge)
    have l: "length buf1 = length buf" using w by (rule vec_write_length)
    with Cons.prems show "length body \<le> length buf1" "length buf1 < 2 ^ 63" by simp_all
    show "a + length p \<le> length body" using len n_def by simp
    have "take a buf @ p = take (a + length p) body"
      using Cons.prems(6) body len by (simp add: take_add n_def)
    moreover have "length (take a buf @ p) = a + length p" using len Cons.prems(4) n_def by simp
    ultimately show "take (a + length p) buf1 = take (a + length p) body"
      unfolding buf1_def append_assoc [symmetric] by (metis append_eq_conv_conj)
  qed (use Cons.prems in auto)
  then show ?case
    using lt p unfolding read_rest_round [OF lt [unfolded n_def] rd] w n_def by simp
qed

text \<open>C21: When the first read brings the whole length prefix with its colon and fits into the
  caller's buffer of at least 20 bytes, a length-prefixed message of 1 to \<open>2 ^ 31 - 1\<close> bytes is
  received complete and in order, in whatever pieces the rest of the payload arrives; the buffer
  grows when it is too small. A prefix that is cut is not put together: see
  \<open>sync_read_from_stale_colon\<close>.\<close>

theorem sync_read_from_message:
  assumes "concat (first # ps) = show_nat (length body) @ CHR '':'' # body"
    and "length (show_nat (length body)) < length first" and "\<forall>p \<in> set ps. p \<noteq> []"
    and "0 < length body" and "length body < 2 ^ 31"
    and "20 \<le> length read_buff" and "length first \<le> length read_buff" and "length read_buff < 2 ^ 62"
  shows "\<exists>buf. sync_read_from piece_io read_buff (first # ps) =
      Some (Inr (of_nat (length body), buf, False, [])) \<and> take (length body) buf = body"
proof -
  define n where "n = length body"
  define pos where "pos = length (show_nat n)"
  obtain got where first: "first = show_nat n @ CHR '':'' # got" and rest: "got @ concat ps = body"
  proof -
    have f: "take pos first = show_nat n" "drop pos (first @ concat ps) = CHR '':'' # body"
      using assms(1,2) by (simp_all add: pos_def n_def append_eq_append_conv_if)
    with assms(2) have "drop pos first @ concat ps = CHR '':'' # body" by (simp add: pos_def n_def)
    moreover have "drop pos first \<noteq> []" using assms(2) by (simp add: pos_def n_def)
    ultimately obtain got where "drop pos first = CHR '':'' # got" "got @ concat ps = body"
      by (cases "drop pos first") auto
    with f show thesis by (metis append_take_drop_id that)
  qed
  have "length (show_nat n) \<le> 10" using assms(5) by (intro length_show_nat) (simp_all add: n_def)
  then have pos: "pos \<le> 10" by (simp add: pos_def)
  have plain: "NULC \<notin> set (show_nat n)" "CHR '':'' \<notin> set (show_nat n)"
    using show_nat_digits [of NULC n] show_nat_digits [of "CHR '':''" n]
    by (auto simp: is_digit_def byte_def)
  have rd: "read_some piece_io (of_nat (length read_buff)) (first # ps) = (False, first, ps)"
    using assms(7,8) by (intro piece_read) simp
  define b0 where "b0 = first @ drop (length first) read_buff"
  have w0: "vec_write read_buff 0 first = Inr b0" and l0: "length b0 = length read_buff"
    using assms(7) by (simp_all add: vec_write_def b0_def)
  obtain z where z: "c_str (take 20 b0) = show_nat n @ CHR '':'' # z"
  proof -
    have s20: "20 - pos = Suc (19 - pos)" using pos by simp
    have "take 20 b0 = show_nat n @ take (20 - pos) (CHR '':'' # got @ drop (length first) read_buff)"
      using pos by (simp add: b0_def first pos_def)
    also have "take (20 - pos) (CHR '':'' # got @ drop (length first) read_buff) =
        CHR '':'' # take (19 - pos) (got @ drop (length first) read_buff)"
      unfolding s20 by (rule take_Suc_Cons)
    finally have "take 20 b0 = (show_nat n @ [CHR '':'']) @ take (19 - pos) (got @ drop (length first) read_buff)"
      by simp
    moreover have "takeWhile (\<lambda>c. c \<noteq> NULC) ((show_nat n @ [CHR '':'']) @ y) =
        (show_nat n @ [CHR '':'']) @ takeWhile (\<lambda>c. c \<noteq> NULC) y" for y
      using plain by (intro takeWhile_append2) auto
    ultimately show thesis using that unfolding c_str_def by simp
  qed
  have fc: "find_char (CHR '':'') (show_nat n @ CHR '':'' # z) = Some pos"
    unfolding pos_def by (rule find_char_first [OF plain(2)])
  have ri: "atoi_size (take pos (show_nat n @ CHR '':'' # z)) = of_nat n"
    using assms(5) by (simp add: pos_def n_def atoi_size_show_nat)
  have n: "unat (of_nat n :: u64) = n" "(of_nat n :: u64) \<noteq> 0"
    using assms(4,5) unat_of_nat_small [of n] by (auto simp: n_def simp del: unat_of_nat_small)
  have n256: "unat (of_nat n + 256 :: u64) = n + 256"
    using unat_of_nat_small [of "n + 256"] assms(5) by (simp add: n_def)
  define b1 where "b1 = drop (pos + 1) b0"
  have b1: "b1 = got @ drop (length first) read_buff" by (simp add: b1_def b0_def first pos_def)
  obtain b2 where b2: "(if length b1 < unat (of_nat n :: u64) then vec_resize (of_nat n + 256) b1 else Inr b1) = Inr b2"
    and b2l: "n \<le> length b2" "length b2 < 2 ^ 63" and b2t: "take (length got) b2 = got"
  proof (cases "length b1 < n")
    case True
    moreover have "n < 2 ^ 31" using assms(5) by (simp add: n_def)
    ultimately show thesis using that [of "take (n + 256) b1 @ replicate (n + 256 - length b1) NULC"]
      by (simp add: vec_resize_def n n256 b1)
  next
    case False
    moreover have "length b1 < 2 ^ 63" using assms(8) l0 by (simp add: b1_def)
    moreover have "take (length got) b1 = got" by (simp add: b1)
    ultimately show thesis using that [of b1] by (simp add: n)
  qed
  have len: "of_nat (length first) - of_nat pos - 1 = (of_nat (length got) :: u64)"
    by (simp add: first pos_def)
  have "\<exists>buf'. read_rest piece_io (of_nat n) (of_nat (length got)) b2 ps =
      Some (Inr (of_nat n, buf', False, [])) \<and> take n buf' = body"
    unfolding n_def
    using assms(3) rest b2l b2t by (intro read_rest_pieces) (auto simp: n_def)
  moreover have "\<not> length b0 < 20" using assms(6) l0 by simp
  then have "sync_read_from piece_io read_buff (first # ps) =
      read_rest piece_io (of_nat n) (of_nat (length got)) b2 ps"
    using n(2) unfolding sync_read_from_def rd prod.case w0 sum.case if_False Let_def z fc option.case ri
      b1_def [symmetric] b2 len by simp
  ultimately show ?thesis unfolding n_def by simp
qed

theorem sync_read_from_message_witness:
  "\<exists>buf. sync_read_from piece_io (replicate 32 NULC) [''5:he'', ''l'', ''lo''] =
      Some (Inr (of_nat (length ''hello''), buf, False, [])) \<and> take (length ''hello'') buf = ''hello''"
proof -
  have s: "show_nat (length ''hello'') = ''5''" by code_simp
  show ?thesis by (rule sync_read_from_message) (simp_all only: s, simp_all)
qed

theorem sync_read_from_returns_witness:
  "\<exists>r. sync_read_from piece_io [] [] = Some r"
  using sync_read_from_returns [of "[]" piece_io "[]"] by simp

text \<open>When the first read ends before the colon and the caller's buffer still holds one from
  an earlier message, the stale colon is taken for the prefix's: the payload length underflows
  and the call reports nearly \<open>2 ^ 64\<close> bytes, without an error.\<close>

theorem sync_read_from_stale_colon:
  assumes "read_some sock (of_nat (length read_buff)) s = (False, bytes, s')"
    and "bytes @ drop (length bytes) read_buff = pre @ CHR '':'' # post"
    and "length bytes \<le> length pre" and "length pre < 20" and "20 \<le> length read_buff"
    and "NULC \<notin> set pre" and "CHR '':'' \<notin> set pre" and "length bytes \<le> length read_buff"
    and "length read_buff < 2 ^ 62" and "0 < unat (atoi_size pre)" and "unat (atoi_size pre) < 2 ^ 31"
  shows "\<exists>buf. sync_read_from sock read_buff s =
    Some (Inr (- of_nat (length pre + 1 - length bytes), buf, False, s'))"
proof -
  define b0 where "b0 = pre @ CHR '':'' # post"
  define pos where "pos = length pre"
  define r where "r = atoi_size pre"
  have w0: "vec_write read_buff 0 bytes = Inr b0"
    using assms(2,8) by (simp add: vec_write_def b0_def)
  have l0: "length b0 = length read_buff" using w0 by (rule vec_write_length)
  have "take 20 b0 = pre @ CHR '':'' # take (19 - pos) post"
  proof -
    have "20 - pos = Suc (19 - pos)" using assms(4) by (simp add: pos_def)
    then show ?thesis using assms(4) by (simp add: b0_def pos_def)
  qed
  then have "take 20 b0 = (pre @ [CHR '':'']) @ take (19 - pos) post" by simp
  moreover have "takeWhile (\<lambda>c. c \<noteq> NULC) ((pre @ [CHR '':'']) @ y) =
      (pre @ [CHR '':'']) @ takeWhile (\<lambda>c. c \<noteq> NULC) y" for y
    using assms(6) by (intro takeWhile_append2) auto
  ultimately obtain z where z: "c_str (take 20 b0) = pre @ CHR '':'' # z"
    unfolding c_str_def by simp
  have fc: "find_char (CHR '':'') (pre @ CHR '':'' # z) = Some pos"
    unfolding pos_def by (rule find_char_first [OF assms(7)])
  have ri: "atoi_size (take pos (pre @ CHR '':'' # z)) = r" by (simp add: pos_def r_def)
  have r: "r \<noteq> 0" using assms(10) by (auto simp: r_def)
  have r31: "unat r < 2 ^ 31" using assms(11) by (simp add: r_def)
  then have "unat (r + 256) = unat r + 256" by (simp add: unat_word_ariths)
  then obtain b2 where b2: "(if length (drop (pos + 1) b0) < unat r then vec_resize (r + 256) (drop (pos + 1) b0)
      else Inr (drop (pos + 1) b0)) = Inr b2"
    using r31 by (cases "length (drop (pos + 1) b0) < unat r") (auto simp: vec_resize_def)
  define k where "k = pos + 1 - length bytes"
  have k: "0 < k" "k \<le> 20" using assms(3,4) by (auto simp: k_def pos_def)
  have len: "of_nat (length bytes) - of_nat pos - 1 = (- of_nat k :: u64)"
    using assms(3) by (simp add: k_def pos_def of_nat_diff)
  have "(of_nat (2 ^ 64 - k) :: u64) = of_nat (2 ^ 64) - of_nat k" using k by (intro of_nat_diff) simp
  then have "(- of_nat k :: u64) = of_nat (2 ^ 64 - k)" by simp
  then have "unat (- of_nat k :: u64) = 2 ^ 64 - k"
    using k by (simp only: unat_of_nat) simp
  then have "\<not> (- of_nat k :: u64) < r"
    using assms(11) k by (simp add: word_less_nat_alt r_def)
  then have "read_rest sock r (- of_nat k) b2 s' = Some (Inr (- of_nat k, b2, False, s'))"
    by (rule read_rest_stop)
  moreover have "\<not> length b0 < 20" using assms(5) l0 by simp
  then have "sync_read_from sock read_buff s = read_rest sock r (- of_nat k) b2 s'"
    using r unfolding sync_read_from_def assms(1) prod.case w0 sum.case if_False Let_def z fc option.case ri
      b2 len by simp
  ultimately show ?thesis unfolding k_def pos_def by simp
qed

theorem sync_read_from_stale_colon_witness:
  "\<exists>buf. sync_read_from piece_io (''12:stale message.....'') [''9''] =
    Some (Inr (- 2, buf, False, []))"
proof -
  have "show_nat 92 = ''92''" by code_simp
  then have "atoi_size ''92'' = 92" using atoi_size_show_nat [of 92] by simp
  then show ?thesis
    using sync_read_from_stale_colon [of piece_io "''12:stale message.....''" "[''9'']" "''9''" "[]"
        "''92''" "''stale message.....''"]
    by (simp add: piece_io_def)
qed

end
