(* ===== verification/Front_Conn.thy ===== *)
theory Front_Conn
  imports Backend Client_Ops
begin

text \<open>
  \<open>front_conn.hpp\<close> and \<open>front_conn.cpp\<close>: a client's connection. Its handlers read a request
  head, then the body, and answer; the path \<open>/bb\<close> forwards the body to the backend and answers
  with a page it fetches from an upstream server. A handler is a function of the object, the
  completion (error code and byte count) and an environment.
\<close>

section \<open>State and environment\<close>

record front_conn = connection +
  request :: string        \<comment> \<open>the contents of the streambuf \<open>request_\<close>\<close>
  parser :: options        \<comment> \<open>\<open>parser_\<close>, its options map\<close>
  strand :: bool           \<comment> \<open>\<open>strand_\<close> is not null\<close>

text \<open>
  What a handler takes from outside: Boost's algorithms, the clock, the printed date, whether
  this thread's \<open>errno\<close> is \<open>ERANGE\<close>, and the upstream server.
\<close>

record 's env =
  algo :: boost
  now :: int
  date :: string
  stale_errno :: bool
  upstream :: "'s io"
  upstream_state :: 's

text \<open>The members as the constructor initialises them, and the constructor itself, which also
  disables Nagle's algorithm: the two system calls of that may throw.\<close>

definition fresh_front_conn :: "nat \<Rightarrow> int \<Rightarrow> front_conn" where
  "fresh_front_conn sock t =
     connection.extend (new_connection sock t) \<lparr> request = [], parser = [], strand = True \<rparr>"

definition new_front_conn :: "unit sock_option \<Rightarrow> nat \<Rightarrow> int \<Rightarrow> front_conn result" where
  "new_front_conn no_delay sock t =
     rbind (set_tcp_nodelay no_delay True ()) (\<lambda>_. Inr (fresh_front_conn sock t))"

definition front_stop :: "front_conn \<Rightarrow> front_conn" where
  "front_stop c = c\<lparr>stats := conn_pending\<rparr>"

section \<open>Posting operations\<close>

text \<open>An asynchronous call through \<open>p_sock_\<close> with a handler wrapped by \<open>strand_\<close>.\<close>

definition post :: "action \<Rightarrow> front_conn \<Rightarrow> front_conn outcome" where
  "post act c = (if p_sock c = None \<or> \<not> strand c then Inl NullPointer else Inr (c, [act]))"

definition do_read_head :: "'s env \<Rightarrow> front_conn \<Rightarrow> front_conn outcome" where
  "do_read_head env c =
     (if stats c \<noteq> conn_working then Inr (c, [])
      else post AsyncReadUntil (touch_sock_time (now env) c))"

definition front_start :: "'s env \<Rightarrow> front_conn \<Rightarrow> front_conn outcome" where
  "front_start env c = do_read_head env (c\<lparr>stats := conn_working\<rparr>)"

text \<open>\<open>::atoi (parser_.request_option (content_length).c_str ())\<close> as a \<open>size_t\<close>.\<close>

definition body_length :: "'s env \<Rightarrow> front_conn \<Rightarrow> u64" where
  "body_length env c = atoi_size (c_str (request_option (algo env) content_length (parser c)))"

definition do_read_body :: "'s env \<Rightarrow> front_conn \<Rightarrow> front_conn outcome" where
  "do_read_body env c =
     (if stats c \<noteq> conn_working then Inr (c, [])
      else
        let c = touch_sock_time (now env) c; len = body_length env c in
        post (AsyncRead (r_size c) (len - r_size c)) c)"

definition front_do_write :: "'s env \<Rightarrow> front_conn \<Rightarrow> front_conn outcome" where
  "front_do_write env c =
     (if stats c \<noteq> conn_working then Inr (c, [])
      else
        let c = touch_sock_time (now env) c in
        rbind (require (w_size c \<noteq> 0) AssertFailed) (\<lambda>_.
        rbind (require (w_pos c < w_size c) AssertFailed) (\<lambda>_.
        post (AsyncWrite (w_pos c) (w_size c - w_pos c)) c)))"

text \<open>One operation after another on the same object.\<close>

definition followed_by ::
  "front_conn outcome \<Rightarrow> (front_conn \<Rightarrow> front_conn outcome) \<Rightarrow> front_conn outcome" where
  "followed_by r f = rbind r (\<lambda>(c, acts). rbind (f c) (\<lambda>(c, acts'). Inr (c, acts @ acts')))"

section \<open>Errors\<close>

definition notify_conn_error :: "front_conn \<Rightarrow> front_conn outcome" where
  "notify_conn_error c = Inr (c\<lparr>r_size := 0, w_size := 0, stats := conn_error\<rparr>, [NotifyRemove])"

text \<open>The error branch the three handlers share.\<close>

definition front_conn_error :: "shutdown_type \<Rightarrow> front_conn \<Rightarrow> front_conn outcome" where
  "front_conn_error what c = followed_by (on_sock [Shutdown what, CancelOps] c) notify_conn_error"

section \<open>Handlers\<close>

definition is_uri :: "'s env \<Rightarrow> string \<Rightarrow> front_conn \<Rightarrow> bool" where
  "is_uri env u c = iequals (algo env) (request_option (algo env) request_uri (parser c)) u"

text \<open>The label \<open>write_return\<close> of the body handler.\<close>

definition write_and_read :: "'s env \<Rightarrow> front_conn \<Rightarrow> front_conn outcome" where
  "write_and_read env c = followed_by (front_do_write env c) (do_read_head env)"

definition answer ::
  "'s env \<Rightarrow> string \<Rightarrow> status_name \<Rightarrow> (front_conn \<Rightarrow> front_conn outcome) \<Rightarrow> front_conn \<Rightarrow> front_conn outcome" where
  "answer env content stat return c = rbind (fill_for_http (date env) content (status stat) c) return"

definition upstream_request :: string where
  "upstream_request = ''GET / HTTP/1.1'' @ crlf @ ''Host: www.baidu.com'' @ crlf
     @ ''User-Agent: airobot_msg/1.0'' @ crlf @ crlf"

text \<open>The page fetched for \<open>/bb\<close>: \<open>None\<close> when the handler gives up without an answer.\<close>

definition fetch_upstream :: "'s env \<Rightarrow> string option result" where
  "fetch_upstream env =
     (case sync_timed_connect (upstream env) 1000 False (upstream_state env) of (error, s, _) \<Rightarrow>
      if error then Inr None
      else
        case write_some (upstream env) upstream_request s of (throws, s) \<Rightarrow>
        if throws then Inl SystemError
        else
          rbind (fst (sync_timed_read_some (upstream env) (replicate (32 * 1024) NULC) 3000 False s))
            (\<lambda>(read_len, read_buff, error, s).
             if read_len = 0 then Inr None
             else Inr (Some (c_str (take (unat read_len) read_buff)))))"

text \<open>A fault here is an exception that no handler catches, or a crash: it ends the process. That the
  message was already handed to the backend by then is not recorded.\<close>

definition handle_bb :: "'s env \<Rightarrow> front_conn \<Rightarrow> front_conn outcome" where
  "handle_bb env c =
     rbind (require (unat (r_size c) \<le> length (p_buffer c)) OutOfBounds) (\<lambda>_.
     let body = c_str (take (unat (r_size c)) (p_buffer c)) in
     case parse_message (stale_errno env) body of (json_parsed, json_err) \<Rightarrow>
     if json_err \<noteq> [] then answer env ''bb_ret'' Ok (write_and_read env) c
     else
       rbind (id_field json_parsed ''session_id'') (\<lambda>session_id.
       rbind (id_field json_parsed ''site_id'') (\<lambda>site_id.
       followed_by
         (on_sock [PushBackend site_id (body @ [NULC]) (of_nat (length body + 1))] c)
         (\<lambda>c. rbind (fetch_upstream env) (\<lambda>page.
              case page of
                None \<Rightarrow> Inr (c, [])
              | Some ret_str \<Rightarrow> answer env ret_str Ok (write_and_read env) c)))))"

definition read_body_handler :: "'s env \<Rightarrow> error_code \<Rightarrow> nat \<Rightarrow> front_conn \<Rightarrow> front_conn outcome" where
  "read_body_handler env ec bytes_transferred c =
     (if ec = NoError \<and> bytes_transferred \<noteq> 0 then
        let len = body_length env c; c = c\<lparr>r_size := r_size c + of_nat bytes_transferred\<rparr> in
        if r_size c < len then do_read_body env c
        else if is_uri env ''/aa'' c then answer env ''aa'' Ok (write_and_read env) c
        else if is_uri env ''/bb'' c then handle_bb env c
        else if is_uri env ''/cc'' c then answer env ''cc'' Ok (write_and_read env) c
        else answer env content_not_found Not_Found (write_and_read env) c
      else if ec \<noteq> OperationAborted then front_conn_error shutdown_receive c
      else answer env content_error Internal_Server_Error (write_and_read env) c)"

text \<open>The accepted paths: make room for the body, move what came with the head, read the rest.\<close>

definition begin_body :: "'s env \<Rightarrow> error_code \<Rightarrow> front_conn \<Rightarrow> front_conn outcome" where
  "begin_body env ec c =
     (let len = body_length env c; c = c\<lparr>r_size := 0\<rparr>; additional_size = length (request c) in
      rbind (require (of_nat additional_size \<le> len) AssertFailed) (\<lambda>_.
      rbind (if length (p_buffer c) < unat (len + 1) then vec_resize (len + 256) (p_buffer c)
             else Inr (p_buffer c)) (\<lambda>buf.
      rbind (if additional_size \<noteq> 0 then vec_write buf 0 (request c @ [NULC]) else Inr buf) (\<lambda>buf.
      let c = c\<lparr>p_buffer := buf, request := drop additional_size (request c)\<rparr> in
      if of_nat additional_size < len
      then do_read_body env (c\<lparr>r_size := of_nat additional_size\<rparr>)
      else read_body_handler env ec additional_size c))))"

text \<open>The label \<open>error_return\<close>.\<close>

definition error_return :: "'s env \<Rightarrow> front_conn \<Rightarrow> front_conn outcome" where
  "error_return env c =
     answer env content_error Internal_Server_Error
       (\<lambda>c. front_do_write env (c\<lparr>request := [], r_size := 0\<rparr>)) c"

definition read_head_handler :: "'s env \<Rightarrow> error_code \<Rightarrow> nat \<Rightarrow> front_conn \<Rightarrow> front_conn outcome" where
  "read_head_handler env ec bytes_transferred c =
     (if ec = NoError \<and> bytes_transferred \<noteq> 0 then
        let head_str = request c; c = c\<lparr>request := drop bytes_transferred (request c)\<rparr> in
        rbind (parse_request (algo env) (Some head_str) (parser c)) (\<lambda>(ok, opts).
        let c = c\<lparr>parser := opts\<rparr> in
        if ok then
          if \<not> iequals (algo env) (request_option (algo env) request_method opts) ''POST''
          then answer env content_bad_request Bad_Request (front_do_write env) c
          else if is_uri env ''/aa'' c \<or> is_uri env ''/bb'' c \<or> is_uri env ''/cc'' c
          then begin_body env ec c
          else answer env content_not_found Not_Found (front_do_write env) c
        else error_return env c)
      else if ec \<noteq> OperationAborted then front_conn_error shutdown_receive c
      else error_return env c)"

definition write_handler :: "'s env \<Rightarrow> error_code \<Rightarrow> nat \<Rightarrow> front_conn \<Rightarrow> front_conn outcome" where
  "write_handler env ec bytes_transferred c =
     (if ec = NoError \<and> bytes_transferred \<noteq> 0 then
        let c = c\<lparr>w_pos := w_pos c + of_nat bytes_transferred\<rparr> in
        if w_pos c < w_size c then front_do_write env c
        else Inr (c\<lparr>w_pos := 0, w_size := 0\<rparr>, [])
      else if ec \<noteq> OperationAborted then front_conn_error shutdown_send c
      else Inr (c, []))"

section \<open>Recycling\<close>

definition conn_wash_white :: "front_conn \<Rightarrow> front_conn result" where
  "conn_wash_white c =
     rbind (require (stats c \<noteq> conn_working) AssertFailed) (\<lambda>_.
     rbind (vec_resize (16 * 1024) (p_buffer c)) (\<lambda>b.
     rbind (vec_resize (16 * 1024) (p_write c)) (\<lambda>w.
     Inr (c\<lparr>r_size := 0, w_size := 0, w_pos := 0, p_buffer := b, p_write := w,
            stats := conn_pending, p_sock := None, strand := False\<rparr>))))"

definition conn_reset_network :: "nat \<Rightarrow> int \<Rightarrow> front_conn \<Rightarrow> front_conn" where
  "conn_reset_network sock t c =
     touch_sock_time t (c\<lparr>p_sock := Some sock, strand := True, request := []\<rparr>)"

section \<open>Arrival of bytes\<close>

definition receive_head :: "string \<Rightarrow> front_conn \<Rightarrow> front_conn" where
  "receive_head bytes c = c\<lparr>request := request c @ bytes\<rparr>"

definition receive_body :: "u64 \<Rightarrow> string \<Rightarrow> front_conn \<Rightarrow> front_conn result" where
  "receive_body off bytes c =
     rbind (vec_write (p_buffer c) (unat off) bytes) (\<lambda>b. Inr (c\<lparr>p_buffer := b\<rparr>))"

end
