(* ===== verification/Front_Conn_Facts.thy ===== *)
theory Front_Conn_Facts
  imports Front_Conn
begin

text \<open>
  The behaviour of a client's connection: a request that arrives in any two parts is collected
  within the buffer and answered, an answer written in pieces is written exactly once, and the
  requests on which the code fails.
\<close>

section \<open>Connections that can post operations\<close>

definition live :: "front_conn \<Rightarrow> bool" where
  "live c \<longleftrightarrow> stats c = conn_working \<and> p_sock c \<noteq> None \<and> strand c"

lemma live_touch [simp]: "live (touch_sock_time t c) = live c"
  by (simp add: live_def touch_sock_time_def)

lemma live_upd [simp]:
  "live (c\<lparr>r_size := x\<rparr>) = live c" "live (c\<lparr>p_buffer := b\<rparr>) = live c" "live (c\<lparr>request := s\<rparr>) = live c"
  "live (c\<lparr>parser := o'\<rparr>) = live c" "live (c\<lparr>w_pos := w\<rparr>) = live c" "live (c\<lparr>p_write := v\<rparr>) = live c"
  "live (c\<lparr>w_size := z\<rparr>) = live c"
  by (simp_all add: live_def)

lemma post_live: "live c \<Longrightarrow> post act c = Inr (c, [act])"
  by (simp add: post_def live_def)

lemma do_read_head_live: "live c \<Longrightarrow> do_read_head env c = Inr (touch_sock_time (now env) c, [AsyncReadUntil])"
  by (simp add: do_read_head_def post_live) (simp add: live_def)

lemma do_read_body_live:
  "live c \<Longrightarrow> do_read_body env c =
     Inr (touch_sock_time (now env) c, [AsyncRead (r_size c) (body_length env c - r_size c)])"
  by (simp add: do_read_body_def Let_def post_live keeps body_length_def)
    (simp add: live_def touch_sock_time_def)

lemma front_do_write_live:
  "live c \<Longrightarrow> w_pos c < w_size c \<Longrightarrow>
   front_do_write env c = Inr (touch_sock_time (now env) c, [AsyncWrite (w_pos c) (w_size c - w_pos c)])"
  using word_zero_le [of "w_pos c"]
  by (auto simp: front_do_write_def Let_def post_live keeps live_def require_def)
    (auto simp: post_def touch_sock_time_def)

lemma followed_by_Inr [simp]:
  "followed_by (Inr (c, acts)) f = rbind (f c) (\<lambda>(c, acts'). Inr (c, acts @ acts'))"
  by (simp add: followed_by_def)

section \<open>Answers\<close>

definition reply_of :: "'s env \<Rightarrow> string \<Rightarrow> status_name \<Rightarrow> string" where
  "reply_of env content stat = reply_generate (date env) content (status stat)"

definition filled :: "string \<Rightarrow> front_conn \<Rightarrow> front_conn" where
  "filled enc c = c\<lparr>p_write := grow_write (p_write c) (enc @ [NULC]), w_size := of_nat (length enc), w_pos := 0\<rparr>"

lemma live_filled [simp]: "live (filled enc c) = live c"
  by (simp add: live_def filled_def)

lemma reply_of_nonempty: "reply_of env content stat \<noteq> []"
  by (simp add: reply_of_def reply_generate_def crlf_def)

lemma answer_eq:
  "length (reply_of env content stat) < 2 ^ 62 \<Longrightarrow>
   answer env content stat k c = k (filled (reply_of env content stat) c)"
  by (simp add: answer_def fill_for_http_def store_reply_eq reply_of_def filled_def)

lemma reply_of_small:
  assumes "length (date env) < 2 ^ 60" and "length content < 2 ^ 31"
  shows "length (reply_of env content stat) < 2 ^ 62"
proof -
  have "length (show_nat (length content)) \<le> 10" using assms(2) by (intro length_show_nat) simp_all
  moreover have "length (status stat) < 100" by (cases stat) (simp_all add: crlf_def)
  ultimately show ?thesis using assms
    by (simp add: reply_of_def reply_generate_def reply_headers_def add_header_def crlf_def)
qed

lemma filled_writes:
  assumes "live c" and "enc \<noteq> []" and "length enc < 2 ^ 62"
  shows "front_do_write env (filled enc c) =
      Inr (touch_sock_time (now env) (filled enc c), [AsyncWrite 0 (of_nat (length enc))])"
    and "write_bytes (touch_sock_time t (filled enc c)) (AsyncWrite 0 (of_nat (length enc))) = enc"
proof -
  have u: "unat (of_nat (length enc) :: u64) = length enc" using assms(3) by (intro unat_of_nat_small) simp
  then have "(0 :: u64) < of_nat (length enc)" using assms(2) by (simp add: word_less_nat_alt)
  then show "front_do_write env (filled enc c) =
      Inr (touch_sock_time (now env) (filled enc c), [AsyncWrite 0 (of_nat (length enc))])"
    using front_do_write_live [of "filled enc c" env] assms(1) by (simp add: filled_def)
  show "write_bytes (touch_sock_time t (filled enc c)) (AsyncWrite 0 (of_nat (length enc))) = enc"
    using u by (simp add: keeps filled_def grow_write_def)
qed

lemma write_and_read_filled:
  assumes "live c" and "enc \<noteq> []" and "length enc < 2 ^ 62"
  shows "write_and_read env (filled enc c) =
    Inr (touch_sock_time (now env) (filled enc c), [AsyncWrite 0 (of_nat (length enc)), AsyncReadUntil])"
  using assms by (simp add: write_and_read_def filled_writes do_read_head_live)
    (simp add: touch_sock_time_def)

section \<open>Collecting the body\<close>

lemma begin_body_buffer:
  assumes "n < 2 ^ 31" and "length pre \<le> n"
  shows "\<exists>b. rbind (if length w < unat (of_nat n + 1 :: u64) then vec_resize (of_nat n + 256) w else Inr w)
      (\<lambda>buf. if length pre \<noteq> 0 then vec_write buf 0 (pre @ [NULC]) else Inr buf) = Inr b \<and>
    n < length b \<and> take (length pre) b = pre"
proof -
  have u: "unat (of_nat n + 1 :: u64) = n + 1" "unat (of_nat n + 256 :: u64) = n + 256"
    using unat_of_nat_small [of "n + 1"] unat_of_nat_small [of "n + 256"] assms(1)
    by (simp_all add: add.commute)
  obtain w' where w: "(if length w < n + 1 then vec_resize (of_nat n + 256) w else Inr w) = Inr w'" "n < length w'"
  proof (cases "length w < n + 1")
    case True
    then show thesis
      using that [of "take (n + 256) w @ replicate (n + 256 - length w) NULC"] u(2) assms(1)
      by (simp add: vec_resize_def)
  next
    case False
    then show thesis using that [of w] by simp
  qed
  show ?thesis
  proof (cases "pre = []")
    case True
    with w show ?thesis by (simp add: u)
  next
    case False
    have "vec_write w' 0 (pre @ [NULC]) = Inr (pre @ NULC # drop (length pre + 1) w')"
      using assms(2) w(2) by (simp add: vec_write_def)
    with False w assms(2) show ?thesis by (simp add: u)
  qed
qed

lemma body_length_cong [simp]:
  "body_length env (c\<lparr>r_size := x\<rparr>) = body_length env c"
  "body_length env (c\<lparr>p_buffer := b\<rparr>) = body_length env c"
  "body_length env (c\<lparr>request := s\<rparr>) = body_length env c"
  by (simp_all add: body_length_def)

text \<open>After the guards: \<open>begin_body\<close> either waits for the rest or handles the complete body.\<close>

lemma begin_body_cases:
  assumes "body_length env c = of_nat n" and "n < 2 ^ 31" and "length (request c) \<le> n"
  shows "\<exists>b. n < length b \<and> take (length (request c)) b = request c \<and>
    begin_body env ec c =
      (let c' = c\<lparr>r_size := 0, p_buffer := b, request := []\<rparr> in
       if length (request c) < n then do_read_body env (c'\<lparr>r_size := of_nat (length (request c))\<rparr>)
       else read_body_handler env ec (length (request c)) c')"
proof -
  obtain b where b: "rbind (if length (p_buffer c) < unat (of_nat n + 1 :: u64)
        then vec_resize (of_nat n + 256) (p_buffer c) else Inr (p_buffer c))
      (\<lambda>buf. if length (request c) \<noteq> 0 then vec_write buf 0 (request c @ [NULC]) else Inr buf) = Inr b"
    and bl: "n < length b" "take (length (request c)) b = request c"
    using begin_body_buffer [OF assms(2,3)] by blast
  have u: "unat (of_nat n :: u64) = n" "unat (of_nat (length (request c)) :: u64) = length (request c)"
    using assms(2,3) by (auto intro!: unat_of_nat_small)
  have le: "of_nat (length (request c)) \<le> (of_nat n :: u64)"
    and lt: "of_nat (length (request c)) < (of_nat n :: u64) \<longleftrightarrow> length (request c) < n"
    using assms(3) by (simp_all only: word_le_nat_alt word_less_nat_alt u)
  from b obtain buf where "(if length (p_buffer c) < unat (of_nat n + 1 :: u64)
        then vec_resize (of_nat n + 256) (p_buffer c) else Inr (p_buffer c)) = Inr buf"
    and "(if length (request c) \<noteq> 0 then vec_write buf 0 (request c @ [NULC]) else Inr buf) = Inr b"
    unfolding rbind_Inr_iff by blast
  then show ?thesis using bl le lt
    by (intro exI [of _ b]) (simp add: begin_body_def Let_def assms(1) split del: if_split cong: if_cong)
qed

text \<open>C10: A body that arrives in two parts, the first together with the head, is put together:
  the second part is requested with exactly the missing length, at a place inside the receive
  buffer (which was enlarged when needed), and once it is there the buffer starts with the whole
  body and \<open>r_size\<close> plus the byte count is the announced length.\<close>

theorem body_assembled:
  assumes "live c" and "body_length env c = of_nat n" and "n < 2 ^ 31"
    and "length (request c) < n" and "length (request c) + length bytes = n"
  shows "\<exists>c1 off len. begin_body env NoError c = Inr (c1, [AsyncRead off len]) \<and>
      unat off + unat len \<le> length (p_buffer c1) \<and> unat len = length bytes \<and>
      (\<exists>c2. receive_body off bytes c1 = Inr c2 \<and> take n (p_buffer c2) = request c @ bytes \<and>
        r_size c2 + of_nat (length bytes) = of_nat n \<and> request c2 = [])"
proof -
  define p where "p = length (request c)"
  obtain b where b: "n < length b" "take p b = request c" and eq: "begin_body env NoError c =
      do_read_body env (c\<lparr>p_buffer := b, request := [], r_size := of_nat p\<rparr>)"
    using begin_body_cases [OF assms(2,3) less_imp_le [OF assms(4)], of NoError] assms(4) by (auto simp: Let_def p_def)
  define c1 where "c1 = touch_sock_time (now env) (c\<lparr>p_buffer := b, request := [], r_size := of_nat p\<rparr>)"
  have n: "n = p + length bytes" using assms(5) by (simp add: p_def)
  then have len: "of_nat n - of_nat p = (of_nat (length bytes) :: u64)" by simp
  have u: "unat (of_nat p :: u64) = p" "unat (of_nat (length bytes) :: u64) = length bytes"
    using assms(3) n by (auto intro!: unat_of_nat_small)
  have "begin_body env NoError c = Inr (c1, [AsyncRead (of_nat p) (of_nat (length bytes))])"
    unfolding eq using assms(1) by (subst do_read_body_live) (simp_all add: c1_def assms(2) len)
  moreover define c2 where "c2 = c1\<lparr>p_buffer := take p b @ bytes @ drop (p + length bytes) b\<rparr>"
  have "receive_body (of_nat p) bytes c1 = Inr c2"
    using b n by (simp add: receive_body_def c1_def c2_def keeps vec_write_def u)
  moreover have "take n (p_buffer c2) = request c @ bytes" "r_size c2 = of_nat p" "request c2 = []"
    "p_buffer c1 = b"
    using b n by (simp_all add: c2_def c1_def p_def touch_sock_time_def)
  ultimately show ?thesis using b n u
    by (intro exI [of _ c1] exI [of _ "of_nat p"] exI [of _ "of_nat (length bytes)"] exI [of _ c2] conjI) simp_all
qed

section \<open>From the head to the body\<close>

text \<open>A request whose head is well formed and announces its body's length.\<close>

definition request_ok :: "string \<Rightarrow> string \<Rightarrow> options \<Rightarrow> nat \<Rightarrow> bool" where
  "request_ok meth path hs n \<longleftrightarrow> meth \<noteq> [] \<and> list_all is_alpha meth \<and> path_ok path \<and> headers_ok hs \<and>
     (''Content-Length'', show_nat n) \<in> set hs"

definition head_size :: "string \<Rightarrow> string \<Rightarrow> options \<Rightarrow> nat" where
  "head_size meth path hs = length (render_request meth path hs [])"

lemma render_split: "render_request meth path hs body = render_request meth path hs [] @ body"
  by (simp add: render_request_def)

lemma head_size_pos: "head_size meth path hs \<noteq> 0"
  by (simp add: head_size_def render_request_def crlf_def)

lemma c_str_show_nat: "c_str (show_nat n) = show_nat n"
  using show_nat_plain [of n] by (intro c_str_id) (simp add: plain_def)

lemma is_uri_cong [simp]:
  "is_uri env u (c\<lparr>r_size := x\<rparr>) = is_uri env u c" "is_uri env u (c\<lparr>p_buffer := b\<rparr>) = is_uri env u c"
  "is_uri env u (c\<lparr>request := s\<rparr>) = is_uri env u c"
  by (simp_all add: is_uri_def)

lemma head_parsed:
  assumes b: "boost_spec (algo env)" and ok: "request_ok meth path hs n"
    and body: "NULC \<notin> set body" and c: "request c = []" and n: "n < 2 ^ 31"
  obtains c' where
    "read_head_handler env NoError (head_size meth path hs) (receive_head (render_request meth path hs body) c) =
      (if upper meth \<noteq> ''POST'' then answer env content_bad_request Bad_Request (front_do_write env) c'
       else if upper path = ''/AA'' \<or> upper path = ''/BB'' \<or> upper path = ''/CC'' then begin_body env NoError c'
       else answer env content_not_found Not_Found (front_do_write env) c')"
    "request c' = body" "live c' = live c" "body_length env c' = of_nat n"
    "\<forall>u. is_uri env u c' \<longleftrightarrow> upper path = upper u" "p_buffer c' = p_buffer c"
proof -
  have m: "meth \<noteq> []" "list_all is_alpha meth" "path_ok path" "headers_ok hs"
    "(''Content-Length'', show_nat n) \<in> set hs"
    using ok by (simp_all add: request_ok_def)
  obtain opts where p: "parse_request (algo env) (Some (render_request meth path hs body)) (parser c) = Inr (True, opts)"
    and o: "request_option (algo env) request_method opts = upper meth"
      "request_option (algo env) request_uri opts = path"
    and h: "\<forall>(k, v) \<in> set hs. \<forall>k'. upper k' = upper k \<longrightarrow> request_option (algo env) k' opts = v"
    using request_roundtrip_all [OF b m(1-4) body, of 0 "parser c"] by auto
  from h m(5) have l: "request_option (algo env) content_length opts = show_nat n"
    by (auto simp: content_length_def)
  define c' where "c' = c\<lparr>request := body, parser := opts\<rparr>"
  have d: "drop (head_size meth path hs) (render_request meth path hs body) = body"
    unfolding head_size_def by (subst render_split) simp
  have uri: "is_uri env u c' \<longleftrightarrow> upper path = upper u" for u
    by (simp add: is_uri_def c'_def o boost_simps [OF b])
  have ups: "upper ''POST'' = ''POST''" "upper ''/aa'' = ''/AA''" "upper ''/bb'' = ''/BB''" "upper ''/cc'' = ''/CC''"
    by code_simp+
  have up: "upper (upper meth) = upper meth" by (rule upper_upper)
  have "read_head_handler env NoError (head_size meth path hs) (receive_head (render_request meth path hs body) c) =
      (if \<not> iequals (algo env) (upper meth) ''POST'' then answer env content_bad_request Bad_Request (front_do_write env) c'
       else if is_uri env ''/aa'' c' \<or> is_uri env ''/bb'' c' \<or> is_uri env ''/cc'' c' then begin_body env NoError c'
       else answer env content_not_found Not_Found (front_do_write env) c')"
    using head_size_pos [of meth path hs]
    by (simp add: read_head_handler_def receive_head_def c p d Let_def c'_def o)
  then have "read_head_handler env NoError (head_size meth path hs) (receive_head (render_request meth path hs body) c) =
      (if upper meth \<noteq> ''POST'' then answer env content_bad_request Bad_Request (front_do_write env) c'
       else if upper path = ''/AA'' \<or> upper path = ''/BB'' \<or> upper path = ''/CC'' then begin_body env NoError c'
       else answer env content_not_found Not_Found (front_do_write env) c')"
    unfolding uri boost_simps [OF b] up ups .
  moreover have "body_length env c' = of_nat n"
    using n by (simp add: body_length_def c'_def l c_str_show_nat atoi_size_show_nat)
  ultimately show thesis using that uri by (auto simp: c'_def)
qed

lemma complete_body:
  assumes "live c" and "body_length env c = of_nat n" and "n < 2 ^ 31" and "0 < n" and "length (request c) = n"
  obtains c' where "begin_body env NoError c =
      (if is_uri env ''/aa'' c then answer env ''aa'' Ok (write_and_read env) c'
       else if is_uri env ''/bb'' c then handle_bb env c'
       else if is_uri env ''/cc'' c then answer env ''cc'' Ok (write_and_read env) c'
       else answer env content_not_found Not_Found (write_and_read env) c')"
    "live c'" "take n (p_buffer c') = request c" "request c' = []" "r_size c' = of_nat n" "n < length (p_buffer c')"
proof -
  obtain b where b: "n < length b" "take n b = request c"
    and eq: "begin_body env NoError c = read_body_handler env NoError n (c\<lparr>r_size := 0, p_buffer := b, request := []\<rparr>)"
    using begin_body_cases [OF assms(2,3), of NoError] assms(5) by (auto simp: Let_def)
  define c' where "c' = c\<lparr>r_size := 0, p_buffer := b, request := []\<rparr>\<lparr>r_size := of_nat n\<rparr>"
  have "begin_body env NoError c =
      (if is_uri env ''/aa'' c then answer env ''aa'' Ok (write_and_read env) c'
       else if is_uri env ''/bb'' c then handle_bb env c'
       else if is_uri env ''/cc'' c then answer env ''cc'' Ok (write_and_read env) c'
       else answer env content_not_found Not_Found (write_and_read env) c')"
    unfolding eq c'_def using assms(2,4) by (simp add: read_body_handler_def Let_def)
  then show thesis using that b assms(1) by (simp add: c'_def live_def)
qed

section \<open>Requests and their answers\<close>

lemma post_answered_state:
  assumes "boost_spec (algo env)" and "request_ok meth path hs (length body)" and "NULC \<notin> set body"
    and "body \<noteq> []" and "length body < 2 ^ 31" and "upper meth = ''POST''"
    and "(upper path, page) \<in> {(''/AA'', ''aa''), (''/CC'', ''cc'')}"
    and "live c" and "request c = []" and "length (date env) < 2 ^ 60"
  obtains c2 where "live c2" "request c2 = []" "take (length body) (p_buffer c2) = body"
    "read_head_handler env NoError (head_size meth path hs) (receive_head (render_request meth path hs body) c) =
       Inr (touch_sock_time (now env) (filled (reply_of env page Ok) c2),
            [AsyncWrite 0 (of_nat (length (reply_of env page Ok))), AsyncReadUntil])"
proof -
  have small: "length (reply_of env page Ok) < 2 ^ 62"
    using assms(7) by (intro reply_of_small [OF assms(10)]) auto
  have ups: "upper ''/aa'' = ''/AA''" "upper ''/bb'' = ''/BB''" "upper ''/cc'' = ''/CC''" by code_simp+
  obtain c1 where h0: "read_head_handler env NoError (head_size meth path hs)
      (receive_head (render_request meth path hs body) c) =
      (if upper meth \<noteq> ''POST'' then answer env content_bad_request Bad_Request (front_do_write env) c1
       else if upper path = ''/AA'' \<or> upper path = ''/BB'' \<or> upper path = ''/CC'' then begin_body env NoError c1
       else answer env content_not_found Not_Found (front_do_write env) c1)"
    and c1: "request c1 = body" "live c1 = live c" "body_length env c1 = of_nat (length body)"
      "\<forall>u. is_uri env u c1 \<longleftrightarrow> upper path = upper u" "p_buffer c1 = p_buffer c"
    by (rule head_parsed [OF assms(1,2,3,9,5)]) (rule that; assumption)
  from h0 have h: "read_head_handler env NoError (head_size meth path hs)
      (receive_head (render_request meth path hs body) c) = begin_body env NoError c1"
    using assms(6,7) by auto
  from c1(2) have c1l: "live c1" using assms(8) by simp
  have n: "0 < length body" "length (request c1) = length body" using assms(4) c1(1) by simp_all
  obtain c2 where e: "begin_body env NoError c1 =
      (if is_uri env ''/aa'' c1 then answer env ''aa'' Ok (write_and_read env) c2
       else if is_uri env ''/bb'' c1 then handle_bb env c2
       else if is_uri env ''/cc'' c1 then answer env ''cc'' Ok (write_and_read env) c2
       else answer env content_not_found Not_Found (write_and_read env) c2)"
    and c2: "live c2" "take (length body) (p_buffer c2) = request c1" "request c2 = []"
      "r_size c2 = of_nat (length body)" "length body < length (p_buffer c2)"
    by (rule complete_body [OF c1l c1(3) assms(5) n]) (rule that; assumption)
  from e have "begin_body env NoError c1 = answer env page Ok (write_and_read env) c2"
    using assms(7) by (elim insertE) (simp_all add: c1(4) ups)
  then have "begin_body env NoError c1 = write_and_read env (filled (reply_of env page Ok) c2)"
    using answer_eq [OF small] by simp
  then have "read_head_handler env NoError (head_size meth path hs) (receive_head (render_request meth path hs body) c) =
      Inr (touch_sock_time (now env) (filled (reply_of env page Ok) c2),
           [AsyncWrite 0 (of_nat (length (reply_of env page Ok))), AsyncReadUntil])"
    unfolding h by (simp only: write_and_read_filled [OF c2(1) reply_of_nonempty small])
  with c2 c1(1) show thesis by (intro that [of c2]) simp_all
qed

text \<open>C4: A complete \<open>POST\<close> to \<open>/aa\<close> or \<open>/cc\<close>, in whatever case, with a body of the announced
  length, is answered: the write that the handler posts carries exactly the generated reply for
  the page, the next head is awaited after it, and the body was collected in the buffer.\<close>

theorem post_answered:
  assumes "boost_spec (algo env)" and "request_ok meth path hs (length body)" and "NULC \<notin> set body"
    and "body \<noteq> []" and "length body < 2 ^ 31" and "upper meth = ''POST''"
    and "(upper path, page) \<in> {(''/AA'', ''aa''), (''/CC'', ''cc'')}"
    and "live c" and "request c = []" and "length (date env) < 2 ^ 60"
  shows "\<exists>c' w. read_head_handler env NoError (head_size meth path hs)
        (receive_head (render_request meth path hs body) c) = Inr (c', [w, AsyncReadUntil]) \<and>
      write_bytes c' w = reply_of env page Ok \<and> live c' \<and> touch_time c' = now env \<and>
      take (length body) (p_buffer c') = body \<and> request c' = []"
proof -
  define enc where "enc = reply_of env page Ok"
  have small: "length enc < 2 ^ 62"
    unfolding enc_def using assms(7) by (intro reply_of_small [OF assms(10)]) auto
  obtain c2 where c2: "live c2" "request c2 = []" "take (length body) (p_buffer c2) = body"
    and h: "read_head_handler env NoError (head_size meth path hs) (receive_head (render_request meth path hs body) c) =
      Inr (touch_sock_time (now env) (filled enc c2), [AsyncWrite 0 (of_nat (length enc)), AsyncReadUntil])"
    by (rule post_answered_state [OF assms, folded enc_def]) (rule that; assumption)
  have "write_bytes (touch_sock_time (now env) (filled enc c2)) (AsyncWrite 0 (of_nat (length enc))) = enc"
    using filled_writes(2) [OF c2(1) _ small] by (simp add: enc_def reply_of_nonempty)
  moreover have "touch_time (touch_sock_time (now env) (filled enc c2)) = now env"
    "p_buffer (touch_sock_time (now env) (filled enc c2)) = p_buffer c2"
    "request (touch_sock_time (now env) (filled enc c2)) = request c2"
    by (simp_all add: touch_sock_time_def filled_def)
  ultimately show ?thesis unfolding h using c2
    by (intro exI [of _ "touch_sock_time (now env) (filled enc c2)"] exI [of _ "AsyncWrite 0 (of_nat (length enc))"] conjI)
      (simp_all only: enc_def live_touch live_filled)
qed

text \<open>C20: A well-formed request with another method is answered \<open>400\<close>, and a \<open>POST\<close> to another path
  \<open>404\<close>; in both cases no further head is awaited, so the connection serves nothing more.\<close>

theorem refused_requests:
  assumes "boost_spec (algo env)" and "request_ok meth path hs (length body)" and "NULC \<notin> set body"
    and "length body < 2 ^ 31" and "live c" and "request c = []"
    and "upper meth \<noteq> ''POST'' \<or> upper path \<notin> {''/AA'', ''/BB'', ''/CC''}"
    and "length (date env) < 2 ^ 60"
  shows "\<exists>c' w. read_head_handler env NoError (head_size meth path hs)
        (receive_head (render_request meth path hs body) c) = Inr (c', [w]) \<and>
      write_bytes c' w = (if upper meth \<noteq> ''POST'' then reply_of env content_bad_request Bad_Request
        else reply_of env content_not_found Not_Found)"
proof -
  define enc where "enc = (if upper meth \<noteq> ''POST'' then reply_of env content_bad_request Bad_Request
        else reply_of env content_not_found Not_Found)"
  have small: "length (reply_of env content_bad_request Bad_Request) < 2 ^ 62"
    "length (reply_of env content_not_found Not_Found) < 2 ^ 62"
    by (intro reply_of_small [OF assms(8)], simp add: content_bad_request_def content_not_found_def)+
  then have e: "enc \<noteq> []" "length enc < 2 ^ 62" by (simp_all add: enc_def reply_of_nonempty)
  obtain c1 where h: "read_head_handler env NoError (head_size meth path hs)
      (receive_head (render_request meth path hs body) c) =
      (if upper meth \<noteq> ''POST'' then answer env content_bad_request Bad_Request (front_do_write env) c1
       else if upper path = ''/AA'' \<or> upper path = ''/BB'' \<or> upper path = ''/CC'' then begin_body env NoError c1
       else answer env content_not_found Not_Found (front_do_write env) c1)" and c1: "live c1"
    using head_parsed [OF assms(1,2,3,6,4)] assms(5) by metis
  have "(if upper meth \<noteq> ''POST'' then answer env content_bad_request Bad_Request (front_do_write env) c1
       else if upper path = ''/AA'' \<or> upper path = ''/BB'' \<or> upper path = ''/CC'' then begin_body env NoError c1
       else answer env content_not_found Not_Found (front_do_write env) c1) = front_do_write env (filled enc c1)"
    using assms(7) small by (auto simp: enc_def answer_eq)
  then show ?thesis unfolding h enc_def [symmetric]
    by (intro exI [of _ "touch_sock_time (now env) (filled enc c1)"] exI [of _ "AsyncWrite 0 (of_nat (length enc))"])
      (simp only: filled_writes [OF c1 e])
qed

section \<open>Concrete requests\<close>

text \<open>An environment and a connection for the witnesses; the upstream server sends \<open>pieces\<close>.\<close>

definition example_env :: "string list \<Rightarrow> string list env" where
  "example_env pieces =
     \<lparr> algo = ref_boost, now = 100, date = ''2017-Jan-01 10:00:00'', stale_errno = False,
       upstream = piece_io, upstream_state = pieces \<rparr>"

definition example_conn :: front_conn where
  "example_conn = (fresh_front_conn 5 0)\<lparr>stats := conn_working\<rparr>"

lemma example_simps [simp]:
  "algo (example_env ps) = ref_boost" "now (example_env ps) = 100"
  "date (example_env ps) = ''2017-Jan-01 10:00:00''" "stale_errno (example_env ps) = False"
  "upstream (example_env ps) = piece_io" "upstream_state (example_env ps) = ps"
  "live example_conn" "request example_conn = []" "parser example_conn = []"
  "p_sock example_conn = Some 5" "stats example_conn = conn_working"
  "p_buffer example_conn = replicate buffer_size NULC"
  by (simp_all add: example_env_def example_conn_def fresh_front_conn_def new_connection_def live_def
      connection.extend_def)

lemma example_request_ok:
  "request_ok ''post'' ''/Aa'' [(''content-type'', ''text/json''), (''Content-Length'', show_nat 2)] 2"
  "request_ok ''GET'' ''/aa'' [(''Content-Length'', show_nat 2)] 2"
  "request_ok ''POST'' ''/aa'' [(''Content-Length'', show_nat 2)] 2"
  by code_simp+

theorem post_answered_witness:
  "\<exists>c' w. read_head_handler (example_env []) NoError
      (head_size ''post'' ''/Aa'' [(''content-type'', ''text/json''), (''Content-Length'', show_nat 2)])
      (receive_head (render_request ''post'' ''/Aa''
         [(''content-type'', ''text/json''), (''Content-Length'', show_nat 2)] ''hi'') example_conn)
      = Inr (c', [w, AsyncReadUntil]) \<and> write_bytes c' w = reply_of (example_env []) ''aa'' Ok"
proof -
  have u: "upper ''post'' = ''POST''" "upper ''/Aa'' = ''/AA''" by code_simp+
  show ?thesis
    using post_answered [of "example_env []" "''post''" "''/Aa''"
        "[(''content-type'', ''text/json''), (''Content-Length'', show_nat 2)]" "''hi''" "''aa''" example_conn]
      example_request_ok(1) ref_boost_spec u
    by (simp add: numeral_2_eq_2 [symmetric]) blast
qed

theorem refused_requests_witness:
  "\<exists>c' w. read_head_handler (example_env []) NoError (head_size ''GET'' ''/aa'' [(''Content-Length'', show_nat 2)])
      (receive_head (render_request ''GET'' ''/aa'' [(''Content-Length'', show_nat 2)] ''hi'') example_conn)
      = Inr (c', [w]) \<and> write_bytes c' w = reply_of (example_env []) content_bad_request Bad_Request"
proof -
  have u: "upper ''GET'' \<noteq> ''POST''" by code_simp
  show ?thesis
    using refused_requests [of "example_env []" "''GET''" "''/aa''" "[(''Content-Length'', show_nat 2)]" "''hi''" example_conn]
      example_request_ok(2) ref_boost_spec u
    by (simp add: numeral_2_eq_2 [symmetric])
qed

theorem body_assembled_witness:
  "let c = example_conn\<lparr>request := ''{'', parser := [(''Content-Length'', ''2'')]\<rparr> in
   \<exists>c1 off len c2. begin_body (example_env []) NoError c = Inr (c1, [AsyncRead off len]) \<and>
     receive_body off ''}'' c1 = Inr c2 \<and> take 2 (p_buffer c2) = ''{}''"
proof -
  let ?c = "example_conn\<lparr>request := ''{'', parser := [(''Content-Length'', ''2'')]\<rparr>"
  have s: "show_nat 2 = ''2''" "iequals ref_boost content_length ''Content-Length''" by code_simp+
  then have "request_option ref_boost content_length [(''Content-Length'', show_nat 2)] = show_nat 2"
    by (simp add: content_length_def)
  then have l: "body_length (example_env []) ?c = of_nat 2"
    using s(1) c_str_show_nat [of 2] atoi_size_show_nat [of 2] by (simp add: body_length_def)
  have "live ?c" "(2 :: nat) < 2 ^ 31" "length (request ?c) < 2" "length (request ?c) + length ''}'' = 2"
    and r: "request ?c @ ''}'' = ''{}''" by simp_all
  from body_assembled [OF this(1) l this(2-4)] show ?thesis unfolding Let_def r by blast
qed

section \<open>Writing in pieces\<close>

text \<open>
  The client's side of an answer: the write that is outstanding, and the byte counts its
  completions report. What the client has received is collected; a completion whose handler
  posts no further write ends the answer.
\<close>

fun written :: "'s env \<Rightarrow> nat list \<Rightarrow> front_conn \<Rightarrow> action \<Rightarrow> (string \<times> front_conn \<times> action list) result" where
  "written env [] c w = Inr ([], c, [w])"
| "written env (n # ns) c w =
     rbind (write_handler env NoError n c) (\<lambda>(c', acts).
     case acts of
       [w'] \<Rightarrow> rbind (written env ns c' w') (\<lambda>(s, r). Inr (take n (write_bytes c w) @ s, r))
     | _ \<Rightarrow> Inr (take n (write_bytes c w), c', acts))"

lemma write_handler_done:
  "n \<noteq> 0 \<Longrightarrow> w_pos c + of_nat n = w_size c \<Longrightarrow>
   write_handler env NoError n c = Inr (c\<lparr>w_pos := 0, w_size := 0\<rparr>, [])"
  by (simp add: write_handler_def Let_def)

lemma write_handler_partial:
  assumes "live c" and "n \<noteq> 0" and "w_pos c + of_nat n < w_size c"
  shows "write_handler env NoError n c =
    Inr (touch_sock_time (now env) (c\<lparr>w_pos := w_pos c + of_nat n\<rparr>),
         [AsyncWrite (w_pos c + of_nat n) (w_size c - (w_pos c + of_nat n))])"
  using front_do_write_live [of "c\<lparr>w_pos := w_pos c + of_nat n\<rparr>" env] assms
  by (simp add: write_handler_def Let_def)

lemma written_all:
  assumes "live c" and "\<forall>n \<in> set ns. n \<noteq> 0" and "unat (w_pos c) + sum_list ns = unat (w_size c)" and "ns \<noteq> []"
    and "unat (w_size c) \<le> length (p_write c)"
  shows "\<exists>c'. written env ns c (AsyncWrite (w_pos c) (w_size c - w_pos c)) =
      Inr (take (sum_list ns) (drop (unat (w_pos c)) (p_write c)), c', []) \<and> w_pos c' = 0 \<and> w_size c' = 0"
  using assms
proof (induction ns arbitrary: c)
  case (Cons n ns)
  have le: "unat (w_pos c) + n \<le> unat (w_size c)" using Cons.prems(3) by simp
  have lt: "unat (w_pos c) + n < 2 ^ 64" using le unsigned_less [of "w_size c", where 'a = nat] by simp
  then have "unat (of_nat n :: u64) = n" by (simp add: unat_of_nat)
  with lt have u: "unat (w_pos c + of_nat n) = unat (w_pos c) + n"
    by (simp add: unat_word_ariths)
  have d: "unat (w_size c - w_pos c) = unat (w_size c) - unat (w_pos c)"
    using le by (simp add: unat_sub_if')
  have bytes: "take n (write_bytes c (AsyncWrite (w_pos c) (w_size c - w_pos c))) =
      take n (drop (unat (w_pos c)) (p_write c))"
    using le by (simp add: d min_def)
  show ?case
  proof (cases "ns = []")
    case True
    with Cons.prems(3) u have "unat (w_pos c + of_nat n) = unat (w_size c)" by simp
    then have "w_pos c + of_nat n = w_size c" by (simp only: word_unat_eq_iff)
    with True Cons.prems show ?thesis using bytes by (simp add: write_handler_done)
  next
    case False
    have "w_pos c + of_nat n < w_size c"
    proof -
      have "0 < sum_list ns" using False Cons.prems(2) by (cases ns) auto
      with Cons.prems(3) u show ?thesis by (simp add: word_less_nat_alt)
    qed
    note p = write_handler_partial [OF Cons.prems(1) _ this, of env]
    define c1 where "c1 = touch_sock_time (now env) (c\<lparr>w_pos := w_pos c + of_nat n\<rparr>)"
    have c1: "w_pos c1 = w_pos c + of_nat n" "w_size c1 = w_size c" "p_write c1 = p_write c" "live c1"
      using Cons.prems(1) by (simp_all add: c1_def keeps)
    have "\<exists>c'. written env ns c1 (AsyncWrite (w_pos c1) (w_size c1 - w_pos c1)) =
        Inr (take (sum_list ns) (drop (unat (w_pos c1)) (p_write c1)), c', []) \<and> w_pos c' = 0 \<and> w_size c' = 0"
      using Cons.prems False by (intro Cons.IH) (auto simp: c1 u)
    then obtain c' where "written env ns c1 (AsyncWrite (w_pos c1) (w_size c1 - w_pos c1)) =
        Inr (take (sum_list ns) (drop (unat (w_pos c) + n) (p_write c)), c', [])" "w_pos c' = 0" "w_size c' = 0"
      by (auto simp: c1 u)
    moreover have "take (n + sum_list ns) (drop (unat (w_pos c)) (p_write c)) =
        take n (drop (unat (w_pos c)) (p_write c)) @ take (sum_list ns) (drop (unat (w_pos c) + n) (p_write c))"
      by (simp add: take_add add.commute)
    ultimately show ?thesis using p Cons.prems(2) bytes
      by (simp add: c1_def [symmetric] c1 del: write_bytes.simps)
  qed
qed simp

text \<open>C11: An answer is delivered exactly once, whatever the sizes of the partial writes: if the byte
  counts add up to its length, the client received the reply's bytes in order, no write is left
  outstanding, and the write positions are back at zero.\<close>

theorem answer_delivered:
  assumes "live c" and "length (date env) < 2 ^ 60" and "length content < 2 ^ 31"
    and "sum_list ns = length (reply_of env content stat)" and "\<forall>n \<in> set ns. n \<noteq> 0"
  shows "\<exists>c1 w c2. answer env content stat (front_do_write env) c = Inr (c1, [w]) \<and>
    written env ns c1 w = Inr (reply_of env content stat, c2, []) \<and> w_pos c2 = 0 \<and> w_size c2 = 0"
proof -
  define enc where "enc = reply_of env content stat"
  have small: "length enc < 2 ^ 62" unfolding enc_def by (rule reply_of_small [OF assms(2,3)])
  have ne: "enc \<noteq> []" unfolding enc_def by (rule reply_of_nonempty)
  define c1 where "c1 = touch_sock_time (now env) (filled enc c)"
  have u: "unat (of_nat (length enc) :: u64) = length enc" using small by (intro unat_of_nat_small) simp
  have c1: "live c1" "w_pos c1 = 0" "w_size c1 = of_nat (length enc)" "p_write c1 = grow_write (p_write c) (enc @ [NULC])"
    using assms(1) by (simp_all add: c1_def keeps) (simp_all add: filled_def)
  have "answer env content stat (front_do_write env) c = Inr (c1, [AsyncWrite 0 (of_nat (length enc))])"
    using small answer_eq [of env content stat] filled_writes(1) [OF assms(1) ne small] by (simp add: enc_def c1_def)
  moreover have "ns \<noteq> []" using assms(4) ne by (auto simp: enc_def)
  moreover have "unat (w_pos c1) + sum_list ns = unat (w_size c1)" "unat (w_size c1) \<le> length (p_write c1)"
    by (simp_all add: c1 u assms(4) enc_def [symmetric])
  ultimately obtain c2 where "written env ns c1 (AsyncWrite (w_pos c1) (w_size c1 - w_pos c1)) =
      Inr (take (sum_list ns) (drop (unat (w_pos c1)) (p_write c1)), c2, [])" "w_pos c2 = 0" "w_size c2 = 0"
    "answer env content stat (front_do_write env) c = Inr (c1, [AsyncWrite 0 (of_nat (length enc))])"
    using written_all [OF c1(1) assms(5), of env] by blast
  moreover have "take (sum_list ns) (drop (unat (w_pos c1)) (p_write c1)) = enc"
    by (simp add: c1 assms(4) enc_def grow_write_def)
  ultimately show ?thesis unfolding enc_def [symmetric] by (auto simp: c1)
qed

theorem answer_delivered_witness:
  "\<exists>c1 w c2. answer (example_env []) ''aa'' Ok (front_do_write (example_env [])) example_conn = Inr (c1, [w]) \<and>
    written (example_env []) [100, length (reply_of (example_env []) ''aa'' Ok) - 100] c1 w =
      Inr (reply_of (example_env []) ''aa'' Ok, c2, [])"
proof -
  have "length (reply_of (example_env []) ''aa'' Ok) > 100"
    by (simp add: reply_of_def reply_generate_def reply_headers_def add_header_def crlf_def)
  then show ?thesis
    using answer_delivered [of example_conn "example_env []" "''aa''"
      "[100, length (reply_of (example_env []) ''aa'' Ok) - 100]" Ok] by auto
qed

section \<open>Requests on which the handlers fail\<close>

lemma begin_body_assert:
  assumes "body_length env c = of_nat n" and "n < length (request c)" and "length (request c) < 2 ^ 63"
  shows "begin_body env ec c = Inl AssertFailed"
proof -
  have "unat (of_nat n :: u64) = n" "unat (of_nat (length (request c)) :: u64) = length (request c)"
    using assms(2,3) by (auto intro!: unat_of_nat_small)
  then have "\<not> (of_nat (length (request c)) \<le> (of_nat n :: u64))"
    using assms(2) by (simp add: word_le_nat_alt)
  then show ?thesis by (simp add: begin_body_def Let_def assms(1))
qed

text \<open>C37: A client that sends more bytes after the head than \<open>Content-Length\<close> announces, a pipelined
  request for instance, makes the assertion in the head handler fail and stops the server.\<close>

theorem pipelined_request_aborts:
  assumes "boost_spec (algo env)" and "request_ok meth path hs n" and "NULC \<notin> set body"
    and "n < 2 ^ 31" and "n < length body" and "length body < 2 ^ 63" and "upper meth = ''POST''"
    and "upper path \<in> {''/AA'', ''/BB'', ''/CC''}" and "request c = []"
  shows "read_head_handler env NoError (head_size meth path hs)
      (receive_head (render_request meth path hs body) c) = Inl AssertFailed"
proof -
  obtain c1 where h: "read_head_handler env NoError (head_size meth path hs)
      (receive_head (render_request meth path hs body) c) =
      (if upper meth \<noteq> ''POST'' then answer env content_bad_request Bad_Request (front_do_write env) c1
       else if upper path = ''/AA'' \<or> upper path = ''/BB'' \<or> upper path = ''/CC'' then begin_body env NoError c1
       else answer env content_not_found Not_Found (front_do_write env) c1)"
    and c1: "request c1 = body" "live c1 = live c" "body_length env c1 = of_nat n"
      "\<forall>u. is_uri env u c1 \<longleftrightarrow> upper path = upper u" "p_buffer c1 = p_buffer c"
    by (rule head_parsed [OF assms(1,2,3,9,4)]) (rule that; assumption)
  have "begin_body env NoError c1 = Inl AssertFailed"
    using begin_body_assert [OF c1(3)] assms(5,6) c1(1) by simp
  then show ?thesis unfolding h using assms(7,8) by auto
qed

theorem pipelined_request_aborts_witness:
  "read_head_handler (example_env []) NoError (head_size ''POST'' ''/aa'' [(''Content-Length'', show_nat 2)])
      (receive_head (render_request ''POST'' ''/aa'' [(''Content-Length'', show_nat 2)] ''hi POST'') example_conn)
    = Inl AssertFailed"
proof -
  have u: "upper ''POST'' = ''POST''" "upper ''/aa'' = ''/AA''" by code_simp+
  show ?thesis
    by (rule pipelined_request_aborts [OF _ example_request_ok(3)]) (simp_all add: ref_boost_spec u)
qed

text \<open>An accepted \<open>POST\<close> with an empty body is taken for a read error: the receiving side is
  shut down, the connection is marked and queued for removal, and no answer is written.\<close>

theorem empty_body_is_error:
  assumes "boost_spec (algo env)" and "request_ok meth path hs 0" and "upper meth = ''POST''"
    and "upper path \<in> {''/AA'', ''/BB'', ''/CC''}" and "live c" and "request c = []"
  shows "\<exists>c'. read_head_handler env NoError (head_size meth path hs)
        (receive_head (render_request meth path hs []) c) =
      Inr (c', [Shutdown shutdown_receive, CancelOps, NotifyRemove]) \<and> stats c' = conn_error"
proof -
  have z: "NULC \<notin> set []" "(0::nat) < 2 ^ 31" by simp_all
  obtain c1 where h: "read_head_handler env NoError (head_size meth path hs)
      (receive_head (render_request meth path hs []) c) =
      (if upper meth \<noteq> ''POST'' then answer env content_bad_request Bad_Request (front_do_write env) c1
       else if upper path = ''/AA'' \<or> upper path = ''/BB'' \<or> upper path = ''/CC'' then begin_body env NoError c1
       else answer env content_not_found Not_Found (front_do_write env) c1)"
    and c1: "request c1 = []" "live c1 = live c" "body_length env c1 = of_nat 0"
      "\<forall>u. is_uri env u c1 \<longleftrightarrow> upper path = upper u" "p_buffer c1 = p_buffer c"
    by (rule head_parsed [OF assms(1,2) z(1) assms(6) z(2)]) (rule that; assumption)
  obtain b where "begin_body env NoError c1 =
      read_body_handler env NoError 0 (c1\<lparr>r_size := 0, p_buffer := b, request := []\<rparr>)"
    using begin_body_cases [OF c1(3) z(2), of NoError] c1(1) by (auto simp: Let_def)
  then have "\<exists>c'. begin_body env NoError c1 = Inr (c', [Shutdown shutdown_receive, CancelOps, NotifyRemove]) \<and>
      stats c' = conn_error"
    using c1(2) assms(5) by (auto simp: read_body_handler_def front_conn_error_def notify_conn_error_def live_def)
  then show ?thesis unfolding h using assms(3,4) by auto
qed

theorem empty_body_is_error_witness:
  "\<exists>c'. read_head_handler (example_env []) NoError (head_size ''POST'' ''/cc'' [(''Content-Length'', show_nat 0)])
      (receive_head (render_request ''POST'' ''/cc'' [(''Content-Length'', show_nat 0)] []) example_conn)
    = Inr (c', [Shutdown shutdown_receive, CancelOps, NotifyRemove]) \<and> stats c' = conn_error"
proof -
  have u: "upper ''POST'' = ''POST''" "upper ''/cc'' = ''/CC''"
    "request_ok ''POST'' ''/cc'' [(''Content-Length'', show_nat 0)] 0" by code_simp+
  show ?thesis
    by (rule empty_body_is_error [OF _ u(3)]) (simp_all add: ref_boost_spec u)
qed

text \<open>C38: A negative \<open>Content-Length\<close> of at least \<open>- 2 ^ 31\<close> becomes a length close to \<open>2 ^ 64\<close>. Below
  \<open>-256\<close> the buffer cannot be enlarged that far, which throws. For \<open>-1\<close> it is not enlarged at all,
  and from \<open>-2\<close> to \<open>-256\<close> the new size wraps round to less than 256 bytes: then the bytes that came
  with the head are copied past its end, or, when they fit, the read that is posted for the
  body is larger than the buffer by far.\<close>

theorem negative_length_overruns:
  assumes "live c" and "length (request c) < length (p_buffer c)" and "length (p_buffer c) < 2 ^ 63"
    and "c_str (request_option (algo env) content_length (parser c)) = CHR ''-'' # show_nat n"
    and "0 < n" and "n \<le> 2 ^ 31"
    and "room = (if n = 1 then length (p_buffer c) else 256 - n)"
  shows "if 256 < n then begin_body env ec c = Inl LengthError
    else if request c \<noteq> [] \<and> room \<le> length (request c) then begin_body env ec c = Inl OutOfBounds
    else \<exists>c' off len. begin_body env ec c = Inr (c', [AsyncRead off len]) \<and> length (p_buffer c') = room \<and>
      unat off = length (request c) \<and> unat off + unat len = 2 ^ 64 - n \<and> room < unat off + unat len"
proof -
  define p where "p = length (request c)"
  define big where "big = (- of_nat n :: u64)"
  have len: "body_length env c = big" unfolding body_length_def assms(4) big_def by (rule atoi_size_neg_show_nat [OF assms(6)])
  have up: "unat (of_nat p :: u64) = p" using assms(2,3) by (intro unat_of_nat_small) (simp add: p_def)
  have ub: "unat big = 2 ^ 64 - n" unfolding big_def using assms(5,6) by (intro unat_minus_small) simp_all
  have le: "of_nat p \<le> big" and lt: "of_nat p < big"
    using assms(2,3,6) by (simp_all add: word_le_nat_alt word_less_nat_alt up ub p_def)
  define b1 where "b1 = (if n = 1 then p_buffer c else take room (p_buffer c) @ replicate (room - length (p_buffer c)) NULC)"
  have b1: "length b1 = room" unfolding b1_def assms(7) by (auto simp: min_def)
  have buf: "(if length (p_buffer c) < unat (big + 1) then vec_resize (big + 256) (p_buffer c) else Inr (p_buffer c)) =
      (if 256 < n then Inl LengthError else Inr b1)"
  proof (cases "n = 1")
    case False
    have "big + 1 = - of_nat (n - 1)" using assms(5) by (simp add: big_def of_nat_diff)
    then have "unat (big + 1) = 2 ^ 64 - (n - 1)" using unat_minus_small [of "n - 1"] False assms(5,6) by simp
    then have small: "length (p_buffer c) < unat (big + 1)" using assms(3,6) by simp
    show ?thesis
    proof (cases "256 < n")
      case True
      have "big + 256 = - of_nat (n - 256)" using True by (simp add: big_def of_nat_diff)
      then have "unat (big + 256) = 2 ^ 64 - (n - 256)" using unat_minus_small [of "n - 256"] True assms(6) by simp
      then show ?thesis using small True assms(6) by (simp add: vec_resize_def)
    next
      case le: False
      then have "big + 256 = of_nat (256 - n)" by (simp add: big_def of_nat_diff)
      then have "unat (big + 256) = room" using unat_of_nat_small [of "256 - n"] assms(7) False by simp
      moreover have "room < 2 ^ 63" using assms(7) False by simp
      ultimately show ?thesis using small le False by (simp add: vec_resize_def b1_def)
    qed
  qed (simp add: big_def b1_def)
  have eq: "begin_body env ec c =
      (if 256 < n then Inl LengthError
       else rbind (if request c \<noteq> [] then vec_write b1 0 (request c @ [NULC]) else Inr b1) (\<lambda>b.
         do_read_body env (c\<lparr>r_size := 0, p_buffer := b, request := [], r_size := of_nat p\<rparr>)))"
    using le lt buf unfolding begin_body_def Let_def
    by (simp add: len p_def [symmetric] split del: if_split cong: if_cong) (simp add: p_def)
  show ?thesis
  proof (cases "256 < n \<or> request c \<noteq> [] \<and> room \<le> p")
    case True
    then show ?thesis using b1 by (auto simp: eq vec_write_def p_def)
  next
    case False
    then obtain b where b: "(if request c \<noteq> [] then vec_write b1 0 (request c @ [NULC]) else Inr b1) = Inr b" "length b = room"
      using b1 by (cases "request c = []") (auto simp: vec_write_def p_def)
    define c1 where "c1 = c\<lparr>r_size := 0, p_buffer := b, request := [], r_size := of_nat p\<rparr>"
    have "begin_body env ec c = do_read_body env c1" using False b by (simp add: eq c1_def split del: if_split)
    also have "\<dots> = Inr (touch_sock_time (now env) c1, [AsyncRead (of_nat p) (big - of_nat p)])"
      using do_read_body_live [of c1 env] assms(1) len by (simp add: c1_def body_length_def)
    finally have r: "begin_body env ec c = Inr (touch_sock_time (now env) c1, [AsyncRead (of_nat p) (big - of_nat p)])" .
    have "unat (big - of_nat p) = 2 ^ 64 - n - p" using le by (simp add: unat_sub up ub)
    moreover have "room < 2 ^ 64 - n" using assms(3,5-7) by (auto split: if_splits)
    ultimately have "unat (of_nat p :: u64) + unat (big - of_nat p) = 2 ^ 64 - n"
      "room < unat (of_nat p :: u64) + unat (big - of_nat p)" "unat (of_nat p :: u64) = length (request c)"
      using up le ub by (simp_all add: word_le_nat_alt p_def)
    with False r b(2) show ?thesis
      by (simp add: keeps c1_def p_def)
  qed
qed

theorem negative_length_overruns_witness:
  "let c = example_conn\<lparr>request := ''{'', parser := [(''Content-Length'', ''-5'')]\<rparr> in
   \<exists>c' off len. begin_body (example_env []) NoError c = Inr (c', [AsyncRead off len]) \<and>
     length (p_buffer c') = 251 \<and> unat off + unat len = 2 ^ 64 - 5"
proof -
  let ?c = "example_conn\<lparr>request := ''{'', parser := [(''Content-Length'', ''-5'')]\<rparr>"
  have s: "iequals ref_boost content_length ''Content-Length''" "c_str ''-5'' = ''-5''" "CHR ''-'' # show_nat 5 = ''-5''" by code_simp+
  have "c_str (request_option (algo (example_env [])) content_length (parser ?c)) = CHR ''-'' # show_nat 5"
    using s(1,2) unfolding s(3) by (simp add: content_length_def)
  from negative_length_overruns [OF _ _ _ this, of 251 NoError] show ?thesis
    unfolding Let_def by (simp add: buffer_size_def) blast
qed

section \<open>Forwarding to the backend\<close>

lemma handle_bb_forwards:
  assumes "live c" and "unat (r_size c) \<le> length (p_buffer c)"
    and "body = c_str (take (unat (r_size c)) (p_buffer c))"
    and "parse_message (stale_errno env) body = (j, [])"
    and "id_field j ''session_id'' = Inr session_id" and "id_field j ''site_id'' = Inr site_id"
    and "fetch_upstream env = Inr page" and "length (date env) < 2 ^ 60"
    and "case page of None \<Rightarrow> True | Some ret_str \<Rightarrow> length ret_str < 2 ^ 31"
  shows "\<exists>c' acts. handle_bb env c =
      Inr (c', PushBackend site_id (body @ [NULC]) (of_nat (length body + 1)) # acts) \<and>
      (case page of
         None \<Rightarrow> acts = [] \<and> c' = c
       | Some ret_str \<Rightarrow> \<exists>w. acts = [w, AsyncReadUntil] \<and> write_bytes c' w = reply_of env ret_str Ok)"
proof -
  obtain s where s: "p_sock c = Some s" using assms(1) by (auto simp: live_def)
  have eq: "handle_bb env c =
      rbind (case page of None \<Rightarrow> Inr (c, []) | Some ret_str \<Rightarrow> answer env ret_str Ok (write_and_read env) c)
        (\<lambda>(c, acts). Inr (c, PushBackend site_id (body @ [NULC]) (of_nat (length body + 1)) # acts))"
    using assms(2,4-7) s by (simp add: handle_bb_def assms(3) [symmetric] Let_def)
  show ?thesis
  proof (cases page)
    case (Some ret_str)
    define enc where "enc = reply_of env ret_str Ok"
    have small: "length enc < 2 ^ 62"
      unfolding enc_def using Some assms(9) by (intro reply_of_small [OF assms(8)]) simp
    have ne: "enc \<noteq> []" unfolding enc_def by (rule reply_of_nonempty)
    have "answer env ret_str Ok (write_and_read env) c =
        Inr (touch_sock_time (now env) (filled enc c), [AsyncWrite 0 (of_nat (length enc)), AsyncReadUntil])"
      using small answer_eq [of env ret_str Ok] write_and_read_filled [OF assms(1) ne small] by (simp add: enc_def)
    then show ?thesis using Some filled_writes(2) [OF assms(1) ne small, of "now env"]
      unfolding eq enc_def
      by (intro exI [of _ "touch_sock_time (now env) (filled (reply_of env ret_str Ok) c)"]
          exI [of _ "[AsyncWrite 0 (of_nat (length (reply_of env ret_str Ok))), AsyncReadUntil]"])
        (simp del: write_bytes.simps)
  qed (simp add: eq)
qed

text \<open>C12: A well-formed JSON body for \<open>/bb\<close> is handed to the backend first, NUL-terminated, under its
  \<open>site_id\<close>. Then the fetched page is the answer; but when the upstream server cannot be
  reached or sends nothing, no operation at all is posted: the client gets no answer and the
  connection is never read again.\<close>

theorem bb_forwards_then_answers:
  assumes "live c" and "unat (r_size c) \<le> length (p_buffer c)"
    and "body = c_str (take (unat (r_size c)) (p_buffer c))"
    and "parse_message (stale_errno env) body = (j, [])"
    and "id_field j ''session_id'' = Inr session_id" and "id_field j ''site_id'' = Inr site_id"
    and "fetch_upstream env = Inr page" and "length (date env) < 2 ^ 60"
    and "case page of None \<Rightarrow> True | Some ret_str \<Rightarrow> length ret_str < 2 ^ 31"
  shows "\<exists>c' acts. handle_bb env c =
      Inr (c', PushBackend site_id (body @ [NULC]) (of_nat (length body + 1)) # acts) \<and>
      (case page of
         None \<Rightarrow> acts = [] \<and> c' = c
       | Some ret_str \<Rightarrow> \<exists>w. acts = [w, AsyncReadUntil] \<and> write_bytes c' w = reply_of env ret_str Ok)"
  using assms by (rule handle_bb_forwards)

theorem bb_forwards_then_answers_witness:
  "\<exists>c' acts. handle_bb (example_env []) (example_conn\<lparr>r_size := 2, p_buffer := ''{}''\<rparr>) =
     Inr (c', [PushBackend 0 (''{}'' @ [NULC]) 3])"
proof -
  let ?c = "example_conn\<lparr>r_size := 2, p_buffer := ''{}''\<rparr>"
  have p: "parse_message False ''{}'' = (JsonObject [], [])" "id_field (JsonObject []) ''session_id'' = Inr 0"
    "id_field (JsonObject []) ''site_id'' = Inr 0"
    by code_simp+
  have f: "fetch_upstream (example_env []) = Inr None"
    by (simp add: fetch_upstream_def sync_timed_connect_def piece_io_def sync_timed_read_some_def
      sync_read_some_def vec_write_def)
  have b: "''{}'' = c_str (take (unat (r_size ?c)) (p_buffer ?c))" by (simp add: c_str_def)
  show ?thesis
    using bb_forwards_then_answers [of ?c "''{}''" "example_env []" "JsonObject []" 0 0 None] p f b by simp
qed

end
