(* ===== verification/Http_Server.thy ===== *)
theory Http_Server
  imports Front_Conn_Facts
begin

text \<open>
  \<open>http_server.hpp\<close> and \<open>http_server.cpp\<close>: the registry of client connections, the cache of
  idle ones, the set waiting for removal and the timing wheel, with the operations on them.
  Connection objects live in a heap indexed by their address. A shared pointer to an object is
  held by the registry, the removal set, the cache, and every outstanding asynchronous
  operation; a weak pointer can be locked as long as one of these is left.
\<close>

section \<open>State\<close>

record server =
  max_serve_conns_cnt :: u64
  current_conns_cnt :: u64
  front_conns :: "(nat \<times> u64) list"       \<comment> \<open>the left view of the bimap: connection to session id\<close>
  pending_to_remove :: "nat list"
  conn_expired_time :: u64
  timing_wheel :: "nat list list"          \<comment> \<open>a circular buffer of sets of weak pointers\<close>
  cached_conns :: "nat list"
  objects :: "nat \<Rightarrow> front_conn"           \<comment> \<open>the heap\<close>
  handlers :: "nat \<Rightarrow> nat"                 \<comment> \<open>outstanding operations that hold the object\<close>
  next_object :: nat                       \<comment> \<open>addresses from here on are unused\<close>

definition wheel_capacity :: nat where
  "wheel_capacity = 10"

text \<open>The constructor leaves \<open>conn_expired_time_\<close> uninitialised; \<open>run\<close> fills the wheel.\<close>

definition new_server :: "u64 \<Rightarrow> server" where
  "new_server garbage =
     \<lparr> max_serve_conns_cnt = 1024, current_conns_cnt = 0, front_conns = [], pending_to_remove = [],
       conn_expired_time = garbage, timing_wheel = [], cached_conns = [],
       objects = (\<lambda>_. fresh_front_conn 0 0), handlers = (\<lambda>_. 0), next_object = 0 \<rparr>"

text \<open>\<open>circular_buffer::push_back\<close> drops the first element when the buffer is full.\<close>

definition wheel_push :: "nat list \<Rightarrow> nat list list \<Rightarrow> nat list list" where
  "wheel_push b w = (if length w < wheel_capacity then w @ [b] else tl w @ [b])"

definition fill_wheel :: "server \<Rightarrow> server" where
  "fill_wheel s = s\<lparr>timing_wheel := fold (\<lambda>_. wheel_push []) [0..<wheel_capacity] (timing_wheel s)\<rparr>"

text \<open>\<open>timing_wheel_.back ().insert (front_conn_weak (p))\<close>.\<close>

definition wheel_back_insert :: "nat \<Rightarrow> server \<Rightarrow> server result" where
  "wheel_back_insert p s =
     (if timing_wheel s = [] then Inl OutOfBounds
      else Inr (s\<lparr>timing_wheel := butlast (timing_wheel s) @ [set_insert p (last (timing_wheel s))]\<rparr>))"

definition use_count :: "server \<Rightarrow> nat \<Rightarrow> nat" where
  "use_count s p =
     length (filter (\<lambda>e. fst e = p) (front_conns s)) + count_list (pending_to_remove s) p +
     count_list (cached_conns s) p + handlers s p"

section \<open>Limits\<close>

text \<open>\<open>rlimit\<close> is the outcome of \<open>getrlimit (RLIMIT_NOFILE)\<close>.\<close>

definition set_max_serve_conns_cnt :: "u64 option \<Rightarrow> u64 \<Rightarrow> server \<Rightarrow> bool \<times> server" where
  "set_max_serve_conns_cnt rlimit cnt s =
     (case rlimit of
        None \<Rightarrow> (False, s)
      | Some rlim_cur \<Rightarrow>
          if rlim_cur < cnt then (False, s) else (True, s\<lparr>max_serve_conns_cnt := cnt\<rparr>))"

definition set_conn_expired_time :: "u64 \<Rightarrow> server \<Rightarrow> server" where
  "set_conn_expired_time new_time s =
     (if of_nat wheel_capacity < new_time then s\<lparr>conn_expired_time := new_time\<rparr> else s)"

definition get_conn_check_spare :: "server \<Rightarrow> u64 result" where
  "get_conn_check_spare s =
     rbind (require (conn_expired_time s div of_nat wheel_capacity \<noteq> 0) AssertFailed) (\<lambda>_.
     Inr (conn_expired_time s div of_nat wheel_capacity))"

text \<open>\<open>static_cast<size_t> (max_serve_conns_cnt_ * 0.3)\<close>, in double arithmetic.\<close>

definition cache_limit :: "server \<Rightarrow> u64 result" where
  "cache_limit s =
     (case dbl_to_u64 (dbl_mul (dbl_of_int (uint (max_serve_conns_cnt s))) (dbl_round False 3 10)) of
        Some n \<Rightarrow> Inr n | None \<Rightarrow> Inl BadCast)"

section \<open>Sessions\<close>

definition request_session_id :: "nat \<Rightarrow> server \<Rightarrow> u64" where
  "request_session_id ptr s =
     (case map_of (front_conns s) ptr of None \<Rightarrow> - 1 | Some session_id \<Rightarrow> session_id)"

definition set_session_id :: "nat \<Rightarrow> u64 \<Rightarrow> server \<Rightarrow> bool \<times> server" where
  "set_session_id ptr session_id s =
     (case map_of (front_conns s) ptr of
        None \<Rightarrow> (False, s)
      | Some _ \<Rightarrow> (True, s\<lparr>front_conns := map_assign ptr session_id (front_conns s)\<rparr>))"

definition request_connection :: "u64 \<Rightarrow> server \<Rightarrow> nat option result" where
  "request_connection session_id s =
     rbind (require (session_id \<noteq> 0) AssertFailed) (\<lambda>_.
     rbind (require (session_id \<noteq> - 1) AssertFailed) (\<lambda>_.
     case filter (\<lambda>e. snd e = session_id) (front_conns s) of
       [] \<Rightarrow> Inr None
     | e # es \<Rightarrow> rbind (require (es = []) AssertFailed) (\<lambda>_. Inr (Some (fst e)))))"

section \<open>Running a connection's operation in the server\<close>

definition is_async :: "action \<Rightarrow> bool" where
  "is_async a = (case a of AsyncReadUntil \<Rightarrow> True | AsyncRead _ _ \<Rightarrow> True | AsyncWrite _ _ \<Rightarrow> True | _ \<Rightarrow> False)"

definition push_to_remove :: "nat \<Rightarrow> server \<Rightarrow> server" where
  "push_to_remove ptr s = s\<lparr>pending_to_remove := set_insert ptr (pending_to_remove s)\<rparr>"

text \<open>
  An operation of the object at \<open>p\<close> is done: the object is updated, each asynchronous operation
  it posted holds the object, and \<open>notify_conn_error\<close> queued it for removal.
\<close>

definition settle :: "nat \<Rightarrow> front_conn \<Rightarrow> action list \<Rightarrow> server \<Rightarrow> server" where
  "settle p c acts s =
     (let s = s\<lparr>objects := (objects s)(p := c),
                handlers := (handlers s)(p := handlers s p + length (filter is_async acts))\<rparr>
      in if NotifyRemove \<in> set acts then push_to_remove p s else s)"

definition run_on ::
  "nat \<Rightarrow> (front_conn \<Rightarrow> front_conn outcome) \<Rightarrow> server \<Rightarrow> (server \<times> action list) result" where
  "run_on p f s = rbind (f (objects s p)) (\<lambda>(c, acts). Inr (settle p c acts s, acts))"

text \<open>\<open>backend_server::push_front\<close>.\<close>

definition push_front ::
  "'s env \<Rightarrow> u64 \<Rightarrow> string option \<Rightarrow> u64 \<Rightarrow> server \<Rightarrow> (server \<times> action list) result" where
  "push_front env session_id dat len s =
     (if session_id = 0 \<or> dat = None \<or> len = 0 then Inr (s, [])
      else
        rbind (request_connection session_id s) (\<lambda>ptr.
        case ptr of
          None \<Rightarrow> Inr (s, [])
        | Some p \<Rightarrow>
            run_on p (\<lambda>c. rbind (fill_for_http_data (date env) dat len (status Ok) c) (front_do_write env)) s))"

section \<open>Accepting\<close>

text \<open>
  What the acceptor's handler does up to \<open>new_c->start ()\<close>. \<open>peer\<close> tells whether the address of
  the peer can be asked for (\<open>remote_endpoint ()\<close> throws otherwise).
\<close>

datatype accepted = AcceptFailed | Refused "action list" | Accepted_conn nat

definition accept_conn ::
  "'s env \<Rightarrow> bool \<Rightarrow> bool \<Rightarrow> unit sock_option \<Rightarrow> nat \<Rightarrow> server \<Rightarrow> (server \<times> accepted) result" where
  "accept_conn env ec peer no_delay sock s =
     (if ec then Inr (s, AcceptFailed)
      else if \<not> peer then Inl SystemError
      else if max_serve_conns_cnt s \<le> current_conns_cnt s
      then Inr (s, Refused [Shutdown shutdown_both, CloseSock])
      else
        rbind
          (case cached_conns s of
             p # ps \<Rightarrow>
               let s = s\<lparr>cached_conns := ps\<rparr> in
               rbind (require (use_count s p = 0) AssertFailed) (\<lambda>_.
               Inr (s\<lparr>objects := (objects s)(p := conn_reset_network sock (now env) (objects s p))\<rparr>, p))
           | [] \<Rightarrow>
               rbind (new_front_conn no_delay sock (now env)) (\<lambda>c.
               let p = next_object s in
               Inr (s\<lparr>objects := (objects s)(p := c), next_object := p + 1\<rparr>, p)))
          (\<lambda>(s, new_c).
           rbind (wheel_back_insert new_c
                    (s\<lparr>front_conns := map_insert new_c 0 (front_conns s),
                       current_conns_cnt := current_conns_cnt s + 1\<rparr>)) (\<lambda>s.
           Inr (s, Accepted_conn new_c))))"

text \<open>The whole handler; the flag tells whether \<open>do_accept\<close> is called again.\<close>

definition accept_handler ::
  "'s env \<Rightarrow> bool \<Rightarrow> bool \<Rightarrow> unit sock_option \<Rightarrow> nat \<Rightarrow> server \<Rightarrow> (server \<times> action list \<times> bool) result" where
  "accept_handler env ec peer no_delay sock s =
     rbind (accept_conn env ec peer no_delay sock s) (\<lambda>(s, r).
     case r of
       AcceptFailed \<Rightarrow> Inr (s, [], False)
     | Refused acts \<Rightarrow> Inr (s, acts, True)
     | Accepted_conn p \<Rightarrow> rbind (run_on p (front_start env) s) (\<lambda>(s, acts). Inr (s, acts, True)))"

section \<open>Statistics\<close>

record session_info = conns_info +
  normal_cnt :: nat
  zero_cnt :: nat
  negone_cnt :: nat

definition count_session :: "u64 \<Rightarrow> session_info \<Rightarrow> session_info" where
  "count_session session_id info =
     (if session_id = 0 then info\<lparr>zero_cnt := zero_cnt info + 1\<rparr>
      else if session_id = - 1 then info\<lparr>negone_cnt := negone_cnt info + 1\<rparr>
      else info\<lparr>normal_cnt := normal_cnt info + 1\<rparr>)"

definition count_stats :: "connection_stats \<Rightarrow> session_info \<Rightarrow> session_info" where
  "count_stats st info =
     (let info = (if st = conn_working then info\<lparr>work_cnt := work_cnt info + 1\<rparr> else info);
          info = (if st = conn_pending then info\<lparr>pend_cnt := pend_cnt info + 1\<rparr> else info)
      in (if st = conn_error then info\<lparr>err_cnt := err_cnt info + 1\<rparr> else info))"

definition front_conns_info :: "server \<Rightarrow> session_info" where
  "front_conns_info s =
     fold (\<lambda>(p, session_id) info.
             let info = count_session session_id (count_stats (stats (objects s p)) info)
             in info\<lparr>total_cnt := total_cnt info + 1\<rparr>)
       (front_conns s)
       \<lparr> total_cnt = 0, work_cnt = 0, pend_cnt = 0, err_cnt = 0,
         normal_cnt = 0, zero_cnt = 0, negone_cnt = 0 \<rparr>"

end
