(* ===== verification/Workers.thy ===== *)
theory Workers
  imports Http_Server
begin

text \<open>
  The two helper threads: \<open>co_worker.cpp\<close>, which turns the timing wheel and expires idle
  connections, and the loop of \<open>manage.cpp\<close>, which removes the connections queued for removal
  and recycles them.
\<close>

section \<open>The co-worker\<close>

text \<open>\<open>timed_cancel_socket\<close>: what it does to the socket.\<close>

definition timed_cancel_socket :: "error_code \<Rightarrow> action list" where
  "timed_cancel_socket ec = (if ec = OperationAborted then [] else [Shutdown shutdown_both])"

text \<open>
  One element of the first bucket: the server, \<open>front_modi\<close>, \<open>notify_flag\<close>, and the sockets
  shut down so far.
\<close>

type_synonym check_state = "server \<times> nat list \<times> bool \<times> (nat \<times> action) list"

definition wheel_check_item :: "int \<Rightarrow> u64 \<Rightarrow> nat \<Rightarrow> check_state \<Rightarrow> check_state result" where
  "wheel_check_item local_time spare item st =
     (case st of (s, front_modi, notify_flag, acts) \<Rightarrow>
      if use_count s item \<noteq> 0 then
        if stats (objects s item) = conn_pending then
          rbind (require (item \<in> set (cached_conns s)) AssertFailed) (\<lambda>_.
          Inr (s, removeAll item front_modi, notify_flag, acts))
        else if touch_time (objects s item) + sint (conn_expired_time s - spare) \<le> local_time then
          rbind (require (p_sock (objects s item) \<noteq> None) NullPointer) (\<lambda>_.
          let s = s\<lparr>objects := (objects s)(item := (objects s item)\<lparr>stats := conn_error\<rparr>)\<rparr> in
          Inr (push_to_remove item s, removeAll item front_modi, True, acts @ [(item, Shutdown shutdown_both)]))
        else Inr (s, front_modi, notify_flag, acts)
      else Inr (s, removeAll item front_modi, notify_flag, acts))"

fun wheel_check_items :: "int \<Rightarrow> u64 \<Rightarrow> nat list \<Rightarrow> check_state \<Rightarrow> check_state result" where
  "wheel_check_items local_time spare [] st = Inr st"
| "wheel_check_items local_time spare (item # items) st =
     rbind (wheel_check_item local_time spare item st) (wheel_check_items local_time spare items)"

text \<open>The handler; the result carries \<open>notify_flag\<close>.\<close>

definition timing_wheel_check :: "int \<Rightarrow> server \<Rightarrow> (server \<times> bool \<times> (nat \<times> action) list) result" where
  "timing_wheel_check local_time s =
     rbind (require (timing_wheel s \<noteq> []) OutOfBounds) (\<lambda>_.
     rbind (get_conn_check_spare s) (\<lambda>spare.
     rbind (wheel_check_items local_time spare (hd (timing_wheel s)) (s, hd (timing_wheel s), False, []))
       (\<lambda>(s, front_modi, notify_flag, acts).
        Inr (s\<lparr>timing_wheel := wheel_push front_modi (timing_wheel s)\<rparr>, notify_flag, acts))))"

section \<open>The manage thread\<close>

text \<open>A connection that was taken out of the registry is cleaned and cached while there is room.\<close>

definition recycle :: "nat \<Rightarrow> server \<Rightarrow> server result" where
  "recycle item s =
     rbind (cache_limit s) (\<lambda>limit.
     if of_nat (length (cached_conns s)) < limit then
       rbind (conn_wash_white (objects s item)) (\<lambda>c.
       Inr (s\<lparr>objects := (objects s)(item := c), cached_conns := cached_conns s @ [item]\<rparr>))
     else Inr s)"

definition manage_item :: "nat \<Rightarrow> server \<Rightarrow> server result" where
  "manage_item item s =
     (if item \<in> fst ` set (front_conns s) then
        rbind (if 2 < use_count s item then wheel_back_insert item s else Inr s) (\<lambda>s.
        recycle item (s\<lparr>front_conns := map_erase item (front_conns s),
                        current_conns_cnt := current_conns_cnt s - 1\<rparr>))
      else Inr s)"

fun manage_items :: "nat list \<Rightarrow> server \<Rightarrow> server result" where
  "manage_items [] s = Inr s"
| "manage_items (item # items) s = rbind (manage_item item s) (manage_items items)"

text \<open>The branch of the loop taken after a notification.\<close>

definition manage_notified :: "server \<Rightarrow> server result" where
  "manage_notified s =
     (if pending_to_remove s = [] then Inr s
      else
        rbind (manage_items (pending_to_remove s) s) (\<lambda>s.
        let s = s\<lparr>pending_to_remove := []\<rparr> in
        rbind (require (of_nat (length (front_conns s)) = current_conns_cnt s) AssertFailed) (\<lambda>_.
        Inr s)))"

text \<open>The branch taken when the wait timed out: the statistics that are printed.\<close>

definition manage_timed_out :: "server \<Rightarrow> backend_conns \<Rightarrow> session_info \<times> conns_info" where
  "manage_timed_out s bs = (front_conns_info s, backend_conns_info bs)"

section \<open>Start-up\<close>

text \<open>The settings \<open>main\<close> makes before it starts the threads, and \<open>http_server::run\<close>.\<close>

definition configured :: "u64 option \<Rightarrow> u64 \<Rightarrow> server" where
  "configured rlimit garbage =
     fill_wheel (set_conn_expired_time 20 (snd (set_max_serve_conns_cnt rlimit 100 (new_server garbage))))"

end
