(* ===== verification/Server_Facts.thy ===== *)
theory Server_Facts
  imports Workers
begin

text \<open>
  The invariant of the server's registry and what keeps it. The interface between a connection
  and the server that runs its operations is the locale \<open>conn_operation\<close>: an operation that
  leaves a recycled connection dormant. Every handler of \<open>front_conn\<close> provides it.
\<close>

section \<open>Dormant connections\<close>

text \<open>A connection in the cache: pending, without a socket.\<close>

definition dormant :: "front_conn \<Rightarrow> bool" where
  "dormant c \<longleftrightarrow> stats c = conn_pending \<and> p_sock c = None"

text \<open>
  What every operation of a connection does to its state: it keeps the socket; it changes the
  status only to the error that it reports for removal; and without a socket it neither posts
  anything nor asks to be removed.
\<close>

definition behaves :: "front_conn \<Rightarrow> front_conn outcome \<Rightarrow> bool" where
  "behaves c r \<longleftrightarrow>
     (\<forall>c' acts. r = Inr (c', acts) \<longrightarrow>
        p_sock c' = p_sock c \<and>
        stats c' = (if NotifyRemove \<in> set acts then conn_error else stats c) \<and>
        (p_sock c = None \<longrightarrow> filter is_async acts = [] \<and> NotifyRemove \<notin> set acts))"

text \<open>An operation that also never asks for removal.\<close>

definition behaves_quietly :: "front_conn \<Rightarrow> front_conn outcome \<Rightarrow> bool" where
  "behaves_quietly c r \<longleftrightarrow> behaves c r \<and> (\<forall>c' acts. r = Inr (c', acts) \<longrightarrow> NotifyRemove \<notin> set acts)"

named_theorems behaviour \<open>operations that behave\<close>

lemma behaves_Inl [simp]: "behaves c (Inl e)" "behaves_quietly c (Inl e)"
  by (simp_all add: behaves_def behaves_quietly_def)

lemma behaves_idle [simp]:
  "stats c' = stats c \<Longrightarrow> p_sock c' = p_sock c \<Longrightarrow> behaves_quietly c (Inr (c', []))"
  by (simp add: behaves_def behaves_quietly_def)

lemma quietly_behaves: "behaves_quietly c r \<Longrightarrow> behaves c r"
  by (simp add: behaves_quietly_def)

lemma behaves_same:
  "behaves c1 r \<Longrightarrow> stats c1 = stats c \<Longrightarrow> p_sock c1 = p_sock c \<Longrightarrow> behaves c r"
  unfolding behaves_def by (simp only:)

lemma quietly_same:
  "behaves_quietly c1 r \<Longrightarrow> stats c1 = stats c \<Longrightarrow> p_sock c1 = p_sock c \<Longrightarrow> behaves_quietly c r"
  unfolding behaves_quietly_def behaves_def by (simp only:)

lemma behaves_rbind: "(\<And>x. r = Inr x \<Longrightarrow> behaves c (f x)) \<Longrightarrow> behaves c (rbind r f)"
  by (cases r) simp_all

lemma quietly_rbind:
  "(\<And>x. r = Inr x \<Longrightarrow> behaves_quietly c (f x)) \<Longrightarrow> behaves_quietly c (rbind r f)"
  by (cases r) simp_all

lemma behaves_followed_by:
  assumes "behaves_quietly c r" and "\<And>c1. stats c1 = stats c \<Longrightarrow> p_sock c1 = p_sock c \<Longrightarrow> behaves_quietly c1 (f c1)"
  shows "behaves_quietly c (followed_by r f)"
proof (cases r)
  case (Inr x)
  obtain c1 acts where x: "x = (c1, acts)" by (cases x)
  with assms(1) Inr have 1: "stats c1 = stats c" "p_sock c1 = p_sock c" "NotifyRemove \<notin> set acts"
    "p_sock c = None \<longrightarrow> filter is_async acts = []"
    by (auto simp: behaves_quietly_def behaves_def)
  with assms(2) have 2: "behaves_quietly c1 (f c1)" by simp
  show ?thesis
  proof (cases "f c1")
    case (Inl e)
    then show ?thesis by (simp add: followed_by_def \<open>r = Inr x\<close> x)
  next
    case f: (Inr y)
    obtain c2 acts2 where y: "y = (c2, acts2)" by (cases y)
    have "p_sock c2 = p_sock c1" "NotifyRemove \<notin> set acts2" "stats c2 = stats c1"
      "p_sock c1 = None \<longrightarrow> filter is_async acts2 = []"
      using 2 unfolding f y behaves_quietly_def behaves_def by auto
    then show ?thesis using 1
      by (simp add: followed_by_def \<open>r = Inr x\<close> x f y behaves_quietly_def behaves_def)
  qed
qed (simp add: followed_by_def)

lemma behaves_post: "act \<noteq> NotifyRemove \<Longrightarrow> behaves_quietly c (post act c)"
  by (simp add: post_def behaves_def behaves_quietly_def)

lemma behaves_on_sock: "NotifyRemove \<notin> set acts \<Longrightarrow> behaves_quietly c (on_sock acts c)"
  by (auto simp: on_sock_def behaves_def behaves_quietly_def)

lemma front_do_write_behaves [behaviour]: "behaves_quietly c (front_do_write env c)"
  unfolding front_do_write_def Let_def
  by (auto intro!: quietly_rbind intro: quietly_same [OF behaves_post] simp: keeps)

lemma do_read_head_behaves [behaviour]: "behaves_quietly c (do_read_head env c)"
  unfolding do_read_head_def by (auto intro: quietly_same [OF behaves_post] simp: keeps)

lemma do_read_body_behaves [behaviour]: "behaves_quietly c (do_read_body env c)"
  unfolding do_read_body_def Let_def by (auto intro: quietly_same [OF behaves_post] simp: keeps)

lemma write_and_read_behaves [behaviour]: "behaves_quietly c (write_and_read env c)"
  unfolding write_and_read_def by (intro behaves_followed_by behaviour)

lemma store_reply_same:
  "store_reply enc c = Inr c' \<Longrightarrow> stats c' = stats (c :: front_conn) \<and> p_sock c' = p_sock c"
  by (auto simp: store_reply_def rbind_Inr_iff)

lemma answer_behaves:
  assumes "\<And>c. behaves_quietly c (k c)"
  shows "behaves_quietly c (answer env content stat k c)"
  unfolding answer_def fill_for_http_def
  by (rule quietly_rbind) (use assms store_reply_same quietly_same in blast)

lemma front_conn_error_behaves [behaviour]: "behaves c (front_conn_error w c)"
  by (auto simp: front_conn_error_def followed_by_def on_sock_def notify_conn_error_def behaves_def)

lemma handle_bb_behaves [behaviour]: "behaves_quietly c (handle_bb env c)"
proof -
  obtain j e where "parse_message (stale_errno env) (c_str (take (unat (r_size c)) (p_buffer c))) = (j, e)" by fastforce
  then show ?thesis unfolding handle_bb_def
    by (auto simp: Let_def intro!: quietly_rbind answer_behaves behaviour behaves_followed_by behaves_on_sock
      split: option.split)
qed

lemma answer_read_behaves [behaviour]: "behaves_quietly c (answer env content stat (write_and_read env) c)"
  by (intro answer_behaves behaviour)

lemma answer_write_behaves [behaviour]: "behaves_quietly c (answer env content stat (front_do_write env) c)"
  by (intro answer_behaves behaviour)

lemma read_body_handler_behaves [behaviour]: "behaves c (read_body_handler env ec n c)"
proof -
  define c1 where "c1 = c\<lparr>r_size := r_size c + of_nat n\<rparr>"
  have s: "stats c1 = stats c" "p_sock c1 = p_sock c" by (simp_all add: c1_def)
  note q = quietly_behaves [OF quietly_same [OF _ s]]
  show ?thesis unfolding read_body_handler_def Let_def c1_def [symmetric]
    by (auto intro!: q [OF do_read_body_behaves] q [OF answer_read_behaves] q [OF handle_bb_behaves]
      quietly_behaves [OF answer_read_behaves] front_conn_error_behaves)
qed

lemma begin_body_behaves [behaviour]: "behaves c (begin_body env ec c)"
  unfolding begin_body_def Let_def
  by (intro behaves_rbind)
    (auto intro!: quietly_behaves [OF quietly_same [OF do_read_body_behaves]]
      behaves_same [OF read_body_handler_behaves])

lemma error_return_behaves [behaviour]: "behaves c (error_return env c)"
  unfolding error_return_def
  by (intro quietly_behaves answer_behaves quietly_same [OF front_do_write_behaves]) simp_all

lemma read_head_handler_behaves [behaviour]: "behaves c (read_head_handler env ec n c)"
  unfolding read_head_handler_def Let_def
  by (auto intro!: behaves_rbind front_conn_error_behaves error_return_behaves
      behaves_same [OF error_return_behaves] behaves_same [OF begin_body_behaves]
      quietly_behaves [OF quietly_same [OF answer_write_behaves]])

lemma write_handler_behaves [behaviour]: "behaves c (write_handler env ec n c)"
  unfolding write_handler_def Let_def
  by (auto intro!: front_conn_error_behaves quietly_behaves [OF quietly_same [OF front_do_write_behaves]]
      quietly_behaves [OF behaves_idle])

section \<open>The invariant\<close>

text \<open>
  \<open>Q\<close> is what is still to be removed: the set of queued connections, or the rest of it while the
  manage thread works through it.
\<close>

definition registered :: "server \<Rightarrow> nat set" where
  "registered s = fst ` set (front_conns s)"

definition wheel_members :: "server \<Rightarrow> nat set" where
  "wheel_members s = \<Union> (set ` set (timing_wheel s))"

definition counts_ok :: "server \<Rightarrow> bool" where
  "counts_ok s \<longleftrightarrow> sorted_keys (front_conns s) \<and>
     current_conns_cnt s = of_nat (length (front_conns s)) \<and>
     length (front_conns s) \<le> unat (max_serve_conns_cnt s)"

definition cache_ok :: "server \<Rightarrow> bool" where
  "cache_ok s \<longleftrightarrow> distinct (cached_conns s) \<and> set (cached_conns s) \<inter> registered s = {} \<and>
     (\<forall>p \<in> set (cached_conns s). dormant (objects s p)) \<and>
     (\<forall>limit. cache_limit s = Inr limit \<longrightarrow> length (cached_conns s) \<le> unat limit)"

definition tracked :: "nat set \<Rightarrow> server \<Rightarrow> bool" where
  "tracked Q s \<longleftrightarrow> registered s \<subseteq> wheel_members s \<union> Q \<and> length (timing_wheel s) = wheel_capacity"

definition addresses_ok :: "server \<Rightarrow> bool" where
  "addresses_ok s \<longleftrightarrow>
     (\<forall>p. p \<in> registered s \<or> p \<in> set (cached_conns s) \<or> p \<in> set (pending_to_remove s) \<or>
          p \<in> wheel_members s \<or> 0 < handlers s p \<longrightarrow> p < next_object s)"

definition sessions_zero :: "server \<Rightarrow> bool" where
  "sessions_zero s \<longleftrightarrow> (\<forall>e \<in> set (front_conns s). snd e = 0)"

definition pending_ok :: "server \<Rightarrow> bool" where
  "pending_ok s \<longleftrightarrow> sorted_wrt (<) (pending_to_remove s) \<and>
     (\<forall>p \<in> set (pending_to_remove s). stats (objects s p) \<noteq> conn_working)"

definition server_inv :: "nat set \<Rightarrow> server \<Rightarrow> bool" where
  "server_inv Q s \<longleftrightarrow> counts_ok s \<and> cache_ok s \<and> tracked Q s \<and> addresses_ok s \<and> sessions_zero s \<and> pending_ok s"

lemmas inv_defs = server_inv_def counts_ok_def cache_ok_def tracked_def addresses_ok_def sessions_zero_def pending_ok_def
  registered_def wheel_members_def

lemma cache_limit_cong: "max_serve_conns_cnt s = max_serve_conns_cnt t \<Longrightarrow> cache_limit s = cache_limit t"
  by (simp add: cache_limit_def)

text \<open>The registry, the cache and the wheel do not change when an operation of an object settles.\<close>

lemma settle_keeps [keeps]:
  "front_conns (settle p c acts s) = front_conns s" "cached_conns (settle p c acts s) = cached_conns s"
  "timing_wheel (settle p c acts s) = timing_wheel s" "next_object (settle p c acts s) = next_object s"
  "max_serve_conns_cnt (settle p c acts s) = max_serve_conns_cnt s"
  "current_conns_cnt (settle p c acts s) = current_conns_cnt s"
  "conn_expired_time (settle p c acts s) = conn_expired_time s"
  "objects (settle p c acts s) = (objects s)(p := c)"
  "handlers (settle p c acts s) = (handlers s)(p := handlers s p + length (filter is_async acts))"
  "set (pending_to_remove (settle p c acts s)) =
     (if NotifyRemove \<in> set acts then insert p (set (pending_to_remove s)) else set (pending_to_remove s))"
  by (simp_all add: settle_def push_to_remove_def Let_def)

lemma settle_sorted:
  "sorted_wrt (<) (pending_to_remove s) \<Longrightarrow> sorted_wrt (<) (pending_to_remove (settle p c acts s))"
  by (simp add: settle_def push_to_remove_def Let_def sorted_set_insert)

lemma settle_inv:
  assumes "server_inv (set (pending_to_remove s)) s" and "p < next_object s"
    and "dormant (objects s p) \<Longrightarrow> dormant c"
    and "stats c = (if NotifyRemove \<in> set acts then conn_error else stats (objects s p))"
  shows "server_inv (set (pending_to_remove (settle p c acts s))) (settle p c acts s)"
proof -
  have "cache_limit (settle p c acts s) = cache_limit s" by (rule cache_limit_cong) (simp add: keeps)
  with assms show ?thesis by (auto simp: inv_defs keeps settle_sorted)
qed

section \<open>Connection operations run by the server\<close>

locale conn_operation =
  fixes f :: "front_conn \<Rightarrow> front_conn outcome"
  assumes op_behaves: "behaves c (f c)"
begin

lemma run_on_inv:
  assumes "server_inv (set (pending_to_remove s)) s" and "p < next_object s" and "run_on p f s = Inr (s', acts)"
  shows "server_inv (set (pending_to_remove s')) s'"
proof -
  from assms(3) obtain c where "f (objects s p) = Inr (c, acts)" and s': "s' = settle p c acts s"
    by (auto simp: run_on_def rbind_Inr_iff)
  with op_behaves [of "objects s p"] assms(1,2) show ?thesis unfolding s'
    by (intro settle_inv) (auto simp: behaves_def dormant_def split: if_splits)
qed

text \<open>A dormant connection is not woken up: it posts nothing and is not queued.\<close>

lemma run_on_dormant:
  assumes "dormant (objects s p)" and "run_on p f s = Inr (s', acts)"
  shows "handlers s' = handlers s \<and> pending_to_remove s' = pending_to_remove s \<and> dormant (objects s' p)"
proof -
  from assms(2) obtain c where c: "f (objects s p) = Inr (c, acts)" and s': "s' = settle p c acts s"
    by (auto simp: run_on_def rbind_Inr_iff)
  with op_behaves [of "objects s p"] assms(1) have "filter is_async acts = []" "NotifyRemove \<notin> set acts" "dormant c"
    by (auto simp: behaves_def dormant_def)
  then show ?thesis by (simp add: s' settle_def Let_def fun_eq_iff)
qed

end

interpretation head_op: conn_operation "\<lambda>c. read_head_handler env ec n (receive_head bytes c)" for env ec n bytes
  by unfold_locales (auto intro!: behaves_same [OF read_head_handler_behaves] simp: receive_head_def)

interpretation body_op: conn_operation
  "\<lambda>c. rbind (receive_body off bytes c) (read_body_handler env ec n)" for env ec n off bytes
  by unfold_locales
    (auto intro!: behaves_rbind behaves_same [OF read_body_handler_behaves] simp: receive_body_def rbind_Inr_iff)

interpretation write_op: conn_operation "write_handler env ec n" for env ec n
  by unfold_locales (rule behaviour)

interpretation reply_op: conn_operation
  "\<lambda>c. rbind (fill_for_http_data date dat len stat c) (front_do_write env)" for date dat len stat env
proof unfold_locales
  fix c :: front_conn
  show "behaves c (rbind (fill_for_http_data date dat len stat c) (front_do_write env))"
  proof (rule behaves_rbind)
    fix x
    assume "fill_for_http_data date dat len stat c = Inr x"
    then have "stats x = stats c \<and> p_sock x = p_sock c"
      by (auto simp: fill_for_http_data_def rbind_Inr_iff dest: store_reply_same split: option.splits)
    then show "behaves c (front_do_write env x)"
      by (intro quietly_behaves [OF quietly_same [OF front_do_write_behaves]]) auto
  qed
qed

section \<open>Accepting keeps the invariant\<close>

lemma members_butlast_last:
  "w \<noteq> [] \<Longrightarrow> \<Union> (set ` set (butlast w @ [set_insert p (last w)])) = insert p (\<Union> (set ` set w))"
  by (induction w rule: rev_induct) auto

lemma wheel_back_insert_facts:
  assumes "wheel_back_insert p s = Inr s'"
  shows "wheel_members s' = insert p (wheel_members s)" "length (timing_wheel s') = length (timing_wheel s)"
    "front_conns s' = front_conns s" "cached_conns s' = cached_conns s" "next_object s' = next_object s"
    "max_serve_conns_cnt s' = max_serve_conns_cnt s" "current_conns_cnt s' = current_conns_cnt s"
    "conn_expired_time s' = conn_expired_time s" "objects s' = objects s" "handlers s' = handlers s"
    "pending_to_remove s' = pending_to_remove s"
proof -
  from assms have ne: "timing_wheel s \<noteq> []"
    and s': "s' = s\<lparr>timing_wheel := butlast (timing_wheel s) @ [set_insert p (last (timing_wheel s))]\<rparr>"
    by (auto simp: wheel_back_insert_def split: if_splits)
  show "wheel_members s' = insert p (wheel_members s)"
    using members_butlast_last [OF ne] by (simp only: s' wheel_members_def) simp
qed (use assms in \<open>auto simp: wheel_back_insert_def split: if_splits\<close>)

text \<open>What is known of a connection between its registration and its start.\<close>

definition idle_new :: "server \<Rightarrow> nat \<Rightarrow> bool" where
  "idle_new s p \<longleftrightarrow> p \<in> registered s \<and> p \<notin> set (pending_to_remove s) \<and> handlers s p = 0 \<and>
     stats (objects s p) = conn_pending"

lemma use_count_0:
  "use_count s p = 0 \<longleftrightarrow> p \<notin> registered s \<and> p \<notin> set (pending_to_remove s) \<and>
     p \<notin> set (cached_conns s) \<and> handlers s p = 0"
  by (auto simp: use_count_def registered_def filter_empty_conv count_list_0_iff)

text \<open>Registering an object that nothing else refers to.\<close>

lemma register_inv:
  assumes inv: "server_inv (set (pending_to_remove s)) s" and u: "use_count s p = 0"
    and lt: "p < next_object s" and room: "current_conns_cnt s < max_serve_conns_cnt s"
    and r: "wheel_back_insert p (s\<lparr>front_conns := map_insert p 0 (front_conns s),
              current_conns_cnt := current_conns_cnt s + 1\<rparr>) = Inr s'"
    and st: "stats (objects s p) = conn_pending"
  shows "server_inv (set (pending_to_remove s')) s' \<and> idle_new s' p"
proof -
  note w = wheel_back_insert_facts [OF r]
  from u have p: "p \<notin> registered s" "p \<notin> set (pending_to_remove s)" "p \<notin> set (cached_conns s)" "handlers s p = 0"
    by (simp_all add: use_count_0)
  have wm: "wheel_members s' = insert p (wheel_members s)" by (simp add: w) (simp add: wheel_members_def)
  have reg: "registered s' = insert p (registered s)" by (simp add: registered_def w fst_set_map_insert)
  have le: "length (front_conns s) \<le> unat (max_serve_conns_cnt s)"
    and cnt: "current_conns_cnt s = of_nat (length (front_conns s))"
    using inv by (simp_all add: inv_defs)
  have "unat (max_serve_conns_cnt s) < 2 ^ 64" using unsigned_less [of "max_serve_conns_cnt s", where 'a = nat] by simp
  with le have "unat (current_conns_cnt s) = length (front_conns s)" by (simp add: cnt unat_of_nat)
  with room have more: "length (front_conns s) < unat (max_serve_conns_cnt s)" by (simp add: word_less_nat_alt)
  have "counts_ok s'"
    using inv p more by (auto simp: counts_ok_def server_inv_def w insertion.put_sorted map_insert_length registered_def)
  moreover have "cache_limit s' = cache_limit s" by (rule cache_limit_cong) (simp add: w)
  then have "cache_ok s'" using inv p by (auto simp: cache_ok_def server_inv_def w reg)
  moreover have "tracked (set (pending_to_remove s')) s'"
    using inv by (auto simp: tracked_def server_inv_def w(2-) wm reg)
  moreover have "addresses_ok s'"
    using inv lt by (auto simp: addresses_ok_def server_inv_def w(2-) wm reg)
  moreover have "sessions_zero s'"
    using inv p by (auto simp: sessions_zero_def server_inv_def w set_map_insert registered_def)
  moreover have "pending_ok s'" using inv by (simp add: pending_ok_def server_inv_def w)
  moreover have "idle_new s' p" using p st by (auto simp: idle_new_def w reg)
  ultimately show ?thesis by (simp add: server_inv_def)
qed

lemma fresh_pending: "new_front_conn no_delay sock t = Inr c \<Longrightarrow> stats c = conn_pending"
  by (auto simp: new_front_conn_def rbind_Inr_iff fresh_front_conn_def new_connection_def connection.extend_def)

lemma accept_conn_inv:
  assumes inv: "server_inv (set (pending_to_remove s)) s"
    and r: "accept_conn env ec peer no_delay sock s = Inr (s', res)"
  shows "server_inv (set (pending_to_remove s')) s' \<and>
    (case res of Accepted_conn p \<Rightarrow> idle_new s' p | _ \<Rightarrow> s' = s)"
proof (cases "ec \<or> max_serve_conns_cnt s \<le> current_conns_cnt s")
  case True
  with r inv show ?thesis by (auto simp: accept_conn_def split: if_splits)
next
  case False
  then have room: "current_conns_cnt s < max_serve_conns_cnt s" by (simp add: not_le)
  show ?thesis
  proof (cases "cached_conns s")
    case (Cons p ps)
    define s1 where "s1 = s\<lparr>cached_conns := ps, objects := (objects s)(p := conn_reset_network sock (now env) (objects s p))\<rparr>"
    from r False Cons have u: "use_count (s\<lparr>cached_conns := ps\<rparr>) p = 0" and res: "res = Accepted_conn p"
      and w: "wheel_back_insert p (s1\<lparr>front_conns := map_insert p 0 (front_conns s1),
              current_conns_cnt := current_conns_cnt s1 + 1\<rparr>) = Inr s'"
      by (auto simp: accept_conn_def rbind_Inr_iff s1_def Let_def split: if_splits)
    from inv Cons have d: "dormant (objects s p)" and lt: "p < next_object s" by (auto simp: inv_defs)
    have "cache_limit s1 = cache_limit s" by (rule cache_limit_cong) (simp add: s1_def)
    moreover have up: "p \<notin> set (pending_to_remove s)" "p \<notin> set ps" using u by (simp_all add: use_count_0)
    ultimately have "cache_ok s1" using inv Cons unfolding server_inv_def cache_ok_def
      by (auto simp: s1_def registered_def)
    moreover have "counts_ok s1" "tracked (set (pending_to_remove s1)) s1" "sessions_zero s1"
      using inv by (simp_all add: server_inv_def counts_ok_def tracked_def sessions_zero_def s1_def
        registered_def wheel_members_def)
    moreover have "addresses_ok s1" using inv Cons unfolding server_inv_def addresses_ok_def
      by (simp add: s1_def registered_def wheel_members_def)
    moreover have "pending_ok s1" using inv up by (simp add: server_inv_def pending_ok_def s1_def)
    ultimately have "server_inv (set (pending_to_remove s1)) s1" by (simp add: server_inv_def)
    moreover have "use_count s1 p = 0" using u by (simp add: use_count_def s1_def)
    moreover have "stats (objects s1 p) = conn_pending"
      using d by (simp add: s1_def conn_reset_network_def touch_sock_time_def dormant_def)
    ultimately show ?thesis
      using register_inv [OF _ _ _ _ w] lt room by (simp add: res s1_def)
  next
    case Nil
    define p where "p = next_object s"
    from r False Nil obtain c where c: "new_front_conn no_delay sock (now env) = Inr c"
      and res: "res = Accepted_conn p"
      and w: "wheel_back_insert p (s\<lparr>objects := (objects s)(p := c), next_object := p + 1,
              front_conns := map_insert p 0 (front_conns s), current_conns_cnt := current_conns_cnt s + 1\<rparr>) = Inr s'"
      by (auto simp: accept_conn_def rbind_Inr_iff p_def Let_def split: if_splits)
    define s1 where "s1 = s\<lparr>objects := (objects s)(p := c), next_object := p + 1\<rparr>"
    have w1: "wheel_back_insert p (s1\<lparr>front_conns := map_insert p 0 (front_conns s1),
              current_conns_cnt := current_conns_cnt s1 + 1\<rparr>) = Inr s'"
      using w by (simp add: s1_def)
    have a: "p \<notin> registered s" "p \<notin> set (pending_to_remove s)" "handlers s p = 0"
      using inv unfolding server_inv_def addresses_ok_def p_def by (metis less_irrefl, metis less_irrefl, metis less_irrefl gr0I)
    then have u: "use_count s1 p = 0" using Nil by (simp add: use_count_0 s1_def registered_def)
    have "cache_limit s1 = cache_limit s" by (rule cache_limit_cong) (simp add: s1_def)
    then have "server_inv (set (pending_to_remove s1)) s1"
      using inv Nil by (auto simp: inv_defs s1_def p_def less_Suc_eq)
    then show ?thesis
      using register_inv [OF _ u _ _ w1] room fresh_pending [OF c] by (simp add: res s1_def)
  qed
qed

section \<open>Removing keeps the invariant\<close>

lemma wash_dormant: "conn_wash_white c = Inr c' \<Longrightarrow> dormant c'"
  by (auto simp: conn_wash_white_def rbind_Inr_iff dormant_def)

text \<open>Taking a queued connection out of the registry, with the wheel as it may be before.\<close>

lemma erase_inv:
  assumes inv: "server_inv (insert item Q) s" and reg: "item \<in> registered s" and lt: "item < next_object s"
    and w: "(if 2 < use_count s item then wheel_back_insert item s else Inr s) = Inr s1"
    and s2: "s2 = s1\<lparr>front_conns := map_erase item (front_conns s1), current_conns_cnt := current_conns_cnt s1 - 1\<rparr>"
  shows "server_inv Q s2" and "registered s2 = registered s - {item}" and "cached_conns s2 = cached_conns s"
    "pending_to_remove s2 = pending_to_remove s" "handlers s2 = handlers s" "next_object s2 = next_object s"
    "objects s2 = objects s" "max_serve_conns_cnt s2 = max_serve_conns_cnt s" "conn_expired_time s2 = conn_expired_time s"
    "timing_wheel s2 = timing_wheel s1"
proof -
  have k: "wheel_members s1 = wheel_members s \<or> wheel_members s1 = insert item (wheel_members s)"
    "length (timing_wheel s1) = length (timing_wheel s)"
    "front_conns s1 = front_conns s" "cached_conns s1 = cached_conns s" "next_object s1 = next_object s"
    "max_serve_conns_cnt s1 = max_serve_conns_cnt s" "current_conns_cnt s1 = current_conns_cnt s"
    "objects s1 = objects s" "handlers s1 = handlers s" "pending_to_remove s1 = pending_to_remove s"
    "conn_expired_time s1 = conn_expired_time s"
    using w wheel_back_insert_facts [of item s s1] by (auto split: if_splits)
  show fields: "cached_conns s2 = cached_conns s" "pending_to_remove s2 = pending_to_remove s"
    "handlers s2 = handlers s" "next_object s2 = next_object s" "objects s2 = objects s"
    "max_serve_conns_cnt s2 = max_serve_conns_cnt s" "conn_expired_time s2 = conn_expired_time s"
    "timing_wheel s2 = timing_wheel s1"
    by (simp_all add: s2 k)
  show reg2: "registered s2 = registered s - {item}" by (simp add: s2 registered_def k)
  have wm: "wheel_members s2 = wheel_members s1" by (simp add: s2 wheel_members_def)
  have len: "length (front_conns s) = Suc (length (front_conns s2))"
    using inv reg by (auto simp: s2 k server_inv_def counts_ok_def registered_def intro!: map_erase_length)
  have "counts_ok s2"
    using inv len by (auto simp: s2 k server_inv_def counts_ok_def map_erase_sorted)
  moreover have "tracked Q s2" using inv k(1,2) reg2 wm by (auto simp: server_inv_def tracked_def s2)
  moreover have "wheel_members s2 \<subseteq> insert item (wheel_members s)" using k(1) wm by auto
  moreover have "addresses_ok s" using inv by (simp add: server_inv_def)
  ultimately have a: "counts_ok s2" "tracked Q s2" "addresses_ok s2"
    using lt unfolding addresses_ok_def fields reg2 by blast+
  have "sessions_zero s2" using inv by (auto simp: server_inv_def sessions_zero_def s2 k set_map_erase)
  moreover have "pending_ok s2" using inv by (simp add: server_inv_def pending_ok_def s2 k)
  moreover have "cache_ok s2"
    using inv reg2 cache_limit_cong [OF fields(6)] by (auto simp: server_inv_def cache_ok_def fields)
  ultimately show "server_inv Q s2" using a by (simp add: server_inv_def)
qed

lemma wash_inv:
  assumes inv: "server_inv Q s" and c: "conn_wash_white (objects s item) = Inr c"
  shows "server_inv Q (s\<lparr>objects := (objects s)(item := c)\<rparr>)" and "dormant c"
proof -
  show d: "dormant c" by (rule wash_dormant [OF c])
  have "cache_limit (s\<lparr>objects := v\<rparr>) = cache_limit s" for v by (rule cache_limit_cong) simp
  with inv d show "server_inv Q (s\<lparr>objects := (objects s)(item := c)\<rparr>)"
    by (auto simp: inv_defs) (auto simp: dormant_def)
qed

lemma cache_push_inv:
  assumes inv: "server_inv Q s" and "dormant (objects s item)" and "item \<notin> registered s"
    and "item \<notin> set (cached_conns s)" and "item < next_object s"
    and "cache_limit s = Inr limit" and "length (cached_conns s) < unat limit"
  shows "server_inv Q (s\<lparr>cached_conns := cached_conns s @ [item]\<rparr>)"
proof -
  have "cache_limit (s\<lparr>cached_conns := v\<rparr>) = cache_limit s" for v by (rule cache_limit_cong) simp
  with assms show ?thesis by (auto simp: inv_defs)
qed

text \<open>A cache that the code finds to have room has room.\<close>

lemma cache_room:
  assumes "server_inv Q s" and "cache_limit s = Inr limit" and "of_nat (length (cached_conns s)) < limit"
  shows "length (cached_conns s) < unat limit"
proof -
  have "length (cached_conns s) \<le> unat limit" using assms(1,2) by (simp add: server_inv_def cache_ok_def)
  then have "length (cached_conns s) < 2 ^ 64" using unsigned_less [of limit, where 'a = nat] by simp
  then show ?thesis using assms(3) by (simp add: word_less_nat_alt unat_of_nat)
qed

text \<open>What removing one queued connection does; the counters are not yet in the picture.\<close>

lemma manage_item_inv:
  assumes inv: "server_inv (insert item Q) s" and r: "manage_item item s = Inr s'"
    and lt: "item < next_object s"
  shows "server_inv Q s' \<and> next_object s' = next_object s \<and> pending_to_remove s' = pending_to_remove s \<and>
    registered s' = registered s - {item} \<and>
    handlers s' = handlers s \<and> (\<forall>p. p \<noteq> item \<longrightarrow> objects s' p = objects s p)"
proof (cases "item \<in> registered s")
  case False
  with r have "s' = s" by (simp add: manage_item_def registered_def)
  with False inv show ?thesis by (auto simp: inv_defs)
next
  case True
  then have "item \<in> fst ` set (front_conns s)" by (simp add: registered_def)
  with r obtain s1 where w: "(if 2 < use_count s item then wheel_back_insert item s else Inr s) = Inr s1"
    and rec: "recycle item (s1\<lparr>front_conns := map_erase item (front_conns s1),
                current_conns_cnt := current_conns_cnt s1 - 1\<rparr>) = Inr s'"
    by (auto simp: manage_item_def rbind_Inr_iff split del: if_split)
  define s2 where "s2 = s1\<lparr>front_conns := map_erase item (front_conns s1), current_conns_cnt := current_conns_cnt s1 - 1\<rparr>"
  note e = erase_inv [OF inv True lt w s2_def]
  from rec obtain limit where cl: "cache_limit s2 = Inr limit"
    and s': "(if of_nat (length (cached_conns s2)) < limit then
          rbind (conn_wash_white (objects s2 item)) (\<lambda>c.
          Inr (s2\<lparr>objects := (objects s2)(item := c), cached_conns := cached_conns s2 @ [item]\<rparr>))
        else Inr s2) = Inr s'"
    unfolding s2_def [symmetric] recycle_def by (auto simp: rbind_Inr_iff split del: if_split)
  show ?thesis
  proof (cases "of_nat (length (cached_conns s2)) < limit")
    case False
    with s' have "s' = s2" by simp
    with e show ?thesis by simp
  next
    case room: True
    with s' obtain c where c: "conn_wash_white (objects s2 item) = Inr c"
      and s3: "s' = s2\<lparr>objects := (objects s2)(item := c), cached_conns := cached_conns s2 @ [item]\<rparr>"
      by (auto simp: rbind_Inr_iff)
    define t where "t = s2\<lparr>objects := (objects s2)(item := c)\<rparr>"
    have t: "server_inv Q t" "dormant (objects t item)" using wash_inv [OF e(1) c] by (simp_all add: t_def)
    have "item \<notin> set (cached_conns s)" using inv True by (auto simp: server_inv_def cache_ok_def)
    moreover have "cache_limit t = Inr limit" using cl cache_limit_cong [of t s2] by (simp add: t_def)
    moreover have f: "registered t = registered s2" "cached_conns t = cached_conns s2" "next_object t = next_object s2"
      by (simp_all add: t_def registered_def)
    ultimately have "server_inv Q (t\<lparr>cached_conns := cached_conns t @ [item]\<rparr>)"
      using cache_room [OF e(1) cl room] lt by (intro cache_push_inv [OF t]) (simp_all add: e)
    moreover have "s' = t\<lparr>cached_conns := cached_conns t @ [item]\<rparr>" by (simp add: s3 t_def)
    ultimately have "server_inv Q s'" by (simp only:)
    moreover have "registered s' = registered s2" by (simp add: s3 registered_def)
    moreover have "next_object s' = next_object s" "pending_to_remove s' = pending_to_remove s"
      "handlers s' = handlers s" "\<forall>p. p \<noteq> item \<longrightarrow> objects s' p = objects s p"
      by (simp_all add: s3 e)
    ultimately show ?thesis using e(2) by simp
  qed
qed

end
