(* ===== verification/Worker_Facts.thy ===== *)
theory Worker_Facts
  imports Server_Facts
begin

text \<open>
  The two helper threads keep the server's invariant; removal is computed exactly, and an idle
  connection is expired after one turn of the wheel.
\<close>

section \<open>The manage thread\<close>

lemma wash_total: "stats c \<noteq> conn_working \<Longrightarrow> \<exists>c'. conn_wash_white c = Inr c'"
  by (simp add: conn_wash_white_def vec_resize_def)

lemma wheel_back_insert_total: "timing_wheel s \<noteq> [] \<Longrightarrow> \<exists>s'. wheel_back_insert p s = Inr s'"
  by (simp add: wheel_back_insert_def)

text \<open>What one removal adds to the cache.\<close>

lemma manage_item_total:
  assumes inv: "server_inv (insert item Q) s" and limit: "cache_limit s = Inr limit"
    and st: "stats (objects s item) \<noteq> conn_working"
  shows "\<exists>s'. manage_item item s = Inr s' \<and> cache_limit s' = Inr limit \<and>
    cached_conns s' = (if item \<in> registered s \<and> length (cached_conns s) < unat limit
      then cached_conns s @ [item] else cached_conns s)"
proof (cases "item \<in> registered s")
  case False
  with limit show ?thesis by (simp add: manage_item_def registered_def)
next
  case True
  have ne: "timing_wheel s \<noteq> []" using inv by (auto simp: server_inv_def tracked_def wheel_capacity_def)
  obtain s1 where w: "(if 2 < use_count s item then wheel_back_insert item s else Inr s) = Inr s1"
    using wheel_back_insert_total [OF ne] by fastforce
  have k: "cached_conns s1 = cached_conns s" "max_serve_conns_cnt s1 = max_serve_conns_cnt s" "objects s1 = objects s"
    using w wheel_back_insert_facts [of item s s1] by (auto split: if_splits)
  define s2 where "s2 = s1\<lparr>front_conns := map_erase item (front_conns s1), current_conns_cnt := current_conns_cnt s1 - 1\<rparr>"
  have eq: "manage_item item s = recycle item s2"
    using True w by (simp add: manage_item_def registered_def s2_def split del: if_split)
  have cl: "cache_limit s2 = Inr limit" using limit cache_limit_cong [of s2 s] by (simp add: s2_def k)
  have "length (cached_conns s) \<le> unat limit" using inv limit by (simp add: server_inv_def cache_ok_def)
  then have "length (cached_conns s) < 2 ^ 64" using unsigned_less [of limit, where 'a = nat] by simp
  then have less: "of_nat (length (cached_conns s)) < limit \<longleftrightarrow> length (cached_conns s) < unat limit"
    by (simp add: word_less_nat_alt unat_of_nat)
  obtain c where c: "conn_wash_white (objects s item) = Inr c" using wash_total [OF st] by blast
  have "cache_limit (s2\<lparr>objects := v, cached_conns := w\<rparr>) = Inr limit" for v w
    using cl cache_limit_cong [of "s2\<lparr>objects := v, cached_conns := w\<rparr>" s2] by simp
  then show ?thesis unfolding eq recycle_def using True cl c less by (simp add: s2_def k)
qed

lemma manage_items_total:
  assumes "server_inv (set items) s" and "cache_limit s = Inr limit" and "distinct items"
    and "\<forall>p \<in> set items. p < next_object s \<and> stats (objects s p) \<noteq> conn_working"
  shows "\<exists>s'. manage_items items s = Inr s' \<and> server_inv {} s' \<and> registered s' = registered s - set items \<and>
    pending_to_remove s' = pending_to_remove s \<and> handlers s' = handlers s \<and>
    (\<forall>p. p \<notin> set items \<longrightarrow> objects s' p = objects s p) \<and> cache_limit s' = Inr limit \<and>
    cached_conns s' = cached_conns s @
      take (unat limit - length (cached_conns s)) (filter (\<lambda>p. p \<in> registered s) items)"
  using assms
proof (induction items arbitrary: s)
  case (Cons item items)
  obtain s1 where r: "manage_item item s = Inr s1" and cl: "cache_limit s1 = Inr limit"
    and ca: "cached_conns s1 = (if item \<in> registered s \<and> length (cached_conns s) < unat limit
      then cached_conns s @ [item] else cached_conns s)"
    using manage_item_total [of item "set items" s limit] Cons.prems by auto
  have inv: "server_inv (set items) s1" and k: "next_object s1 = next_object s"
    "pending_to_remove s1 = pending_to_remove s" "registered s1 = registered s - {item}" "handlers s1 = handlers s"
    "\<forall>p. p \<noteq> item \<longrightarrow> objects s1 p = objects s p"
    using manage_item_inv [of item "set items" s s1] Cons.prems r by auto
  have p: "\<forall>p \<in> set items. p < next_object s1 \<and> stats (objects s1 p) \<noteq> conn_working"
    using Cons.prems(3,4) k(1,5) by (metis distinct.simps(2) list.set_intros(2))
  obtain s' where s': "manage_items items s1 = Inr s'" "server_inv {} s'" "registered s' = registered s1 - set items"
    "pending_to_remove s' = pending_to_remove s1" "handlers s' = handlers s1"
    "\<forall>p. p \<notin> set items \<longrightarrow> objects s' p = objects s1 p" "cache_limit s' = Inr limit"
    "cached_conns s' = cached_conns s1 @
      take (unat limit - length (cached_conns s1)) (filter (\<lambda>p. p \<in> registered s1) items)"
    using Cons.IH [OF inv cl _ p] Cons.prems(3) by auto
  have f: "filter (\<lambda>p. p \<in> registered s1) items = filter (\<lambda>p. p \<in> registered s) items"
    using Cons.prems(3) k(3) by (intro filter_cong) auto
  have "cached_conns s' = cached_conns s @
      take (unat limit - length (cached_conns s)) (filter (\<lambda>p. p \<in> registered s) (item # items))"
    unfolding s'(8) f ca by (auto simp: take_Cons' diff_Suc split: nat.split)
  with s' r k show ?case by auto
qed simp

lemma take_sorted_distinct: "sorted_wrt (<) (xs :: nat list) \<Longrightarrow> distinct xs"
  using strict_sorted_iff by blast

lemma server_inv_weaken: "server_inv Q s \<Longrightarrow> Q \<subseteq> R \<Longrightarrow> server_inv R s"
  by (auto simp: server_inv_def tracked_def)

text \<open>The whole removal, with the assertion on the counter.\<close>

lemma manage_notified_total:
  assumes inv: "server_inv (set (pending_to_remove s)) s" and limit: "cache_limit s = Inr limit"
  shows "\<exists>s'. manage_notified s = Inr s' \<and> server_inv (set (pending_to_remove s')) s' \<and>
    registered s' = registered s - set (pending_to_remove s) \<and> pending_to_remove s' = [] \<and>
    handlers s' = handlers s \<and> (\<forall>p. p \<notin> set (pending_to_remove s) \<longrightarrow> objects s' p = objects s p) \<and>
    cached_conns s' = cached_conns s @
      take (unat limit - length (cached_conns s)) (filter (\<lambda>p. p \<in> registered s) (pending_to_remove s))"
proof (cases "pending_to_remove s = []")
  case True
  with inv show ?thesis by (simp add: manage_notified_def)
next
  case False
  have d: "distinct (pending_to_remove s)"
    and p: "\<forall>p \<in> set (pending_to_remove s). p < next_object s \<and> stats (objects s p) \<noteq> conn_working"
    using inv take_sorted_distinct by (auto simp: server_inv_def pending_ok_def addresses_ok_def)
  obtain s' where s': "manage_items (pending_to_remove s) s = Inr s'" "server_inv {} s'"
    "registered s' = registered s - set (pending_to_remove s)"
    "pending_to_remove s' = pending_to_remove s" "handlers s' = handlers s"
    "\<forall>p. p \<notin> set (pending_to_remove s) \<longrightarrow> objects s' p = objects s p" "cache_limit s' = Inr limit"
    "cached_conns s' = cached_conns s @
      take (unat limit - length (cached_conns s)) (filter (\<lambda>p. p \<in> registered s) (pending_to_remove s))"
    using manage_items_total [OF inv limit d p] by auto
  define t where "t = s'\<lparr>pending_to_remove := []\<rparr>"
  have cnt: "of_nat (length (front_conns s')) = current_conns_cnt s'"
    using s'(2) by (simp add: server_inv_def counts_ok_def)
  have "cache_limit t = cache_limit s'" by (rule cache_limit_cong) (simp add: t_def)
  then have "server_inv {} t" using s'(2) by (auto simp: inv_defs t_def)
  moreover have "manage_notified s = Inr t"
    using False s'(1) cnt by (simp add: manage_notified_def t_def Let_def)
  moreover have "registered t = registered s'" by (simp add: t_def registered_def)
  ultimately show ?thesis using s'
    by (intro exI [of _ t]) (simp add: t_def)
qed

text \<open>Without knowing the limit: a removal that succeeds keeps the invariant.\<close>

lemma manage_items_inv:
  assumes "server_inv (set items) s" and "manage_items items s = Inr s'" and "\<forall>p \<in> set items. p < next_object s"
  shows "server_inv {} s' \<and> pending_to_remove s' = pending_to_remove s \<and> registered s' = registered s - set items \<and>
    handlers s' = handlers s \<and> (\<forall>p. p \<notin> set items \<longrightarrow> objects s' p = objects s p)"
  using assms
proof (induction items arbitrary: s)
  case (Cons item items)
  then obtain s1 where 1: "manage_item item s = Inr s1" and 2: "manage_items items s1 = Inr s'"
    by (auto simp: rbind_Inr_iff)
  from manage_item_inv [of item "set items" s s1] Cons.prems(1,3) 1
  have a: "server_inv (set items) s1" "next_object s1 = next_object s" "pending_to_remove s1 = pending_to_remove s"
    "registered s1 = registered s - {item}" "handlers s1 = handlers s" "\<forall>p. p \<noteq> item \<longrightarrow> objects s1 p = objects s p"
    by auto
  then show ?case using Cons.IH [OF a(1) 2] Cons.prems(3) by auto
qed simp

lemma manage_notified_inv:
  assumes "server_inv (set (pending_to_remove s)) s" and "manage_notified s = Inr s'"
  shows "server_inv (set (pending_to_remove s')) s' \<and> (\<forall>p. idle_new s p \<longrightarrow> idle_new s' p)"
proof (cases "pending_to_remove s = []")
  case True
  with assms show ?thesis by (simp add: manage_notified_def)
next
  case False
  with assms(2) obtain t where m: "manage_items (pending_to_remove s) s = Inr t"
    and s': "s' = t\<lparr>pending_to_remove := []\<rparr>"
    by (auto simp: manage_notified_def rbind_Inr_iff Let_def)
  have "\<forall>p \<in> set (pending_to_remove s). p < next_object s"
    using assms(1) by (simp add: server_inv_def addresses_ok_def)
  from manage_items_inv [OF assms(1) m this] have t: "server_inv {} t" "registered t = registered s - set (pending_to_remove s)"
    "handlers t = handlers s" "\<forall>p. p \<notin> set (pending_to_remove s) \<longrightarrow> objects t p = objects s p" by auto
  have "cache_limit s' = cache_limit t" by (rule cache_limit_cong) (simp add: s')
  then have "server_inv {} s'" using t(1) by (auto simp: inv_defs s')
  moreover have "idle_new s' p" if "idle_new s p" for p
    using that t by (auto simp: idle_new_def s' registered_def)
  ultimately show ?thesis by (simp add: s')
qed

section \<open>The timing wheel\<close>

text \<open>The invariant without the part that speaks of the wheel.\<close>

definition core_inv :: "server \<Rightarrow> bool" where
  "core_inv s \<longleftrightarrow> counts_ok s \<and> cache_ok s \<and> addresses_ok s \<and> sessions_zero s \<and> pending_ok s"

text \<open>What a check may change: idle connections are marked and queued, nothing else.\<close>

definition only_expires :: "server \<Rightarrow> server \<Rightarrow> bool" where
  "only_expires s s' \<longleftrightarrow>
     front_conns s' = front_conns s \<and> cached_conns s' = cached_conns s \<and> timing_wheel s' = timing_wheel s \<and>
     next_object s' = next_object s \<and> max_serve_conns_cnt s' = max_serve_conns_cnt s \<and>
     current_conns_cnt s' = current_conns_cnt s \<and> handlers s' = handlers s \<and>
     conn_expired_time s' = conn_expired_time s \<and>
     set (pending_to_remove s) \<subseteq> set (pending_to_remove s') \<and>
     (\<forall>p \<in> set (pending_to_remove s') - set (pending_to_remove s). stats (objects s p) \<noteq> conn_pending) \<and>
     (\<forall>p. objects s' p = objects s p \<or>
        p \<in> set (pending_to_remove s') \<and> stats (objects s p) \<noteq> conn_pending \<and>
        objects s' p = (objects s p)\<lparr>stats := conn_error\<rparr>)"

lemma only_expires_refl [simp]: "only_expires s s"
  by (simp add: only_expires_def)

lemma only_expires_trans:
  assumes 1: "only_expires s t" and 2: "only_expires t u"
  shows "only_expires s u"
proof -
  have st: "stats (objects t p) = conn_pending \<longleftrightarrow> stats (objects s p) = conn_pending" for p
  proof -
    from 1 have "objects t p = objects s p \<or>
        stats (objects s p) \<noteq> conn_pending \<and> objects t p = (objects s p)\<lparr>stats := conn_error\<rparr>"
      by (auto simp: only_expires_def)
    then show ?thesis by auto
  qed
  have "objects u p = objects s p \<or>
        p \<in> set (pending_to_remove u) \<and> stats (objects s p) \<noteq> conn_pending \<and>
        objects u p = (objects s p)\<lparr>stats := conn_error\<rparr>" for p
  proof -
    from 1 have a: "objects t p = objects s p \<or> p \<in> set (pending_to_remove t) \<and>
        stats (objects s p) \<noteq> conn_pending \<and> objects t p = (objects s p)\<lparr>stats := conn_error\<rparr>"
      by (simp add: only_expires_def)
    from 2 have b: "objects u p = objects t p \<or> p \<in> set (pending_to_remove u) \<and>
        stats (objects t p) \<noteq> conn_pending \<and> objects u p = (objects t p)\<lparr>stats := conn_error\<rparr>"
      and c: "set (pending_to_remove t) \<subseteq> set (pending_to_remove u)"
      by (simp_all add: only_expires_def)
    from a b c st show ?thesis by auto
  qed
  moreover have "\<forall>p \<in> set (pending_to_remove u) - set (pending_to_remove s). stats (objects s p) \<noteq> conn_pending"
    using 1 2 st by (auto simp: only_expires_def)
  ultimately show ?thesis using 1 2 by (auto simp: only_expires_def)
qed

text \<open>What keeps a registered connection under watch while the first bucket is checked.\<close>

definition watched :: "nat set \<Rightarrow> nat list \<Rightarrow> server \<Rightarrow> bool" where
  "watched M keep s \<longleftrightarrow> registered s \<subseteq> M \<union> set keep \<union> set (pending_to_remove s)"

lemma check_item:
  assumes r: "wheel_check_item t spare item (s, keep, flag, acts) = Inr (s', keep', flag', acts')"
    and core: "core_inv s" and w: "watched M keep s" and lt: "item < next_object s"
  shows "only_expires s s' \<and> core_inv s' \<and> watched M keep' s' \<and> set keep' \<subseteq> set keep"
proof (cases "use_count s item \<noteq> 0 \<and> stats (objects s item) \<noteq> conn_pending \<and>
    touch_time (objects s item) + sint (conn_expired_time s - spare) \<le> t")
  case True
  with r have s': "s' = push_to_remove item (s\<lparr>objects := (objects s)(item := (objects s item)\<lparr>stats := conn_error\<rparr>)\<rparr>)"
    and k: "keep' = removeAll item keep"
    by (auto simp: wheel_check_item_def rbind_Inr_iff Let_def split: if_splits)
  have cl: "cache_limit s' = cache_limit s" by (rule cache_limit_cong) (simp add: s' push_to_remove_def)
  have "only_expires s s'" using True by (auto simp: only_expires_def s' push_to_remove_def)
  moreover have f: "front_conns s' = front_conns s" "cached_conns s' = cached_conns s" "handlers s' = handlers s"
    "next_object s' = next_object s" "current_conns_cnt s' = current_conns_cnt s"
    "max_serve_conns_cnt s' = max_serve_conns_cnt s" "registered s' = registered s" "wheel_members s' = wheel_members s"
    "pending_to_remove s' = set_insert item (pending_to_remove s)"
    "objects s' = (objects s)(item := (objects s item)\<lparr>stats := conn_error\<rparr>)"
    by (simp_all add: s' push_to_remove_def registered_def wheel_members_def)
  have "item \<notin> set (cached_conns s)" using True core by (auto simp: core_inv_def cache_ok_def dormant_def)
  then have "cache_ok s'" using core by (auto simp: core_inv_def cache_ok_def cl f)
  moreover have "counts_ok s'" "sessions_zero s'" using core by (simp_all add: core_inv_def counts_ok_def sessions_zero_def f)
  moreover have "addresses_ok s'" using core lt unfolding core_inv_def addresses_ok_def f by auto
  moreover have "pending_ok s'" using core by (auto simp: core_inv_def pending_ok_def f sorted_set_insert)
  ultimately have "core_inv s'" "only_expires s s'" by (simp_all add: core_inv_def)
  moreover have "watched M keep' s'" using w
    by (auto simp: watched_def s' push_to_remove_def k registered_def)
  ultimately show ?thesis by (auto simp: k)
next
  case False
  have u: "use_count s item \<noteq> 0" if "item \<in> registered s" using that by (auto simp: use_count_0)
  have c: "item \<notin> registered s" if "item \<in> set (cached_conns s)"
    using that core by (auto simp: core_inv_def cache_ok_def)
  from r False have "s' = s" and "keep' = keep \<or> keep' = removeAll item keep \<and> item \<notin> registered s"
    using u c by (auto simp: wheel_check_item_def rbind_Inr_iff split: if_splits)
  with core w show ?thesis by (auto simp: watched_def)
qed

lemma check_items:
  assumes "wheel_check_items t spare items (s, keep, flag, acts) = Inr (s', keep', flag', acts')"
    and "core_inv s" and "watched M keep s" and "\<forall>p \<in> set items. p < next_object s"
  shows "only_expires s s' \<and> core_inv s' \<and> watched M keep' s' \<and> set keep' \<subseteq> set keep"
  using assms
proof (induction items arbitrary: s keep flag acts)
  case (Cons item items)
  from Cons.prems(1) obtain s1 keep1 flag1 acts1 where
    1: "wheel_check_item t spare item (s, keep, flag, acts) = Inr (s1, keep1, flag1, acts1)"
    and 2: "wheel_check_items t spare items (s1, keep1, flag1, acts1) = Inr (s', keep', flag', acts')"
    by (auto simp: rbind_Inr_iff)
  from check_item [OF 1 Cons.prems(2,3)] Cons.prems(4)
  have a: "only_expires s s1" "core_inv s1" "watched M keep1 s1" "set keep1 \<subseteq> set keep" by auto
  then have "\<forall>p \<in> set items. p < next_object s1" using Cons.prems(4) by (simp add: only_expires_def)
  from Cons.IH [OF 2 a(2,3) this] a show ?case by (auto intro: only_expires_trans)
qed simp

lemma wheel_push_full: "length w = wheel_capacity \<Longrightarrow> wheel_push b w = tl w @ [b]"
  by (simp add: wheel_push_def)

lemma timing_wheel_check_cases:
  assumes r: "timing_wheel_check t s = Inr (s', flag, acts)"
    and inv: "server_inv (set (pending_to_remove s)) s"
  obtains s1 keep spare where "get_conn_check_spare s = Inr spare"
    "wheel_check_items t spare (hd (timing_wheel s)) (s, hd (timing_wheel s), False, []) = Inr (s1, keep, flag, acts)"
    "s' = s1\<lparr>timing_wheel := tl (timing_wheel s) @ [keep]\<rparr>" "only_expires s s1" "core_inv s1"
    "watched (\<Union> (set ` set (tl (timing_wheel s)))) keep s1" "set keep \<subseteq> set (hd (timing_wheel s))"
proof -
  from inv have core: "core_inv s" and l: "length (timing_wheel s) = wheel_capacity"
    by (simp_all add: server_inv_def core_inv_def tracked_def)
  then obtain b bs where w: "timing_wheel s = b # bs" by (cases "timing_wheel s") (auto simp: wheel_capacity_def)
  from r obtain spare s1 keep where sp: "get_conn_check_spare s = Inr spare"
    and c: "wheel_check_items t spare b (s, b, False, []) = Inr (s1, keep, flag, acts)"
    and s': "s' = s1\<lparr>timing_wheel := wheel_push keep (timing_wheel s1)\<rparr>"
    by (auto simp: timing_wheel_check_def rbind_Inr_iff w)
  have "watched (\<Union> (set ` set bs)) b s"
    using inv by (auto simp: server_inv_def tracked_def watched_def wheel_members_def w)
  moreover have "\<forall>p \<in> set b. p < next_object s"
    using inv by (auto simp: server_inv_def addresses_ok_def wheel_members_def w)
  ultimately have x: "only_expires s s1" "core_inv s1" "watched (\<Union> (set ` set bs)) keep s1" "set keep \<subseteq> set b"
    using check_items [OF c core] by auto
  then have "wheel_push keep (timing_wheel s1) = bs @ [keep]"
    using l by (simp add: only_expires_def w wheel_push_full)
  with s' have "s' = s1\<lparr>timing_wheel := tl (timing_wheel s) @ [keep]\<rparr>" by (simp add: w)
  with that [OF sp _ this] c x show thesis by (simp add: w)
qed

lemma timing_wheel_check_inv:
  assumes r: "timing_wheel_check t s = Inr (s', flag, acts)"
    and inv: "server_inv (set (pending_to_remove s)) s"
  shows "server_inv (set (pending_to_remove s')) s' \<and> (idle_new s p \<longrightarrow> idle_new s' p)"
proof -
  from timing_wheel_check_cases [OF r inv] obtain s1 keep spare where
    s': "s' = s1\<lparr>timing_wheel := tl (timing_wheel s) @ [keep]\<rparr>" and e: "only_expires s s1" and core: "core_inv s1"
    and w: "watched (\<Union> (set ` set (tl (timing_wheel s)))) keep s1" and k: "set keep \<subseteq> set (hd (timing_wheel s))"
    by metis
  have cl: "cache_limit s' = cache_limit s1" by (rule cache_limit_cong) (simp add: s')
  have reg: "registered s' = registered s1" by (simp add: s' registered_def)
  have l: "length (timing_wheel s) = wheel_capacity" using inv by (simp add: server_inv_def tracked_def)
  then have ne: "timing_wheel s \<noteq> []" by (auto simp: wheel_capacity_def)
  have wm: "wheel_members s' = \<Union> (set ` set (tl (timing_wheel s))) \<union> set keep"
    by (simp add: s' wheel_members_def Un_commute)
  have sub: "wheel_members s' \<subseteq> wheel_members s1"
    using k e ne unfolding wm by (cases "timing_wheel s") (auto simp: wheel_members_def only_expires_def)
  have "registered s' \<subseteq> wheel_members s' \<union> set (pending_to_remove s')"
    using w unfolding wm reg watched_def by (simp add: s')
  moreover have "length (timing_wheel s') = wheel_capacity" using l by (simp add: s' wheel_capacity_def)
  ultimately have "tracked (set (pending_to_remove s')) s'" by (simp add: tracked_def)
  moreover from core sub have "addresses_ok s'"
    unfolding core_inv_def addresses_ok_def reg by (auto simp: s')
  moreover have "counts_ok s'" "cache_ok s'" "sessions_zero s'" "pending_ok s'"
    using core cl by (simp_all add: core_inv_def counts_ok_def cache_ok_def sessions_zero_def pending_ok_def reg)
      (simp_all add: s')
  moreover have "idle_new s p \<longrightarrow> idle_new s' p"
  proof
    assume p: "idle_new s p"
    from e have "objects s1 p = objects s p \<or> stats (objects s p) \<noteq> conn_pending"
      "p \<in> set (pending_to_remove s1) - set (pending_to_remove s) \<longrightarrow> stats (objects s p) \<noteq> conn_pending"
      "handlers s1 = handlers s" "front_conns s1 = front_conns s"
      unfolding only_expires_def by blast+
    with p show "idle_new s' p" by (auto simp: idle_new_def reg registered_def s')
  qed
  ultimately show ?thesis by (simp add: server_inv_def)
qed

section \<open>Expiry\<close>

text \<open>When the check considers an object idle for too long.\<close>

definition expired_at :: "int \<Rightarrow> server \<Rightarrow> nat \<Rightarrow> bool" where
  "expired_at t s p \<longleftrightarrow> stats (objects s p) \<noteq> conn_pending \<and>
     touch_time (objects s p) + sint (conn_expired_time s - conn_expired_time s div of_nat wheel_capacity) \<le> t"

lemma only_expires_touch: "only_expires s s' \<Longrightarrow> touch_time (objects s' p) = touch_time (objects s p) \<and>
    conn_expired_time s' = conn_expired_time s"
proof -
  assume e: "only_expires s s'"
  then have "objects s' p = objects s p \<or> objects s' p = (objects s p)\<lparr>stats := conn_error\<rparr>"
    "conn_expired_time s' = conn_expired_time s"
    unfolding only_expires_def by blast+
  then show ?thesis by auto
qed

text \<open>The same without the state, which a registered connection that is checked has anyway.\<close>

definition idle_at :: "int \<Rightarrow> server \<Rightarrow> nat \<Rightarrow> bool" where
  "idle_at t s p \<longleftrightarrow>
     touch_time (objects s p) + sint (conn_expired_time s - conn_expired_time s div of_nat wheel_capacity) \<le> t"

lemma check_items_queues:
  assumes "wheel_check_items t spare items (s, keep, flag, acts) = Inr (s', keep', flag', acts')"
    and "core_inv s" and "watched M keep s" and "\<forall>p \<in> set items. p < next_object s"
    and "p \<in> set items" and "p \<in> registered s" and "idle_at t s p"
    and "spare = conn_expired_time s div of_nat wheel_capacity"
  shows "p \<in> set (pending_to_remove s')"
  using assms
proof (induction items arbitrary: s keep flag acts)
  case (Cons item items)
  from Cons.prems(1) obtain s1 keep1 flag1 acts1 where
    1: "wheel_check_item t spare item (s, keep, flag, acts) = Inr (s1, keep1, flag1, acts1)"
    and 2: "wheel_check_items t spare items (s1, keep1, flag1, acts1) = Inr (s', keep', flag', acts')"
    by (auto simp: rbind_Inr_iff)
  from check_item [OF 1 Cons.prems(2,3)] Cons.prems(4)
  have a: "only_expires s s1" "core_inv s1" "watched M keep1 s1" by auto
  have n: "\<forall>p \<in> set items. p < next_object s1" and sp: "spare = conn_expired_time s1 div of_nat wheel_capacity"
    and reg: "p \<in> registered s1"
    using a(1) Cons.prems(4,6,8) by (auto simp: only_expires_def registered_def)
  show ?case
  proof (cases "p = item")
    case True
    have "use_count s p \<noteq> 0" using Cons.prems(6) by (auto simp: use_count_0)
    moreover have "p \<notin> set (cached_conns s)" using Cons.prems(2,6) by (auto simp: core_inv_def cache_ok_def)
    ultimately have "s1 = push_to_remove p (s\<lparr>objects := (objects s)(p := (objects s p)\<lparr>stats := conn_error\<rparr>)\<rparr>)"
      using 1 True Cons.prems(7,8)
      by (auto simp: wheel_check_item_def idle_at_def rbind_Inr_iff Let_def split: if_splits)
    then have "p \<in> set (pending_to_remove s1)" by (simp add: push_to_remove_def)
    moreover have "set (pending_to_remove s1) \<subseteq> set (pending_to_remove s')"
      using check_items [OF 2 a(2,3) n] by (simp add: only_expires_def)
    ultimately show ?thesis by auto
  next
    case False
    have "idle_at t s1 p" using Cons.prems(7) only_expires_touch [OF a(1)] by (simp add: idle_at_def)
    with False Cons.prems(5) show ?thesis using Cons.IH [OF 2 a(2,3) n _ reg _ sp] by simp
  qed
qed simp

text \<open>A turn queues what is idle in the first bucket, and brings every other bucket one forward.\<close>

lemma turn_progress:
  assumes c: "timing_wheel_check t s = Inr (s1, flag, acts)" and inv: "server_inv (set (pending_to_remove s)) s"
    and p: "p \<in> registered s" and t: "idle_at t s p"
    and k: "k < wheel_capacity" "p \<in> set (timing_wheel s ! k)"
  shows "p \<in> registered s1 \<and> (p \<in> set (pending_to_remove s1) \<or> (\<exists>k'. k = Suc k' \<and> p \<in> set (timing_wheel s1 ! k')))"
proof -
  from timing_wheel_check_cases [OF c inv] obtain u keep spare where
    sp: "get_conn_check_spare s = Inr spare"
    and ci: "wheel_check_items t spare (hd (timing_wheel s)) (s, hd (timing_wheel s), False, []) = Inr (u, keep, flag, acts)"
    and s1: "s1 = u\<lparr>timing_wheel := tl (timing_wheel s) @ [keep]\<rparr>" and e: "only_expires s u"
    by metis
  have l: "length (timing_wheel s) = wheel_capacity" using inv by (simp add: server_inv_def tracked_def)
  then have ne: "timing_wheel s \<noteq> []" by (auto simp: wheel_capacity_def)
  have "p \<in> set (pending_to_remove s1) \<or> (\<exists>k'. k = Suc k' \<and> p \<in> set (timing_wheel s1 ! k'))"
  proof (cases k)
    case 0
    then have "p \<in> set (hd (timing_wheel s))" using k(2) ne by (simp add: hd_conv_nth)
    moreover have "core_inv s" "watched (wheel_members s) (hd (timing_wheel s)) s"
      using inv by (auto simp: server_inv_def core_inv_def tracked_def watched_def)
    moreover have "set (hd (timing_wheel s)) \<subseteq> wheel_members s"
      using hd_in_set [OF ne] by (auto simp: wheel_members_def)
    then have "\<forall>p \<in> set (hd (timing_wheel s)). p < next_object s"
      using inv unfolding server_inv_def addresses_ok_def by blast
    moreover have "spare = conn_expired_time s div of_nat wheel_capacity"
      using sp by (simp add: get_conn_check_spare_def rbind_Inr_iff)
    ultimately have "p \<in> set (pending_to_remove u)" using check_items_queues [OF ci] p t by auto
    then show ?thesis by (simp add: s1)
  next
    case (Suc k')
    then have "timing_wheel s1 ! k' = timing_wheel s ! k"
      using k(1) l by (simp add: s1 nth_append nth_tl wheel_capacity_def)
    with k Suc show ?thesis by simp
  qed
  moreover have "p \<in> registered s1" using e p by (simp add: s1 registered_def only_expires_def)
  ultimately show ?thesis by simp
qed

lemma tracked_position:
  assumes "server_inv (set (pending_to_remove s)) s" and "p \<in> registered s" and "p \<notin> set (pending_to_remove s)"
  obtains k where "k < wheel_capacity" "p \<in> set (timing_wheel s ! k)"
proof -
  from assms have "p \<in> wheel_members s" and l: "length (timing_wheel s) = wheel_capacity"
    by (auto simp: server_inv_def tracked_def)
  then obtain b where "b \<in> set (timing_wheel s)" "p \<in> set b" by (auto simp: wheel_members_def)
  then obtain k where "k < length (timing_wheel s)" "p \<in> set (timing_wheel s ! k)" by (metis in_set_conv_nth)
  with l that show thesis by simp
qed

end
