(* ===== verification/System.thy ===== *)
theory System
  imports Worker_Facts
begin

text \<open>
  The server as a whole: a step relation whose events are the handlers and helper threads, in
  any order. A handler runs in one step, except the acceptor's, which registers a connection
  and starts it in two: between them other threads may run. A completion can happen for any
  connection that has an operation outstanding, with any error code and any bytes.
\<close>

section \<open>State and events\<close>

record system =
  srv :: server
  backends :: backend_conns
  starting :: "nat option"      \<comment> \<open>registered by the acceptor's handler, not yet started\<close>

datatype event =
    Accept bool bool "unit sock_option" nat
  | Start
  | HeadRead nat error_code nat string
  | BodyRead nat error_code nat u64 string
  | Written nat error_code nat
  | WheelTurn
  | Managed
  | BackendAccept bool bool nat
  | BackendRead nat error_code string
  | BackendWritten nat error_code nat
  | BackendCheck error_code

text \<open>A completed operation of \<open>p\<close> no longer holds the object once its handler has run.\<close>

definition complete ::
  "nat \<Rightarrow> (front_conn \<Rightarrow> front_conn outcome) \<Rightarrow> server \<Rightarrow> (server \<times> action list) result" where
  "complete p f s = run_on p f (s\<lparr>handlers := (handlers s)(p := handlers s p - 1)\<rparr>)"

text \<open>The messages among the actions of a front connection, and of a backend connection.\<close>

fun forward :: "'s env \<Rightarrow> action list \<Rightarrow> backend_conns \<Rightarrow> backend_conns result" where
  "forward env [] bs = Inr bs"
| "forward env (PushBackend site_id dat len # acts) bs =
     rbind (push_backend (now env) site_id (Some dat) len bs) (\<lambda>(bs, _). forward env acts bs)"
| "forward env (_ # acts) bs = forward env acts bs"

fun backward :: "'s env \<Rightarrow> action list \<Rightarrow> server \<Rightarrow> server result" where
  "backward env [] s = Inr s"
| "backward env (PushFront session_id dat len # acts) s =
     rbind (push_front env session_id (Some dat) len s) (\<lambda>(s, _). backward env acts s)"
| "backward env (_ # acts) s = backward env acts s"

text \<open>One handler of a client's connection, with what it forwards.\<close>

definition front_event ::
  "'s env \<Rightarrow> nat \<Rightarrow> (front_conn \<Rightarrow> front_conn outcome) \<Rightarrow> system \<Rightarrow> system result" where
  "front_event env p f S =
     rbind (complete p f (srv S)) (\<lambda>(s, acts).
     rbind (forward env acts (backends S)) (\<lambda>bs.
     Inr (S\<lparr>srv := s, backends := bs\<rparr>)))"

text \<open>What an event does; a fault stops the server.\<close>

fun handle :: "'s env \<Rightarrow> event \<Rightarrow> system \<Rightarrow> system result" where
  "handle env (Accept ec peer no_delay sock) S =
     rbind (accept_conn env ec peer no_delay sock (srv S)) (\<lambda>(s, r).
     Inr (S\<lparr>srv := s, starting := (case r of Accepted_conn p \<Rightarrow> Some p | _ \<Rightarrow> None)\<rparr>))"
| "handle env Start S =
     (case starting S of
        None \<Rightarrow> Inr S
      | Some p \<Rightarrow> rbind (run_on p (front_start env) (srv S)) (\<lambda>(s, _). Inr (S\<lparr>srv := s, starting := None\<rparr>)))"
| "handle env (HeadRead p ec n bytes) S =
     front_event env p (\<lambda>c. read_head_handler env ec n (receive_head bytes c)) S"
| "handle env (BodyRead p ec n off bytes) S =
     front_event env p (\<lambda>c. rbind (receive_body off bytes c) (read_body_handler env ec n)) S"
| "handle env (Written p ec n) S = front_event env p (write_handler env ec n) S"
| "handle env WheelTurn S =
     rbind (timing_wheel_check (now env) (srv S)) (\<lambda>(s, _). Inr (S\<lparr>srv := s\<rparr>))"
| "handle env Managed S = rbind (manage_notified (srv S)) (\<lambda>s. Inr (S\<lparr>srv := s\<rparr>))"
| "handle env (BackendAccept ec peer sock) S =
     rbind (backend_accept_handler (now env) ec peer sock (backends S)) (\<lambda>(bs, _). Inr (S\<lparr>backends := bs\<rparr>))"
| "handle env (BackendRead i ec bytes) S =
     rbind (receive_some bytes (backends S ! i)) (\<lambda>c.
     rbind (backend_read_handler (now env) (stale_errno env) ec (length bytes) c) (\<lambda>(c, acts).
     rbind (backward env acts (srv S)) (\<lambda>s.
     Inr (S\<lparr>srv := s, backends := (backends S)[i := c]\<rparr>))))"
| "handle env (BackendWritten i ec n) S =
     rbind (backend_write_handler ec n (backends S ! i)) (\<lambda>(c, _).
     Inr (S\<lparr>backends := (backends S)[i := c]\<rparr>))"
| "handle env (BackendCheck ec) S = Inr (S\<lparr>backends := on_check_timeout ec (backends S)\<rparr>)"

text \<open>When an event can happen.\<close>

fun enabled :: "system \<Rightarrow> event \<Rightarrow> bool" where
  "enabled S (Accept _ _ _ _) \<longleftrightarrow> starting S = None"
| "enabled S Start \<longleftrightarrow> starting S \<noteq> None"
| "enabled S (HeadRead p _ _ _) \<longleftrightarrow> 0 < handlers (srv S) p"
| "enabled S (BodyRead p _ _ _ _) \<longleftrightarrow> 0 < handlers (srv S) p"
| "enabled S (Written p _ _) \<longleftrightarrow> 0 < handlers (srv S) p"
| "enabled S (BackendRead i _ _) \<longleftrightarrow> i < length (backends S)"
| "enabled S (BackendWritten i _ _) \<longleftrightarrow> i < length (backends S)"
| "enabled S _ \<longleftrightarrow> True"

inductive step :: "'s env \<Rightarrow> system \<Rightarrow> event \<Rightarrow> system \<Rightarrow> bool" where
  step: "enabled S e \<Longrightarrow> handle env e S = Inr S' \<Longrightarrow> step env S e S'"

inductive_cases stepE: "step env S e S'"

definition initial :: "u64 option \<Rightarrow> u64 \<Rightarrow> system" where
  "initial rlimit garbage = \<lparr> srv = configured rlimit garbage, backends = [], starting = None \<rparr>"

text \<open>The states the server can reach in some environments.\<close>

inductive reachable :: "'s env set \<Rightarrow> system \<Rightarrow> bool" for envs where
  init: "reachable envs (initial rlimit garbage)"
| more: "reachable envs S \<Longrightarrow> env \<in> envs \<Longrightarrow> step env S e S' \<Longrightarrow> reachable envs S'"

section \<open>Invariants of the system\<close>

text \<open>What a proof about every reachable state has to provide.\<close>

locale system_invariant =
  fixes I :: "system \<Rightarrow> bool" and envs :: "'s env set"
  assumes initially: "I (initial rlimit garbage)"
    and kept: "I S \<Longrightarrow> env \<in> envs \<Longrightarrow> enabled S e \<Longrightarrow> handle env e S = Inr S' \<Longrightarrow> I S'"
begin

lemma always: "reachable envs S \<Longrightarrow> I S"
  by (induction rule: reachable.induct) (auto intro: initially kept elim: stepE)

end

definition sys_inv :: "system \<Rightarrow> bool" where
  "sys_inv S \<longleftrightarrow> server_inv (set (pending_to_remove (srv S))) (srv S) \<and>
     (\<forall>p. starting S = Some p \<longrightarrow> idle_new (srv S) p)"

lemma configured_eq:
  "configured rlimit garbage =
     (new_server garbage)\<lparr>max_serve_conns_cnt := (case rlimit of Some r \<Rightarrow> if r < 100 then 1024 else 100 | None \<Rightarrow> 1024),
        conn_expired_time := 20, timing_wheel := replicate wheel_capacity []\<rparr>"
proof -
  have w: "fold (\<lambda>_. wheel_push []) [0..<wheel_capacity] [] = replicate wheel_capacity []"
    by (simp add: wheel_capacity_def wheel_push_def upt_conv_Cons numeral_eq_Suc)
  have g: "of_nat wheel_capacity < (20 :: u64)" by (simp add: wheel_capacity_def)
  have n: "timing_wheel (new_server garbage) = []" by (simp add: new_server_def)
  have m: "max_serve_conns_cnt (new_server garbage) = 1024" by (simp add: new_server_def)
  show ?thesis
    by (cases rlimit) (simp_all add: configured_def set_max_serve_conns_cnt_def set_conn_expired_time_def
        fill_wheel_def w g n, simp_all add: new_server_def)
qed

lemma configured_inv: "server_inv (set (pending_to_remove (configured rlimit garbage))) (configured rlimit garbage)"
  unfolding configured_eq
  by (auto simp: inv_defs new_server_def wheel_capacity_def)

lemma start_inv:
  assumes inv: "server_inv (set (pending_to_remove s)) s" and idle: "idle_new s p"
    and r: "run_on p (front_start env) s = Inr (s', acts)"
  shows "server_inv (set (pending_to_remove s')) s'"
proof -
  from r obtain c where c: "front_start env (objects s p) = Inr (c, acts)" and s': "s' = settle p c acts s"
    by (auto simp: run_on_def rbind_Inr_iff)
  from c have n: "NotifyRemove \<notin> set acts"
    by (auto simp: front_start_def do_read_head_def post_def split: if_splits)
  have p: "p \<in> registered s" "p \<notin> set (pending_to_remove s)" using idle by (simp_all add: idle_new_def)
  have cl: "cache_limit s' = cache_limit s" by (rule cache_limit_cong) (simp add: s' keeps)
  have reg: "registered s' = registered s" "wheel_members s' = wheel_members s"
    by (simp_all add: s' keeps registered_def wheel_members_def)
  have pend: "pending_to_remove s' = pending_to_remove s" using n by (simp add: s' settle_def Let_def)
  have "tracked (set (pending_to_remove s')) s'" using inv
    unfolding server_inv_def tracked_def reg pend by (simp add: s' keeps)
  moreover have "counts_ok s'" "sessions_zero s'"
    using inv by (simp_all add: server_inv_def counts_ok_def sessions_zero_def s' keeps)
  moreover have "cache_ok s'" using inv p unfolding server_inv_def cache_ok_def cl reg
    by (auto simp: s' keeps)
  moreover have "addresses_ok s'" using inv p(1) unfolding server_inv_def addresses_ok_def reg pend
    by (auto simp: s' keeps)
  moreover have "pending_ok s'" using inv p(2) unfolding server_inv_def pending_ok_def pend
    by (auto simp: s' keeps)
  ultimately show ?thesis by (simp add: server_inv_def)
qed

text \<open>A completed handler of another connection leaves the one being started alone.\<close>

lemma run_on_idle:
  assumes "run_on p f s = Inr (s', acts)" and "idle_new s q" and "p \<noteq> q"
  shows "idle_new s' q"
  using assms by (auto simp: run_on_def rbind_Inr_iff idle_new_def registered_def keeps split: if_splits)

lemma handlers_inv:
  assumes "server_inv (set (pending_to_remove s)) s" and "0 < handlers s p"
  shows "server_inv (set (pending_to_remove s)) (s\<lparr>handlers := (handlers s)(p := handlers s p - 1)\<rparr>)"
    and "p < next_object s"
proof -
  have "cache_limit (s\<lparr>handlers := h\<rparr>) = cache_limit s" for h by (rule cache_limit_cong) simp
  with assms show "server_inv (set (pending_to_remove s)) (s\<lparr>handlers := (handlers s)(p := handlers s p - 1)\<rparr>)"
    by (auto simp: inv_defs)
  show "p < next_object s" using assms by (simp add: server_inv_def addresses_ok_def)
qed

lemma front_event_inv:
  assumes I: "sys_inv S" and h: "0 < handlers (srv S) p" and r: "front_event env p f S = Inr S'"
    and op: "\<And>c. behaves c (f c)"
  shows "sys_inv S'"
proof -
  from r obtain s acts bs where c: "complete p f (srv S) = Inr (s, acts)" and S': "S' = S\<lparr>srv := s, backends := bs\<rparr>"
    by (auto simp: front_event_def rbind_Inr_iff)
  define t where "t = (srv S)\<lparr>handlers := (handlers (srv S))(p := handlers (srv S) p - 1)\<rparr>"
  have t: "server_inv (set (pending_to_remove t)) t" "p < next_object t" and run: "run_on p f t = Inr (s, acts)"
    using I handlers_inv [OF _ h] c by (simp_all add: sys_inv_def t_def complete_def)
  have "conn_operation f" using op by unfold_locales
  then have "server_inv (set (pending_to_remove s)) s" using t run by (rule conn_operation.run_on_inv)
  moreover have "idle_new s q" if "starting S = Some q" for q
  proof (rule run_on_idle [OF run])
    have q: "idle_new (srv S) q" using I that by (simp add: sys_inv_def)
    then show "p \<noteq> q" using h by (auto simp: idle_new_def)
    with q show "idle_new t q" by (simp add: idle_new_def t_def registered_def)
  qed
  ultimately show ?thesis by (simp add: sys_inv_def S')
qed

text \<open>With every session id zero, \<open>push_front\<close> finds no connection.\<close>

lemma push_front_zero:
  assumes "sessions_zero s" and "push_front env session_id dat len s = Inr (s', acts)"
  shows "s' = s \<and> acts = []"
proof -
  from assms(1) have "filter (\<lambda>e. snd e = session_id) (front_conns s) = []" if "session_id \<noteq> 0"
    using that by (auto simp: sessions_zero_def filter_empty_conv)
  with assms(2) show ?thesis
    by (auto simp: push_front_def request_connection_def rbind_Inr_iff split: if_splits)
qed

lemma backward_zero: "sessions_zero s \<Longrightarrow> backward env acts s = Inr s' \<Longrightarrow> s' = s"
  by (induction env acts s rule: backward.induct) (auto simp: rbind_Inr_iff dest: push_front_zero)

lemma sys_inv_kept:
  assumes I: "sys_inv S" and en: "enabled S e" and h: "handle env e S = Inr S'"
  shows "sys_inv S'"
proof (cases e)
  case (Accept ec peer no_delay sock)
  with h obtain s r where a: "accept_conn env ec peer no_delay sock (srv S) = Inr (s, r)"
    and S': "S' = S\<lparr>srv := s, starting := (case r of Accepted_conn p \<Rightarrow> Some p | _ \<Rightarrow> None)\<rparr>"
    by (auto simp: rbind_Inr_iff)
  with accept_conn_inv [OF _ a] I show ?thesis by (auto simp: sys_inv_def split: accepted.splits)
next
  case Start
  with en obtain p where p: "starting S = Some p" by auto
  with h Start obtain s acts where r: "run_on p (front_start env) (srv S) = Inr (s, acts)"
    and S': "S' = S\<lparr>srv := s, starting := None\<rparr>"
    by (auto simp: rbind_Inr_iff)
  with I p start_inv [OF _ _ r] show ?thesis by (simp add: sys_inv_def)
next
  case (HeadRead p ec n bytes)
  with front_event_inv [OF I _ _ head_op.op_behaves] en h show ?thesis by simp
next
  case (BodyRead p ec n off bytes)
  with front_event_inv [OF I _ _ body_op.op_behaves] en h show ?thesis by simp
next
  case (Written p ec n)
  with front_event_inv [OF I _ _ write_op.op_behaves] en h show ?thesis by simp
next
  case WheelTurn
  with h obtain s x where c: "timing_wheel_check (now env) (srv S) = Inr (s, x)" and S': "S' = S\<lparr>srv := s\<rparr>"
    by (auto simp: rbind_Inr_iff)
  obtain flag acts where "x = (flag, acts)" by (cases x)
  with c I timing_wheel_check_inv show ?thesis by (auto simp: sys_inv_def S')
next
  case Managed
  with h obtain s where m: "manage_notified (srv S) = Inr s" and S': "S' = S\<lparr>srv := s\<rparr>"
    by (auto simp: rbind_Inr_iff)
  then show ?thesis using I manage_notified_inv [OF _ m] by (simp add: sys_inv_def)
next
  case (BackendAccept ec peer sock)
  with h I show ?thesis by (auto simp: rbind_Inr_iff sys_inv_def)
next
  case (BackendRead i ec bytes)
  with h obtain s bs acts where b: "backward env acts (srv S) = Inr s" and S': "S' = S\<lparr>srv := s, backends := bs\<rparr>"
    by (auto simp: rbind_Inr_iff)
  have "s = srv S" using backward_zero [OF _ b] I by (simp add: sys_inv_def server_inv_def)
  with I show ?thesis by (simp add: sys_inv_def S')
next
  case (BackendWritten i ec n)
  with h I show ?thesis by (auto simp: rbind_Inr_iff sys_inv_def)
next
  case (BackendCheck ec)
  with h I show ?thesis by (auto simp: sys_inv_def)
qed

interpretation registry: system_invariant sys_inv envs for envs :: "'s env set"
proof unfold_locales
  show "sys_inv (initial rlimit garbage)" for rlimit garbage
    using configured_inv [of rlimit garbage] by (simp add: sys_inv_def initial_def)
qed (rule sys_inv_kept)

end
