(* ===== verification/Settings.thy ===== *)
theory Settings
  imports System
begin

text \<open>
  The two settings \<open>main\<close> makes, their arithmetic, and that nothing changes them later.
\<close>

section \<open>The settings\<close>

text \<open>\<open>max_serve_conns_cnt_ * 0.3\<close> for the two values the setting can have.\<close>

lemmas dbl_calc = dbl_round_def floor_log2_def scale_ratio_def ilog2.simps round_half_even_def Let_def

lemma point_three: "dbl_round False 3 10 = DFin False 5404319552844595 (- 54)"
  by (simp add: dbl_calc)

lemma dbl_100: "dbl_of_int 100 = DFin False 7036874417766400 (- 46)"
  by (simp add: dbl_of_int_def dbl_calc)

lemma dbl_1024: "dbl_of_int 1024 = DFin False 4503599627370496 (- 42)"
  by (simp add: dbl_of_int_def dbl_calc)

lemma cache_limit_100: "max_serve_conns_cnt s = 100 \<Longrightarrow> cache_limit s = Inr 30"
  by (simp add: cache_limit_def dbl_100 point_three dbl_calc dbl_to_u64_def)

lemma cache_limit_1024: "max_serve_conns_cnt s = 1024 \<Longrightarrow> cache_limit s = Inr 307"
  by (simp add: cache_limit_def dbl_1024 point_three dbl_calc dbl_to_u64_def)

text \<open>No operation changes the settings.\<close>

definition same_settings :: "server \<Rightarrow> server \<Rightarrow> bool" where
  "same_settings s s' \<longleftrightarrow> max_serve_conns_cnt s' = max_serve_conns_cnt s \<and> conn_expired_time s' = conn_expired_time s"

lemma same_settings_refl [simp]: "same_settings s s"
  by (simp add: same_settings_def)

lemma same_settings_trans: "same_settings s t \<Longrightarrow> same_settings t u \<Longrightarrow> same_settings s u"
  by (simp add: same_settings_def)

lemma run_on_settings: "run_on p f s = Inr (s', acts) \<Longrightarrow> same_settings s s'"
  by (auto simp: run_on_def rbind_Inr_iff same_settings_def keeps)

lemma complete_settings: "complete p f s = Inr (s', acts) \<Longrightarrow> same_settings s s'"
  by (auto simp: complete_def same_settings_def dest!: run_on_settings)

lemma wheel_back_insert_settings: "wheel_back_insert p s = Inr s' \<Longrightarrow> same_settings s s'"
  by (simp add: same_settings_def wheel_back_insert_facts)

lemma accept_conn_settings: "accept_conn env ec peer no_delay sock s = Inr (s', r) \<Longrightarrow> same_settings s s'"
  by (auto simp: accept_conn_def rbind_Inr_iff Let_def same_settings_def
      dest!: wheel_back_insert_settings split: if_splits list.splits)

lemma check_items_settings:
  "wheel_check_items t spare items (s, keep, flag, acts) = Inr (s', x) \<Longrightarrow> same_settings s s'"
proof (induction items arbitrary: s keep flag acts)
  case (Cons item items)
  then obtain s1 keep1 flag1 acts1 where 1: "wheel_check_item t spare item (s, keep, flag, acts) = Inr (s1, keep1, flag1, acts1)"
    and 2: "wheel_check_items t spare items (s1, keep1, flag1, acts1) = Inr (s', x)"
    by (auto simp: rbind_Inr_iff)
  from 1 have "same_settings s s1"
    by (auto simp: wheel_check_item_def rbind_Inr_iff Let_def push_to_remove_def same_settings_def split: if_splits)
  with Cons.IH [OF 2] show ?case by (rule same_settings_trans [rotated])
qed simp

lemma timing_wheel_check_settings: "timing_wheel_check t s = Inr (s', x) \<Longrightarrow> same_settings s s'"
  by (auto simp: timing_wheel_check_def rbind_Inr_iff dest!: check_items_settings) (simp add: same_settings_def)

lemma recycle_settings: "recycle item s = Inr s' \<Longrightarrow> same_settings s s'"
  by (auto simp: recycle_def rbind_Inr_iff same_settings_def split: if_splits)

lemma manage_item_settings: "manage_item item s = Inr s' \<Longrightarrow> same_settings s s'"
  by (auto simp: manage_item_def rbind_Inr_iff dest!: recycle_settings wheel_back_insert_settings split: if_splits)
    (simp_all add: same_settings_def)

lemma manage_items_settings: "manage_items items s = Inr s' \<Longrightarrow> same_settings s s'"
  by (induction items arbitrary: s) (auto simp: rbind_Inr_iff intro: same_settings_trans manage_item_settings)

lemma manage_notified_settings: "manage_notified s = Inr s' \<Longrightarrow> same_settings s s'"
  by (auto simp: manage_notified_def rbind_Inr_iff Let_def dest!: manage_items_settings split: if_splits)
    (simp add: same_settings_def)

lemma push_front_settings: "push_front env session_id dat len s = Inr (s', acts) \<Longrightarrow> same_settings s s'"
  by (auto simp: push_front_def rbind_Inr_iff dest!: run_on_settings split: if_splits option.splits)

lemma backward_settings: "backward env acts s = Inr s' \<Longrightarrow> same_settings s s'"
  by (induction env acts s rule: backward.induct)
    (auto simp: rbind_Inr_iff intro: same_settings_trans dest!: push_front_settings)

lemma handle_settings: "handle env e S = Inr S' \<Longrightarrow> same_settings (srv S) (srv S')"
  by (cases e)
    (auto simp: rbind_Inr_iff front_event_def split: option.splits
      dest: accept_conn_settings run_on_settings complete_settings timing_wheel_check_settings
        manage_notified_settings backward_settings)

definition settings_ok :: "system \<Rightarrow> bool" where
  "settings_ok S \<longleftrightarrow> max_serve_conns_cnt (srv S) \<in> {100, 1024} \<and> conn_expired_time (srv S) = 20"

interpretation settings: system_invariant settings_ok envs for envs :: "'s env set"
proof unfold_locales
  show "settings_ok (initial rlimit garbage)" for rlimit garbage
    by (simp add: settings_ok_def initial_def configured_eq split: option.split)
  show "settings_ok S \<Longrightarrow> env \<in> envs \<Longrightarrow> enabled S e \<Longrightarrow> handle env e S = Inr S' \<Longrightarrow> settings_ok S'" for S env e S'
    using handle_settings [of env e S S'] by (simp add: settings_ok_def same_settings_def)
qed

lemma cache_limit_reachable:
  assumes "reachable envs S"
  shows "\<exists>limit. cache_limit (srv S) = Inr limit \<and> 0 < unat limit \<and>
    10 * unat limit \<le> 3 * unat (max_serve_conns_cnt (srv S))"
  using settings.always [OF assms] by (auto simp: settings_ok_def cache_limit_100 cache_limit_1024)

end
