(* ===== verification/Json_Roundtrip.thy ===== *)
theory Json_Roundtrip
  imports Json_Parser_Facts
begin

text \<open>
  Serialization and parsing agree: \<open>Json::parse\<close> reads back what \<open>Json::dump\<close> prints, for values
  without floating-point numbers. What a text at the parser's position is read as is stated
  once per token, then by induction along the value.
\<close>

section \<open>Tokens\<close>

text \<open>\<open>at str p s r\<close>: the input at the position is \<open>s\<close> followed by \<open>r\<close>.\<close>

definition at :: "string \<Rightarrow> parser \<Rightarrow> string \<Rightarrow> string \<Rightarrow> bool" where
  "at str p s r \<longleftrightarrow> drop (pos p) str = s @ r"

definition advance :: "nat \<Rightarrow> parser \<Rightarrow> parser" where
  "advance n p = p\<lparr>pos := pos p + n\<rparr>"

lemma advance_simps [simp]:
  "pos (advance n p) = pos p + n" "failed (advance n p) = failed p" "erange (advance n p) = erange p"
  "err (advance n p) = err p" "advance m (advance n p) = advance (n + m) p" "advance 0 p = p"
  "advance n p\<lparr>pos := k\<rparr> = p\<lparr>pos := k\<rparr>"
  by (simp_all add: advance_def)

lemma at_Cons: "at str p (c # s) r \<Longrightarrow> char_at str (pos p) = c \<and> pos p < length str \<and> at str (advance 1 p) s r"
  by (auto simp: at_def char_at_drop drop_Cons_less dest: drop_Suc_tl)

lemma at_append: "at str p (s @ t) r \<longleftrightarrow> at str p s (t @ r)"
  by (simp add: at_def)

lemma at_advance: "at str p (s @ t) r \<Longrightarrow> length s = n \<Longrightarrow> at str (advance n p) t r"
  using drop_append_ge [of "pos p" str s "t @ r"] by (auto simp: at_def)

lemma at_len: "at str p s r \<Longrightarrow> s \<noteq> [] \<Longrightarrow> pos p + length s \<le> length str"
  unfolding at_def by (metis append_is_Nil_conv drop_all diff_is_0_eq' le_add_diff_inverse2 length_append
      length_drop linorder_linear nat_add_left_cancel_le le_add1 add.commute)

definition plain :: "char \<Rightarrow> bool" where
  "plain c \<longleftrightarrow> \<not> is_json_space c \<and> c \<noteq> CHR ''/''"

lemma plain_stays:
  assumes "char_at str (pos p) = c" and "plain c"
  shows "consume_whitespace str p = p \<and> comment_loop str p = p"
proof -
  from assms have "consume_whitespace str p = p" and "consume_comment str p = (False, p)"
    by (auto simp: plain_def consume_whitespace_def skip_space.simps consume_comment_def)
  then show ?thesis by (simp add: comment_loop.simps [of str p] Let_def)
qed

lemma garbage_plain:
  assumes "at str p (c # s) r" and "plain c"
  shows "consume_garbage strategy str p = p"
  using plain_stays [of str p c] at_Cons [OF assms(1)] assms(2) by (simp add: consume_garbage_def)

lemma token_plain:
  assumes "at str p (c # s) r" and "plain c"
  shows "get_next_token strategy str p = (c, advance 1 p) \<and> at str (advance 1 p) s r"
  using garbage_plain [OF assms] at_Cons [OF assms(1)]
  by (simp add: get_next_token_def advance_def)

lemma token_space:
  assumes "at str p (CHR '' '' # c # s) r" and "plain c"
  shows "get_next_token strategy str p = (c, advance 2 p) \<and> at str (advance 2 p) s r"
proof -
  from at_Cons [OF assms(1)] have sp: "char_at str (pos p) = CHR '' ''" and a: "at str (advance 1 p) (c # s) r" by auto
  from at_Cons [OF a] have c: "char_at str (pos p + 1) = c" "pos p + 1 < length str"
    and s: "at str (advance 2 p) s r" by (auto simp: numeral_2_eq_2)
  have "skip_space str (pos p) = pos p + 1"
    using sp c assms(2) by (subst skip_space.simps) (subst skip_space.simps, auto simp: plain_def is_json_space_def)
  then have w: "consume_whitespace str p = advance 1 p" by (simp add: consume_whitespace_def advance_def)
  have "char_at str (pos (advance 1 p)) = c" using c by simp
  from plain_stays [OF this assms(2)] have "consume_garbage strategy str p = advance 1 p"
    by (simp add: consume_garbage_def w Let_def)
  with c s show ?thesis by (simp add: get_next_token_def advance_def)
qed

section \<open>Strings\<close>

lemma byte_char_of [simp]: "n < 256 \<Longrightarrow> byte (char_of n) = n"
  by (simp add: byte_def of_char_of)

lemma byte_same: "byte c = n \<Longrightarrow> byte d = n \<Longrightarrow> c = d"
  by (simp flip: byte_eq_iff)

lemma hex_digit_ok: "d < 16 \<Longrightarrow> is_xdigit (hex_digit d) \<and> xdigit_value (hex_digit d) = int d"
  by (auto simp: hex_digit_def is_xdigit_def xdigit_value_def is_digit_def)

lemma horner_16: "16 * a + x = (n::nat) \<Longrightarrow> 16 * b + y = a \<Longrightarrow> 16 * c + z = b \<Longrightarrow>
    16 * (16 * (16 * c + z) + y) + x = n"
  by simp

lemma hex4_ok:
  assumes "n < 65536"
  shows "length (hex4 n) = 4" "list_all is_xdigit (hex4 n)" "hex_value (hex4 n) = int n"
proof -
  show "length (hex4 n) = 4" by (simp add: hex4_def)
  show "list_all is_xdigit (hex4 n)" by (simp add: hex4_def hex_digit_ok)
  have "16 * (n div 16 div 16) + n div 16 mod 16 = n div 16" "16 * (n div 256 div 16) + n div 256 mod 16 = n div 256"
    by (rule mult_div_mod_eq)+
  then have e: "16 * (n div 256) + n div 16 mod 16 = n div 16" "16 * (n div 4096) + n div 256 mod 16 = n div 256"
    by (simp_all flip: div_mult2_eq)
  have m: "n div 4096 mod 16 = n div 4096" using assms by (simp add: div_less_iff_less_mult)
  have h: "16 * (16 * (16 * (n div 4096 mod 16) + n div 256 mod 16) + n div 16 mod 16) + n mod 16 = n"
    unfolding m by (rule horner_16 [OF mult_div_mod_eq e])
  have "hex_value (hex4 n) = 16 * (16 * (16 * int (n div 4096 mod 16) + int (n div 256 mod 16)) +
      int (n div 16 mod 16)) + int (n mod 16)"
    by (simp add: hex4_def hex_value_def hex_digit_ok)
  also have "\<dots> = int (16 * (16 * (16 * (n div 4096 mod 16) + n div 256 mod 16) + n div 16 mod 16) + n mod 16)"
    by (simp only: of_nat_add of_nat_mult of_nat_numeral)
  finally show "hex_value (hex4 n) = int n" unfolding h .
qed

lemma string_plain:
  assumes "at str p (c # s) r" and "c \<noteq> QUOTE" "c \<noteq> BSLASH" "0x1f < byte c"
  shows "string_step str out cp p = (StringNext (out @ encode_utf8 cp @ [c]) (- 1), advance 1 p)"
proof -
  have "\<not> 256 \<le> byte c" using byte_less_256 [of c] by linarith
  with at_Cons [OF assms(1)] assms(2-) show ?thesis
    by (auto simp: string_step_def in_range_def schar_def advance_def Let_def)
qed

lemma string_close:
  assumes "at str p (QUOTE # s) r"
  shows "string_step str out cp p = (StringDone (out @ encode_utf8 cp), advance 1 p)"
  using at_Cons [OF assms(1)] by (auto simp: string_step_def advance_def Let_def)

lemma string_escape_starts:
  assumes "at str p (BSLASH # c # s) r"
  shows "string_step str out cp p = escape_step str out cp (advance 1 p)"
proof -
  have "\<not> in_range (schar BSLASH) 0 0x1f" by (simp add: in_range_def schar_def byte_def)
  with at_Cons [OF assms(1)] show ?thesis by (auto simp: string_step_def advance_def Let_def)
qed

lemma string_simple:
  assumes "at str p (BSLASH # e # s) r" and "simple_escape e = Some c"
  shows "string_step str out cp p = (StringNext (out @ encode_utf8 cp @ [c]) (- 1), advance 2 p)"
proof -
  from at_Cons [OF assms(1)] have "at str (advance 1 p) (e # s) r" by simp
  from at_Cons [OF this] have "char_at str (pos p + 1) = e" "pos p + 1 < length str" by auto
  moreover have "e \<noteq> CHR ''u''" using assms(2) by (auto simp: simple_escape_def)
  ultimately show ?thesis unfolding string_escape_starts [OF assms(1)]
    using assms(2) by (simp add: escape_step_def Let_def advance_def)
qed

lemma escape_unicode:
  assumes "at str p (CHR ''u'' # hex4 n @ s) r" and "n < 65536" and "\<not> in_range cp 0xD800 0xDBFF"
  shows "escape_step str out cp p = (StringNext (out @ encode_utf8 cp) (int n), advance 5 p)"
proof -
  from at_Cons [OF assms(1)] have c: "char_at str (pos p) = CHR ''u''" "pos p < length str"
    and h: "at str (advance 1 p) (hex4 n @ s) r" by auto
  from h have "take 4 (drop (pos p + 1) str) = hex4 n" by (simp add: at_def hex4_def)
  with c show ?thesis using hex4_ok [OF assms(2)] assms(3)
    by (simp add: escape_step_def Let_def advance_def)
qed

lemma string_unicode:
  assumes "at str p (BSLASH # CHR ''u'' # hex4 n @ s) r" and "n < 65536" and "\<not> in_range cp 0xD800 0xDBFF"
  shows "string_step str out cp p = (StringNext (out @ encode_utf8 cp) (int n), advance 6 p)"
proof -
  have "at str (advance 1 p) (CHR ''u'' # hex4 n @ s) r" using at_Cons [OF assms(1)] by simp
  from escape_unicode [OF this assms(2,3)] show ?thesis by (simp add: string_escape_starts [OF assms(1)])
qed

lemma encode_utf8_none: "encode_utf8 (- 1) = []"
  by (simp add: encode_utf8_def)

lemma encode_utf8_ascii: "n < 128 \<Longrightarrow> encode_utf8 (int n) = [char_of n]"
  by (simp add: encode_utf8_def)

lemma encode_utf8_2028: "encode_utf8 0x2028 = [CHR 0xE2, CHR 0x80, CHR 0xA8]"
  by code_simp

lemma encode_utf8_2029: "encode_utf8 0x2029 = [CHR 0xE2, CHR 0x80, CHR 0xA9]"
  by code_simp

text \<open>The loop reads a dumped string back, whatever escaped code point is still pending.\<close>

definition pending_cp :: "int \<Rightarrow> bool" where
  "pending_cp cp \<longleftrightarrow> cp \<le> 0x2029"

lemma hex_digits: "hex_digit 0 = CHR ''0''" "hex_digit 2 = CHR ''2''" "hex_digit 8 = CHR ''8''" "hex_digit 9 = CHR ''9''"
  by code_simp+

lemma hex4_2028: "''u2028'' = CHR ''u'' # hex4 0x2028" "''u2029'' = CHR ''u'' # hex4 0x2029"
  by (simp_all add: hex4_def hex_digits)

declare dump_chars.simps [simp del]

lemma dump_chars_Nil [simp]: "dump_chars [] = []"
  by (simp add: dump_chars.simps)

lemma string_loop_dump:
  "at str p (dump_chars s @ [QUOTE]) r \<Longrightarrow> pending_cp cp \<Longrightarrow>
   parse_string_loop str out cp p = (out @ encode_utf8 cp @ s, advance (length (dump_chars s) + 1) p)"
proof (induction "length s" arbitrary: s out cp p rule: less_induct)
  case less
  show ?case
  proof (cases s)
    case Nil
    with less.prems show ?thesis by (subst parse_string_loop.simps) (simp add: string_close)
  next
    case s: (Cons ch cs)
    have IH: "parse_string_loop str out cp p = (out @ encode_utf8 cp @ t, advance (length (dump_chars t) + 1) p)"
      if "length t \<le> length cs" "at str p (dump_chars t @ [QUOTE]) r" "pending_cp cp" for t out cp p
      using less.hyps [of t p cp out] that by (simp add: s)
    have simple: ?thesis if d: "dump_chars s = BSLASH # e # dump_chars cs" and e: "simple_escape e = Some ch" for e
    proof -
      from less.prems(1) d have a: "at str p (BSLASH # e # (dump_chars cs @ [QUOTE])) r" by simp
      then have "at str (advance 2 p) (dump_chars cs @ [QUOTE]) r"
        using at_advance [of str p "[BSLASH, e]" _ r 2] by simp
      from IH [OF _ this, of "- 1"] show ?thesis
        by (subst parse_string_loop.simps) (simp add: string_simple [OF a e] d [unfolded s] s encode_utf8_none pending_cp_def)
    qed
    have unicode: ?thesis if d: "dump_chars s = BSLASH # CHR ''u'' # hex4 n @ dump_chars (drop k cs)"
      and n: "n < 65536" "encode_utf8 (int n) = ch # take k cs" "pending_cp (int n)" for n k
    proof -
      from less.prems(1) d have a: "at str p (BSLASH # CHR ''u'' # hex4 n @ (dump_chars (drop k cs) @ [QUOTE])) r" by simp
      have "length (BSLASH # CHR ''u'' # hex4 n) = 6" using hex4_ok(1) [OF n(1)] by simp
      with a have "at str (advance 6 p) (dump_chars (drop k cs) @ [QUOTE]) r"
        using at_advance [of str p "BSLASH # CHR ''u'' # hex4 n" _ r 6] by simp
      from IH [OF _ this n(3)] have "parse_string_loop str (out @ encode_utf8 cp) (int n) (advance 6 p) =
          (out @ encode_utf8 cp @ s, advance (length (dump_chars s) + 1) p)"
        using hex4_ok(1) [OF n(1)] by (simp add: n(2) d [unfolded s] s)
      moreover have "\<not> in_range cp 0xD800 0xDBFF" using less.prems(2) by (simp add: pending_cp_def in_range_def)
      ultimately show ?thesis
        by (subst parse_string_loop.simps) (simp add: string_unicode [OF a n(1)])
    qed
    have literal: ?thesis if d: "dump_chars s = ch # dump_chars cs" and c: "ch \<noteq> QUOTE" "ch \<noteq> BSLASH" "0x1f < byte ch"
    proof -
      from less.prems(1) d have a: "at str p (ch # (dump_chars cs @ [QUOTE])) r" by simp
      then have "at str (advance 1 p) (dump_chars cs @ [QUOTE]) r" by (auto dest: at_Cons)
      from IH [OF _ this, of "- 1"] show ?thesis
        by (subst parse_string_loop.simps) (simp add: string_plain [OF a c] d [unfolded s] s encode_utf8_none pending_cp_def)
    qed
    have three: "cs = CHR 0x80 # c # drop 2 cs" if "byte (char_at cs 0) = 0x80" "byte (char_at cs 1) = byte c" "byte c \<noteq> 0" for c
    proof -
      have b: "byte (CHR 0x80) = 0x80" "byte NULC = 0" by (simp_all add: byte_def)
      have "char_at cs 0 = CHR 0x80" by (rule byte_same [OF that(1) b(1)])
      moreover have "char_at cs 1 = c" using that(2) by simp
      moreover have "c \<noteq> NULC" using that(3) b(2) by auto
      ultimately show ?thesis by (cases cs; cases "tl cs") (auto simp: char_at_def split: if_splits)
    qed
    show ?thesis
    proof (cases "\<exists>e. dump_chars s = BSLASH # e # dump_chars cs \<and> simple_escape e = Some ch")
      case True
      then show ?thesis using simple by blast
    next
      case no_simple: False
      then have c: "ch \<noteq> QUOTE" "ch \<noteq> BSLASH" "ch \<noteq> CHR 0x08" "ch \<noteq> CHR 0x0C" "ch \<noteq> LF" "ch \<noteq> CR" "ch \<noteq> TAB"
        by (auto simp: s dump_chars.simps simple_escape_def)
      show ?thesis
      proof (cases "byte ch \<le> 0x1f")
        case True
        with c have "dump_chars s = BSLASH # CHR ''u'' # hex4 (byte ch) @ dump_chars (drop 0 cs)"
          by (simp add: s dump_chars.simps)
        moreover have "encode_utf8 (int (byte ch)) = ch # take 0 cs"
          using True by (simp add: encode_utf8_ascii) (simp add: byte_def)
        ultimately show ?thesis using True by (intro unicode [of "byte ch" 0]) (auto simp: pending_cp_def)
      next
        case False
        have "dump_chars s = ch # dump_chars cs"
          if "\<not> (byte ch = 0xe2 \<and> byte (char_at cs 0) = 0x80 \<and> byte (char_at cs 1) = 0xa8)"
            "\<not> (byte ch = 0xe2 \<and> byte (char_at cs 0) = 0x80 \<and> byte (char_at cs 1) = 0xa9)"
          using False c that by (simp add: s dump_chars.simps(2) [of ch cs])
        then consider "byte ch = 0xe2 \<and> byte (char_at cs 0) = 0x80 \<and> byte (char_at cs 1) = 0xa8"
          | "byte ch = 0xe2 \<and> byte (char_at cs 0) = 0x80 \<and> byte (char_at cs 1) = 0xa9"
          | "dump_chars s = ch # dump_chars cs"
          by blast
        then show ?thesis
        proof cases
          case 1
          have b: "byte (CHR 0xA8) = 0xa8" "byte (CHR 0xE2) = 0xe2" by (simp_all add: byte_def)
          from 1 have "cs = CHR 0x80 # CHR 0xA8 # drop 2 cs" by (intro three) (simp_all add: b)
          then have "take 2 cs = [CHR 0x80, CHR 0xA8]" by (metis One_nat_def numeral_2_eq_2 take0 take_Suc_Cons)
          moreover have "ch = CHR 0xE2" using byte_same [OF _ b(2)] 1 by blast
          moreover have "dump_chars s = BSLASH # CHR ''u'' # hex4 0x2028 @ dump_chars (drop 2 cs)"
            using False c 1 by (simp add: s dump_chars.simps(2) [of ch cs] hex4_2028)
          ultimately show ?thesis
            using encode_utf8_2028 by (intro unicode [of "0x2028" 2]) (auto simp: pending_cp_def)
        next
          case 2
          have b: "byte (CHR 0xA9) = 0xa9" "byte (CHR 0xE2) = 0xe2" by (simp_all add: byte_def)
          from 2 have "cs = CHR 0x80 # CHR 0xA9 # drop 2 cs" by (intro three) (simp_all add: b)
          then have "take 2 cs = [CHR 0x80, CHR 0xA9]" by (metis One_nat_def numeral_2_eq_2 take0 take_Suc_Cons)
          moreover have "ch = CHR 0xE2" using byte_same [OF _ b(2)] 2 by blast
          moreover have "dump_chars s = BSLASH # CHR ''u'' # hex4 0x2029 @ dump_chars (drop 2 cs)"
            using False c 2 by (simp add: s dump_chars.simps(2) [of ch cs] hex4_2028)
          ultimately show ?thesis
            using encode_utf8_2029 by (intro unicode [of "0x2029" 2]) (auto simp: pending_cp_def)
        next
          case 3
          with False c show ?thesis by (intro literal) auto
        qed
      qed
    qed
  qed
qed

lemma parse_string_dump:
  "at str p (dump_chars s @ [QUOTE]) r \<Longrightarrow> parse_string str p = (s, advance (length (dump_chars s) + 1) p)"
  using string_loop_dump [of str p s r "- 1" "[]"] by (simp add: parse_string_def encode_utf8_none pending_cp_def)

section \<open>Numbers and literals\<close>

lemma digit_plain: "is_digit c \<Longrightarrow> plain c"
  by (auto simp: plain_def is_json_space_def is_digit_def byte_def)

text \<open>What may follow a value inside a larger text.\<close>

definition closes :: "string \<Rightarrow> bool" where
  "closes r \<longleftrightarrow> r = [] \<or> hd r \<in> set '',]}''"

lemma closes_char:
  assumes "closes r"
  shows "r = [] \<or> \<not> is_digit (hd r)" "char_at r 0 \<notin> set ''.eE''" "\<not> is_digit (char_at r 0)"
  using assms by (cases r; auto simp: closes_def is_digit_def byte_def char_at_def)+

lemma char_at_0: "drop i str = r \<Longrightarrow> char_at str i = char_at r 0"
  by (auto simp: char_at_def)

lemma char_at_after: "at str p s r \<Longrightarrow> pos p \<le> length str \<Longrightarrow> char_at str (pos p + length s) = char_at r 0"
proof -
  assume a: "at str p s r" and "pos p \<le> length str"
  then have "drop (pos p + length s) str = r" by (auto simp: at_def dest: drop_append_ge)
  then show ?thesis by (rule char_at_0)
qed

lemma skip_digits_at:
  assumes "drop i str = ds @ r" and "\<forall>c \<in> set ds. is_digit c" and "\<not> is_digit (char_at r 0)"
  shows "skip_digits str i = i + length ds"
  using assms
proof (induction ds arbitrary: i)
  case Nil
  then have "char_at str i = char_at r 0" by (intro char_at_0) simp
  with Nil show ?case by (subst skip_digits.simps) simp
next
  case (Cons d ds)
  from Cons.prems have "char_at str i = d" "drop (i + 1) str = ds @ r" by (auto simp: char_at_drop dest: drop_Suc_tl)
  with Cons show ?case by (subst skip_digits.simps) simp
qed

lemma show_nat_shape: "\<exists>c ds. show_nat n = c # ds \<and> is_digit c \<and> (\<forall>d \<in> set ds. is_digit d) \<and> (c = CHR ''0'' \<longrightarrow> ds = [])"
proof (cases "n = 0")
  case True
  have "show_nat 0 = [digit_char 0]" by (rule trans [OF show_nat.simps]) simp
  with True show ?thesis by simp
next
  case False
  obtain c ds where s: "show_nat n = c # ds" "c = CHR ''0'' \<longleftrightarrow> n = 0"
    using show_nat_first [of n] by auto
  have "\<forall>d \<in> set (show_nat n). is_digit d" using show_nat_digits by blast
  then have "\<forall>d \<in> set (c # ds). is_digit d" unfolding s(1) .
  moreover have "c \<noteq> CHR ''0''" using s(2) False by blast
  ultimately show ?thesis using s(1) by simp
qed

text \<open>The digits of an integer, possibly after a minus sign.\<close>

lemma parse_number_convert:
  assumes a: "at str p (sign @ show_nat n) r" and sign: "sign = [] \<or> sign = ''-''" and r: "closes r"
    and len: "length (sign @ show_nat n) \<le> 20"
  shows "parse_number str p =
    (case convert_int str (pos p) (advance (length (sign @ show_nat n)) p) of
       (Some v, q) \<Rightarrow> (v, q) | (None, q) \<Rightarrow> parse_decimal str (pos p) q)"
proof -
  obtain c ds where n: "show_nat n = c # ds" and c: "is_digit c" "\<forall>d \<in> set ds. is_digit d" "c = CHR ''0'' \<longrightarrow> ds = []"
    using show_nat_shape by blast
  define i where "i = pos p + length sign"
  have e: "drop (pos p) str = sign @ c # ds @ r" using a n by (simp add: at_def)
  have di: "drop i str = c # ds @ r" using drop_append_ge [OF e] by (simp add: i_def)
  have lt: "pos p \<le> length str" using e by (cases "pos p \<le> length str") auto
  have ci: "char_at str i = c" using di by (rule char_at_drop)
  have "sign_end str (pos p) = i"
  proof (cases "sign = []")
    case True
    with ci c(1) show ?thesis by (auto simp: sign_end_def i_def dest: digit_not_space)
  next
    case False
    with sign a have "char_at str (pos p) = CHR ''-''" by (auto simp: at_def intro: char_at_drop)
    with False sign show ?thesis by (auto simp: sign_end_def i_def)
  qed
  moreover have di1: "drop (i + 1) str = ds @ r" using di by (auto dest: drop_Suc_tl)
  then have "skip_digits str (i + 1) = i + 1 + length ds" by (rule skip_digits_at [OF _ c(2) closes_char(3) [OF r]])
  then have "int_part_end str i = pos p + length (sign @ show_nat n)"
    using c(3) ci by (auto simp: int_part_end_def i_def n)
  moreover have "char_at str (pos p + length (sign @ show_nat n)) = char_at r 0"
    using char_at_after [OF a lt] by simp
  moreover have "\<not> (c = CHR ''0'' \<and> is_digit (char_at str (i + 1)))"
  proof
    assume "c = CHR ''0'' \<and> is_digit (char_at str (i + 1))"
    moreover from this c(3) di1 have "char_at str (i + 1) = char_at r 0"
      by (intro char_at_0) simp
    ultimately show False using closes_char(3) [OF r] by simp
  qed
  ultimately show ?thesis
    using closes_char(2) [OF r] len c(1) ci
    by (cases "c = CHR ''0''") (simp_all add: parse_number_def Let_def max_int_chars_def advance_def)
qed

lemma parse_number_digits:
  assumes "at str p (sign @ show_nat n) r" and "sign = [] \<or> sign = ''-''" and "closes r"
    and "length (sign @ show_nat n) \<le> 20"
    and "convert_int str (pos p) (advance (length (sign @ show_nat n)) p) =
      (Some v, advance (length (sign @ show_nat n)) p)"
  shows "parse_number str p = (v, advance (length (sign @ show_nat n)) p)"
  using parse_number_convert [OF assms(1-4)] assms(5) by simp

lemma c_str_digits: "\<forall>c \<in> set s. c \<noteq> NULC \<Longrightarrow> c_str (s @ r) = s @ c_str r"
  by (simp add: c_str_def)

lemma show_nat_no_nul: "c \<in> set (show_nat n) \<Longrightarrow> c \<noteq> NULC"
  using show_nat_digits [of c n] by (auto simp: is_digit_def byte_def)

lemma closes_c_str: "closes r \<Longrightarrow> c_str r = [] \<or> \<not> is_digit (hd (c_str r))"
  using closes_char(1) [of r] by (cases r) (auto simp: c_str_def)

lemma parse_number_uint:
  assumes "at str p (show_int (uint (w :: u64))) r" and "closes r" and "\<not> erange p"
  shows "parse_number str p = (JsonUInt64 w, advance (length (show_int (uint w))) p)"
proof -
  have s: "show_int (uint w) = [] @ show_nat (unat w)" by (simp add: show_int_def not_less)
  have lt: "unat w < 2 ^ 64" using unsigned_less [of w, where 'a = nat] by simp
  have c: "c_str (drop (pos p) str) = show_nat (unat w) @ c_str r"
    using assms(1) c_str_digits [of "show_nat (unat w)" r] show_nat_no_nul by (auto simp: at_def s)
  obtain d ds where n: "show_nat (unat w) = d # ds" "is_digit d" using show_nat_shape by blast
  then have "char_at str (pos p) \<noteq> CHR ''-''"
    using assms(1) digit_not_space [of d] char_at_drop [of "pos p" str d "ds @ r"] by (simp add: at_def s)
  then have "convert_int str (pos p) (advance k p) = (Some (JsonUInt64 w), advance k p)" for k
    using strtoull_show_nat [OF closes_c_str [OF assms(2)] lt] assms(3)
    by (simp add: convert_int_def c advance_def)
  moreover have "length (show_nat (unat w)) \<le> 20" by (rule length_show_nat) (use lt in simp_all)
  ultimately show ?thesis unfolding s
    using assms(1,2) s by (intro parse_number_digits) simp_all
qed

lemma parse_number_int:
  assumes "at str p (show_int (sint (w :: u64))) r" and "closes r" and "\<not> erange p" and "sint w < 0"
  shows "parse_number str p = (JsonInt64 w, advance (length (show_int (sint w))) p)"
proof -
  define n where "n = nat (- sint w)"
  have s: "show_int (sint w) = ''-'' @ show_nat n" using assms(4) by (simp add: show_int_def n_def)
  have "- (2 ^ 63) \<le> sint w" using sint_ge [of w] by simp
  then have le: "n \<le> 2 ^ 63" by (simp add: n_def)
  have w: "- of_nat n = w" using assms(4) by (simp add: n_def)
  have c: "c_str (drop (pos p) str) = CHR ''-'' # show_nat n @ c_str r"
    using assms(1) c_str_digits [of "''-'' @ show_nat n" r] show_nat_no_nul by (auto simp: at_def s)
  have "char_at str (pos p) = CHR ''-''"
    using assms(1) char_at_drop [of "pos p" str "CHR ''-''" "show_nat n @ r"] by (simp add: at_def s)
  then have "convert_int str (pos p) (advance k p) = (Some (JsonInt64 w), advance k p)" for k
    using atoll_neg_show_nat [OF closes_c_str [OF assms(2)] le] assms(3) w
    by (simp add: convert_int_def c advance_def)
  moreover have "length (show_nat n) \<le> 19" by (rule length_show_nat) (use le in simp_all)
  ultimately show ?thesis unfolding s
    using assms(1,2) s by (intro parse_number_digits) simp_all
qed

lemma expect_at:
  assumes "at str p (c # s) r"
  shows "expect str (c # s) v (advance 1 p) = (v, advance (length (c # s)) p)"
  using assms by (simp add: expect_def at_def Let_def advance_def)

section \<open>Values\<close>

text \<open>What a value becomes: an integer that is not negative is read as unsigned.\<close>

fun as_parsed :: "json \<Rightarrow> json" where
  "as_parsed (JsonInt64 w) = (if sint w < 0 then JsonInt64 w else JsonUInt64 w)"
| "as_parsed (JsonArray vs) = JsonArray (map as_parsed vs)"
| "as_parsed (JsonObject ms) = JsonObject (map (\<lambda>m. (fst m, as_parsed (snd m))) ms)"
| "as_parsed v = v"

fun no_doubles :: "json \<Rightarrow> bool" where
  "no_doubles (JsonDouble d) = False"
| "no_doubles (JsonArray vs) \<longleftrightarrow> (\<forall>v \<in> set vs. no_doubles v)"
| "no_doubles (JsonObject ms) \<longleftrightarrow> (\<forall>m \<in> set ms. no_doubles (snd m))"
| "no_doubles v \<longleftrightarrow> True"

definition gap :: "string \<Rightarrow> bool" where
  "gap sp \<longleftrightarrow> sp = [] \<or> sp = '' ''"

lemma token_gap:
  assumes "at str p (sp @ c # s) r" and "plain c" and "gap sp"
  shows "get_next_token strategy str p = (c, advance (length sp + 1) p) \<and> at str (advance (length sp + 1) p) s r"
  using assms token_plain [of str p c s r strategy] token_space [of str p c s r strategy]
  by (auto simp: gap_def numeral_2_eq_2)

text \<open>\<open>value\<close> reads \<open>j\<close> wherever its text stands, between blanks and a closing character.\<close>

definition reads :: "string \<Rightarrow> (parser \<Rightarrow> (json \<times> parser) option) \<Rightarrow> json \<Rightarrow> bool" where
  "reads str pv j \<longleftrightarrow> (\<forall>p sp r. at str p (sp @ dump j) r \<longrightarrow> gap sp \<longrightarrow> closes r \<longrightarrow> \<not> failed p \<longrightarrow> \<not> erange p \<longrightarrow>
     pv p = Some (as_parsed j, advance (length sp + length (dump j)) p))"

lemma readsD:
  "reads str pv j \<Longrightarrow> at str p (sp @ dump j) r \<Longrightarrow> gap sp \<Longrightarrow> closes r \<Longrightarrow> \<not> failed p \<Longrightarrow> \<not> erange p \<Longrightarrow>
   pv p = Some (as_parsed j, advance (length sp + length (dump j)) p)"
  by (simp add: reads_def)

lemma show_int_first: "\<exists>c s. show_int i = c # s \<and> (is_digit c \<or> c = CHR ''-'')"
proof -
  obtain d ds where "show_nat (nat i) = d # ds" "is_digit d" using show_nat_shape by blast
  then show ?thesis by (auto simp: show_int_def)
qed

lemma dump_first: "no_doubles j \<Longrightarrow> \<exists>c s. dump j = c # s \<and> plain c \<and> c \<noteq> CHR '']''"
proof -
  have n: "\<exists>c s. show_int i = c # s \<and> plain c \<and> c \<noteq> CHR '']''" for i
  proof -
    obtain c s where s: "show_int i = c # s" "is_digit c \<or> c = CHR ''-''" using show_int_first by blast
    then have "plain c \<and> c \<noteq> CHR '']''" by (auto simp: plain_def is_json_space_def is_digit_def byte_def)
    with s show ?thesis by blast
  qed
  show "no_doubles j \<Longrightarrow> ?thesis"
    by (cases j) (use n in \<open>auto simp: dump_string_def plain_def is_json_space_def\<close>)
qed

text \<open>The rest of an array or object begins with a closing character.\<close>

lemma items_close: "closes (dump_items False vs @ '']'' @ r)"
  by (cases vs) (auto simp: closes_def)

lemma members_close: "closes (dump_members False ms @ ''}'' @ r)"
  by (cases ms) (auto simp: closes_def)

lemma items_True: "dump_items False (v # vs) = '', '' @ dump_items True (v # vs)"
  by simp

lemma members_True: "dump_members False (m # ms) = '', '' @ dump_members True (m # ms)"
  by (cases m) simp

lemma parse_elems_dump:
  assumes "at str p (dump_items True vs @ '']'') r" and "vs \<noteq> []" and "\<not> failed p" and "\<not> erange p"
    and "\<forall>v \<in> set vs. reads str pv v \<and> no_doubles v" and "length vs \<le> fuel"
  shows "parse_elems fuel pv strategy str data (advance 1 p) =
    Some (JsonArray (data @ map as_parsed vs), advance (length (dump_items True vs) + 1) p)"
  using assms
proof (induction vs arbitrary: fuel data p)
  case (Cons v vs)
  obtain f where f: "fuel = Suc f" using Cons.prems(6) by (cases fuel) auto
  have a: "at str p ([] @ dump v) (dump_items False vs @ '']'' @ r)"
    and t: "at str p (dump v @ (dump_items False vs @ '']'')) r"
    using Cons.prems(1) by (simp_all add: at_def)
  have "pv p = Some (as_parsed v, advance (length (dump v)) p)"
    using readsD [OF _ a _ items_close Cons.prems(3,4)] Cons.prems(5) by (simp add: gap_def)
  then have v: "pv (advance 1 p\<lparr>pos := pos (advance 1 p) - 1\<rparr>) = Some (as_parsed v, advance (length (dump v)) p)"
    by simp
  from t have q: "at str (advance (length (dump v)) p) (dump_items False vs @ '']'') r" by (rule at_advance) simp
  show ?case
  proof (cases vs)
    case Nil
    with q have "get_next_token strategy str (advance (length (dump v)) p) = (CHR '']'', advance (length (dump v) + 1) p)"
      using token_plain [of str "advance (length (dump v)) p" "CHR '']''" "[]" r] by (simp add: plain_def is_json_space_def)
    then show ?thesis using v Cons.prems(3) Nil by (simp add: f elem_tail_def Let_def)
  next
    case (Cons w ws)
    obtain c s where c: "dump w = c # s" "plain c" using dump_first [of w] Cons.prems(5) Cons by auto
    from q Cons have q1: "at str (advance (length (dump v)) p) (CHR '','' # CHR '' '' # (dump_items True vs @ '']'')) r"
      by (simp add: items_True)
    from token_plain [OF q1, of strategy] have
      t1: "get_next_token strategy str (advance (length (dump v)) p) = (CHR '','', advance (length (dump v) + 1) p)"
      and q2: "at str (advance (length (dump v) + 1) p) (CHR '' '' # (dump_items True vs @ '']'')) r"
      by (simp_all add: plain_def is_json_space_def)
    from q2 have q3: "at str (advance (length (dump v) + 1) p) (CHR '' '' # c # (s @ dump_items False ws @ '']'')) r"
      by (simp add: Cons c)
    from token_space [OF q3 c(2), of strategy]
    have t2: "get_next_token strategy str (advance (length (dump v) + 1) p) = (c, advance (length (dump v) + 3) p)"
      by simp
    have q4: "at str (advance (length (dump v) + 2) p) (dump_items True vs @ '']'') r"
      using at_Cons [OF q2] by simp
    have "parse_elems f pv strategy str (data @ [as_parsed v]) (advance 1 (advance (length (dump v) + 2) p)) =
        Some (JsonArray ((data @ [as_parsed v]) @ map as_parsed vs),
          advance (length (dump_items True vs) + 1) (advance (length (dump v) + 2) p))"
      by (rule Cons.IH [OF q4]) (use Cons.prems Cons f in auto)
    then show ?thesis using v t1 t2 Cons.prems(3) Cons
      by (simp add: f elem_tail_def Let_def add.commute add.left_commute numeral_3_eq_3)
  qed
qed simp

lemma map_assign_last: "\<forall>e \<in> set m. fst e < k \<Longrightarrow> map_assign k v m = m @ [(k, v)]"
  by (induction k v m rule: map_assign.induct) (auto simp: less_le_not_le)

lemma member_head_dump:
  assumes "at str p (dump_chars k @ [QUOTE] @ '':'' @ s) r" and "\<not> failed p"
  shows "member_head strategy str QUOTE p = (Go k, advance (length (dump_chars k) + 2) p) \<and>
    at str (advance (length (dump_chars k) + 2) p) s r"
proof -
  from assms(1) have a: "at str p (dump_chars k @ [QUOTE]) ('':'' @ s @ r)" and
    b: "at str p ((dump_chars k @ [QUOTE]) @ CHR '':'' # s) r" by (simp_all add: at_def)
  from b have "at str (advance (length (dump_chars k) + 1) p) (CHR '':'' # s) r" by (rule at_advance) simp
  from token_plain [OF this, of strategy] show ?thesis
    using parse_string_dump [OF a] assms(2) by (simp add: member_head_def plain_def is_json_space_def Let_def)
qed

lemma parse_members_dump:
  assumes "at str p (dump_members True ms @ ''}'') r" and "ms \<noteq> []" and "\<not> failed p" and "\<not> erange p"
    and "\<forall>m \<in> set ms. reads str pv (snd m) \<and> no_doubles (snd m)" and "length ms \<le> fuel"
    and "sorted_keys ms" and "\<forall>e \<in> set data. \<forall>m \<in> set ms. fst e < fst m"
  shows "parse_members fuel pv strategy str QUOTE data (advance 1 p) =
    Some (JsonObject (data @ map (\<lambda>m. (fst m, as_parsed (snd m))) ms), advance (length (dump_members True ms) + 1) p)"
  using assms
proof (induction ms arbitrary: fuel data p)
  case (Cons m ms)
  obtain f where f: "fuel = Suc f" using Cons.prems(6) by (cases fuel) auto
  obtain k v where m: "m = (k, v)" by (cases m)
  define n where "n = length (dump_chars k) + 3"
  have t: "at str p (QUOTE # dump_chars k @ [QUOTE] @ '':'' @ ('' '' @ dump v @ dump_members False ms @ ''}'')) r"
    using Cons.prems(1) by (simp add: m dump_string_def)
  from at_Cons [OF t] have t0: "at str (advance 1 p) (dump_chars k @ [QUOTE] @ '':'' @ ('' '' @ dump v @ dump_members False ms @ ''}'')) r"
    by simp
  from member_head_dump [OF t0, of strategy] Cons.prems(3)
  have head: "member_head strategy str QUOTE (advance 1 p) = (Go k, advance n p)"
    and t1: "at str (advance n p) ('' '' @ dump v @ dump_members False ms @ ''}'') r"
    by (simp_all add: n_def numeral_3_eq_3)
  from t1 have a: "at str (advance n p) ('' '' @ dump v) (dump_members False ms @ ''}'' @ r)" by (simp add: at_def)
  have "reads str pv v" using Cons.prems(5) by (simp add: m)
  from readsD [OF this a _ members_close] Cons.prems(3,4)
  have "pv (advance n p) = Some (as_parsed v, advance (n + 1 + length (dump v)) p)"
    by (simp add: gap_def add.assoc)
  define l where "l = n + 1 + length (dump v)"
  then have v: "pv (advance n p) = Some (as_parsed v, advance l p)"
    using \<open>pv (advance n p) = _\<close> by simp
  have "at str (advance n p) (('' '' @ dump v) @ dump_members False ms @ ''}'') r" using t1 by simp
  then have q: "at str (advance l p) (dump_members False ms @ ''}'') r"
    using at_advance [of str "advance n p" "'' '' @ dump v" _ r "length (dump v) + 1"] by (simp add: l_def add.commute)
  have d: "map_assign k (as_parsed v) data = data @ [(k, as_parsed v)]"
    by (rule map_assign_last) (use Cons.prems(8) in \<open>auto simp: m\<close>)
  have L: "length (dump_members True (m # ms)) = l + length (dump_members False ms)"
    by (simp add: m l_def n_def dump_string_def)
  show ?case
  proof (cases ms)
    case Nil
    with q have "get_next_token strategy str (advance l p) = (CHR ''}'', advance (l + 1) p)"
      using token_plain [of str "advance l p" "CHR ''}''" "[]" r] by (simp add: plain_def is_json_space_def)
    then show ?thesis using head v d L Cons.prems(3) Nil
      by (simp add: f member_tail_def Let_def m del: dump_members.simps(2))
  next
    case (Cons w ws)
    obtain k' v' where w: "w = (k', v')" by (cases w)
    from q Cons have q1: "at str (advance l p) (CHR '','' # CHR '' '' # (dump_members True ms @ ''}'')) r"
      by (simp add: members_True del: dump_members.simps)
    from token_plain [OF q1, of strategy] have
      t1: "get_next_token strategy str (advance l p) = (CHR '','', advance (l + 1) p)"
      and q2: "at str (advance (l + 1) p) (CHR '' '' # (dump_members True ms @ ''}'')) r"
      by (simp_all add: plain_def is_json_space_def)
    then have q3: "at str (advance (l + 1) p) (CHR '' '' # QUOTE #
        (dump_chars k' @ [QUOTE] @ '': '' @ dump v' @ dump_members False ws @ ''}'')) r"
      by (simp add: Cons w dump_string_def)
    from token_space [OF q3, of strategy]
    have t2: "get_next_token strategy str (advance (l + 1) p) = (QUOTE, advance (l + 3) p)"
      by (simp add: plain_def is_json_space_def)
    have q4: "at str (advance (l + 2) p) (dump_members True ms @ ''}'') r"
      using at_Cons [OF q2] by simp
    have "parse_members f pv strategy str QUOTE (data @ [(k, as_parsed v)]) (advance 1 (advance (l + 2) p)) =
        Some (JsonObject ((data @ [(k, as_parsed v)]) @ map (\<lambda>m. (fst m, as_parsed (snd m))) ms),
          advance (length (dump_members True ms) + 1) (advance (l + 2) p))"
    proof (rule Cons.IH [OF q4])
      show "\<forall>e \<in> set (data @ [(k, as_parsed v)]). \<forall>m \<in> set ms. fst e < fst m"
        using Cons.prems(7,8) by (auto simp: m)
    qed (use Cons.prems Cons f m in auto)
    then show ?thesis using head v d t1 t2 Cons.prems(3) L
      by (simp add: f member_tail_def Let_def m Cons members_True add.commute add.left_commute numeral_3_eq_3
          del: dump_members.simps)
  qed
qed simp

lemma items_length: "\<forall>v \<in> set vs. no_doubles v \<Longrightarrow> length vs \<le> length (dump_items b vs)"
proof (induction vs arbitrary: b)
  case (Cons v vs)
  obtain c s where "dump v = c # s" using dump_first Cons.prems by fastforce
  with Cons.IH [of False] Cons.prems show ?case by (auto simp: le_SucI)
qed simp

lemma members_length: "length ms \<le> length (dump_members b ms)"
proof (induction ms arbitrary: b)
  case (Cons m ms)
  have "length ms \<le> length (dump_members False ms)" by (rule Cons.IH)
  then show ?case by (cases m) (simp add: dump_string_def)
qed simp

lemma at_length: "at str p s r \<Longrightarrow> s \<noteq> [] \<Longrightarrow> length s \<le> length str"
  using at_len [of str p s r] by simp

lemma nonneg_sint: "\<not> sint (w :: u64) < 0 \<Longrightarrow> sint w = uint w"
proof -
  assume "\<not> sint w < 0"
  moreover have "uint (word_of_int (sint w) :: u64) = take_bit 64 (sint w)"
    by (subst unsigned_of_int) simp
  ultimately show ?thesis using sint_lt [of w] by (simp add: take_bit_int_eq_self)
qed

text \<open>Scalars: the first character decides.\<close>

lemma parse_scalar:
  assumes a: "at str p (sp @ dump j) r" and g: "gap sp" and r: "closes r" and p: "\<not> failed p" "\<not> erange p"
    and j: "no_doubles j" "json_height j = 0" and d: "depth \<le> max_depth"
  shows "value_head strategy str depth p = (Return (as_parsed j), advance (length sp + length (dump j)) p)"
proof -
  obtain c s where c: "dump j = c # s" "plain c" using dump_first [OF j(1)] by blast
  define q where "q = advance (length sp) p"
  have q: "at str q (dump j) r" "\<not> failed q" "\<not> erange q" using a p by (simp_all add: q_def at_advance)
  have tok: "get_next_token strategy str p = (c, advance 1 q)"
    using token_gap [of str p sp c s r strategy] a g c by (simp add: q_def)
  have fin: "advance (length sp + length (dump j)) p = advance (length (dump j)) q" by (simp add: q_def)
  have e: "expect str (c # s) v (advance 1 q) = (v, advance (length (dump j)) q)" for v
    using expect_at [of str q c s r v] q(1) c(1) by simp
  have unget: "advance 1 q\<lparr>pos := pos (advance 1 q) - 1\<rparr> = q" by simp
  have num: ?thesis if "is_digit c \<or> c = CHR ''-''" and "parse_number str q = (as_parsed j, advance (length (dump j)) q)"
    unfolding fin using that tok d q(2) unget by (auto simp: value_head_def Let_def)
  show ?thesis
  proof (cases j)
    case JsonNull
    with c e tok d q(2) show ?thesis unfolding fin by (auto simp: value_head_def is_digit_def byte_def)
  next
    case (JsonInt64 w)
    then have "is_digit c \<or> c = CHR ''-''" using show_int_first [of "sint w"] c by auto
    moreover have "parse_number str q = (as_parsed j, advance (length (dump j)) q)"
    proof (cases "sint w < 0")
      case True
      with parse_number_int [of str q w r] q r JsonInt64 show ?thesis by simp
    next
      case False
      then have "sint w = uint w" by (rule nonneg_sint)
      with parse_number_uint [of str q w r] q r JsonInt64 False show ?thesis by simp
    qed
    ultimately show ?thesis by (rule num)
  next
    case (JsonUInt64 w)
    then have "is_digit c \<or> c = CHR ''-''" using show_int_first [of "uint w"] c by auto
    moreover have "parse_number str q = (as_parsed j, advance (length (dump j)) q)"
      using parse_number_uint [of str q w r] q r JsonUInt64 by simp
    ultimately show ?thesis by (rule num)
  next
    case (JsonBoolean b)
    with c e [of "JsonBoolean b"] tok d q(2) show ?thesis unfolding fin
      by (cases b) (auto simp: value_head_def is_digit_def byte_def)
  next
    case (JsonString t)
    then have c': "c = QUOTE" "s = dump_chars t @ [QUOTE]" using c by (auto simp: dump_string_def)
    have "at str (advance 1 q) (dump_chars t @ [QUOTE]) r" using at_Cons [of str q c s r] q(1) c(1) c'(2) by simp
    from parse_string_dump [OF this] have
      ps: "parse_string str (advance 1 q) = (t, advance (length (dump j)) q)" by (simp add: JsonString dump_string_def)
    then show ?thesis unfolding fin using tok d q(2) JsonString c'
      by (simp add: value_head_def is_digit_def byte_def)
  qed (use j in simp_all)
qed

lemma parse_json_scalar:
  assumes "no_doubles j" "json_height j = 0" "depth \<le> max_depth" "0 < fuel"
  shows "reads str (parse_json fuel strategy str depth) j"
proof -
  obtain f where "fuel = Suc f" using assms(4) by (cases fuel) auto
  with assms show ?thesis by (simp add: reads_def parse_scalar)
qed

lemma parse_json_dump:
  "json_wf j \<Longrightarrow> no_doubles j \<Longrightarrow> depth + json_height j \<le> max_depth \<Longrightarrow> json_height j < fuel \<Longrightarrow>
   reads str (parse_json fuel strategy str depth) j"
proof (induction j arbitrary: depth fuel)
  case (JsonArray vs)
  obtain f where f: "fuel = Suc f" using JsonArray.prems(4) by (cases fuel) auto
  obtain h where h: "json_height (JsonArray vs) = Suc h" by simp
  then have hv: "\<forall>v \<in> set vs. json_height v \<le> h" using json_height_le_Suc_iff(1) [of vs h] by simp
  have el: "\<forall>v \<in> set vs. reads str (parse_json f strategy str (depth + 1)) v \<and> no_doubles v"
    using JsonArray hv h f by fastforce
  show ?case unfolding reads_def
  proof (intro allI impI)
    fix p sp r
    assume a: "at str p (sp @ dump (JsonArray vs)) r" and g: "gap sp" and p: "\<not> failed p" "\<not> erange p"
    define q where "q = advance (length sp + 1) p"
    have t: "get_next_token strategy str p = (CHR ''['', q)" and b: "at str q (dump_items True vs @ '']'') r"
      using token_gap [of str p sp "CHR ''[''" "dump_items True vs @ '']''" r strategy] a g
      by (simp_all add: q_def plain_def is_json_space_def)
    have fin: "advance (length sp + length (dump (JsonArray vs))) p = advance (length (dump_items True vs) + 1) q"
      by (simp add: q_def)
    show "parse_json fuel strategy str depth p = Some (as_parsed (JsonArray vs),
        advance (length sp + length (dump (JsonArray vs))) p)"
    proof (cases "vs = []")
      case True
      with b have "get_next_token strategy str q = (CHR '']'', advance 1 q)"
        using token_plain [of str q "CHR '']''" "[]" r] by (simp add: plain_def is_json_space_def)
      with t True p JsonArray.prems(3) show ?thesis unfolding fin
        by (simp add: f value_head_def is_digit_def byte_def Let_def q_def)
    next
      case False
      then obtain v ws where vs: "vs = v # ws" by (cases vs) auto
      obtain c s where c: "dump v = c # s" "plain c" "c \<noteq> CHR '']''" using dump_first el vs by fastforce
      from b have "at str q (c # (s @ dump_items False ws @ '']'')) r" by (simp add: vs c)
      from token_plain [OF this c(2), of strategy] have t2: "get_next_token strategy str q = (c, advance 1 q)" by simp
      have "length vs \<le> length (dump_items True vs @ '']'')" using items_length [of vs True] el by simp
      with at_length [OF b] have "length vs \<le> loop_fuel str" by (simp add: loop_fuel_def)
      from parse_elems_dump [OF b False _ _ el this, of strategy "[]"] p
      show ?thesis unfolding fin using t t2 c(3) JsonArray.prems(3) p
        by (simp add: f value_head_def is_digit_def byte_def Let_def q_def)
    qed
  qed
next
  case (JsonObject ms)
  obtain f where f: "fuel = Suc f" using JsonObject.prems(4) by (cases fuel) auto
  obtain h where h: "json_height (JsonObject ms) = Suc h" by simp
  then have hv: "\<forall>m \<in> set ms. json_height (snd m) \<le> h" using json_height_le_Suc_iff(2) [of ms h] by simp
  have el: "\<forall>m \<in> set ms. reads str (parse_json f strategy str (depth + 1)) (snd m) \<and> no_doubles (snd m)"
  proof
    fix m
    assume m: "m \<in> set ms"
    have "snd m \<in> Basic_BNFs.snds m" by (cases m) (simp add: prod_set_simps)
    from JsonObject.IH [OF m this, of "depth + 1" f] m JsonObject.prems hv h f
    show "reads str (parse_json f strategy str (depth + 1)) (snd m) \<and> no_doubles (snd m)" by fastforce
  qed
  show ?case unfolding reads_def
  proof (intro allI impI)
    fix p sp r
    assume a: "at str p (sp @ dump (JsonObject ms)) r" and g: "gap sp" and p: "\<not> failed p" "\<not> erange p"
    define q where "q = advance (length sp + 1) p"
    have t: "get_next_token strategy str p = (CHR ''{'', q)" and b: "at str q (dump_members True ms @ ''}'') r"
      using token_gap [of str p sp "CHR ''{''" "dump_members True ms @ ''}''" r strategy] a g
      by (simp_all add: q_def plain_def is_json_space_def)
    have fin: "advance (length sp + length (dump (JsonObject ms))) p = advance (length (dump_members True ms) + 1) q"
      by (simp add: q_def)
    show "parse_json fuel strategy str depth p = Some (as_parsed (JsonObject ms),
        advance (length sp + length (dump (JsonObject ms))) p)"
    proof (cases "ms = []")
      case True
      with b have "get_next_token strategy str q = (CHR ''}'', advance 1 q)"
        using token_plain [of str q "CHR ''}''" "[]" r] by (simp add: plain_def is_json_space_def)
      with t True p JsonObject.prems(3) show ?thesis unfolding fin
        by (simp add: f value_head_def is_digit_def byte_def Let_def q_def)
    next
      case False
      then obtain k v ws where vs: "ms = (k, v) # ws" by (cases ms) auto
      from b have "at str q (QUOTE # (dump_chars k @ QUOTE # '': '' @ dump v @ dump_members False ws @ ''}'')) r"
        by (simp add: vs dump_string_def)
      from token_plain [OF this, of strategy] have t2: "get_next_token strategy str q = (QUOTE, advance 1 q)"
        by (simp add: plain_def is_json_space_def)
      have "length ms \<le> length (dump_members True ms @ ''}'')" using members_length [of ms True] by simp
      with at_length [OF b] have "length ms \<le> loop_fuel str" by (simp add: loop_fuel_def)
      from parse_members_dump [OF b False _ _ el this, of "[]" strategy] p JsonObject.prems(1)
      show ?thesis unfolding fin using t t2 JsonObject.prems(3) p
        by (simp add: f value_head_def is_digit_def byte_def Let_def q_def)
    qed
  qed
qed (auto intro: parse_json_scalar)

section \<open>The round trip\<close>

lemma garbage_at_end:
  assumes "pos p = length str"
  shows "consume_garbage strategy str p = p"
proof -
  have c: "char_at str (pos p) = NULC" using assms by (simp add: char_at_def)
  then have "consume_whitespace str p = p" "consume_comment str p = (False, p)"
    by (simp_all add: consume_whitespace_def skip_space.simps is_json_space_def consume_comment_def)
  then show ?thesis by (simp add: consume_garbage_def comment_loop.simps [of str p] Let_def)
qed

lemma parse_dump_eq:
  assumes "json_wf j" and "no_doubles j" and "json_height j \<le> max_depth"
  shows "parse strategy (dump j) err0 False =
    Some (as_parsed j, \<lparr>pos = length (dump j), err = err0, failed = False, erange = False\<rparr>)"
proof -
  let ?s = "\<lparr>pos = 0, err = err0, failed = False, erange = False\<rparr>"
  have "reads (dump j) (parse_json parse_fuel strategy (dump j) 0) j"
    by (rule parse_json_dump) (use assms in \<open>simp_all add: parse_fuel_def\<close>)
  moreover have "at (dump j) ?s ([] @ dump j) []" by (simp add: at_def)
  ultimately have "parse_json parse_fuel strategy (dump j) 0 ?s = Some (as_parsed j, advance (length (dump j)) ?s)"
    using readsD [of "dump j" _ j ?s "[]" "[]"] by (simp add: gap_def closes_def)
  then show ?thesis by (simp add: parse_def garbage_at_end advance_def Let_def)
qed

lemma dump_items_same: "\<forall>v \<in> set vs. dump (as_parsed v) = dump v \<Longrightarrow> dump_items b (map as_parsed vs) = dump_items b vs"
  by (induction vs arbitrary: b) auto

lemma dump_members_same:
  "\<forall>m \<in> set ms. dump (as_parsed (snd m)) = dump (snd m) \<Longrightarrow>
   dump_members b (map (\<lambda>m. (fst m, as_parsed (snd m))) ms) = dump_members b ms"
  by (induction ms arbitrary: b) auto

lemma dump_as_parsed: "dump (as_parsed j) = dump j"
proof (induction j)
  case (JsonObject ms)
  have "dump (as_parsed (snd m)) = dump (snd m)" if "m \<in> set ms" for m
    using JsonObject.IH [OF that, of "snd m"] by (cases m) (simp add: prod_set_simps)
  then show ?case by (simp add: dump_members_same)
qed (auto simp: dump_items_same nonneg_sint)

section \<open>A range error left in \<open>errno\<close>\<close>

text \<open>Without a fraction or an exponent, the decimal branch reads the number as a \<open>double\<close>.\<close>

lemma parse_decimal_plain:
  assumes "char_at str (pos p) \<notin> set ''.eE''"
  shows "parse_decimal str i p = (case strtod (c_str (drop i str)) of (d, rg) \<Rightarrow>
    (JsonDouble d, p\<lparr>erange := erange p \<or> rg\<rparr>))"
  using assms by (auto simp: parse_decimal_def frac_end_def is_exp_def Let_def split: prod.split)

lemma strtod_show_nat: "\<exists>rg. strtod (show_nat n) = (dbl_round False n 1, rg)"
proof -
  obtain c ds where n: "show_nat n = c # ds" and c: "is_digit c" "\<forall>d \<in> set ds. is_digit d"
    using show_nat_shape by blast
  have t: "takeWhile is_digit (show_nat n) = show_nat n" "dropWhile is_digit (show_nat n) = []"
    using show_nat_digits [of _ n] by (simp_all add: takeWhile_eq_all_conv dropWhile_eq_Nil_conv)
  have "c \<noteq> CHR ''-''" using digit_not_space [OF c(1)] by simp
  then have "strtod_parts (show_nat n) = (False, n, 0)"
    using t n by (simp add: strtod_parts_def Let_def) (metis append_Nil2 digits_value_show_nat n)
  then show ?thesis by (simp add: strtod_def scale_ratio_def Let_def)
qed

text \<open>When \<open>errno\<close> is \<open>ERANGE\<close> on entry, left by any earlier call of the thread, every integer is
  read through \<open>strtod\<close>.\<close>

lemma stale_errno_reads_doubles:
  assumes "n < 2 ^ 64"
  shows "\<exists>p. parse strategy (show_nat n) err0 True = Some (JsonDouble (dbl_round False n 1), p) \<and> \<not> failed p"
proof -
  let ?str = "show_nat n" and ?s = "\<lparr>pos = 0, err = err0, failed = False, erange = True\<rparr>"
  obtain c ds where n: "show_nat n = c # ds" and c: "is_digit c" using show_nat_shape by blast
  have a: "at ?str ?s ([] @ show_nat n) []" by (simp add: at_def)
  then have "at ?str ?s (c # ds) []" by (simp add: n)
  from token_plain [OF this digit_plain [OF c], of strategy]
  have tok: "get_next_token strategy ?str ?s = (c, advance 1 ?s)" by simp
  have nn: "c_str ?str = ?str" using show_nat_no_nul by (intro c_str_id) blast
  obtain rg where d: "strtod ?str = (dbl_round False n 1, rg)" using strtod_show_nat by blast
  define q where "q = advance (length ?str) ?s"
  have "fst (convert_int ?str 0 q) = None \<and> snd (convert_int ?str 0 q) = q"
    by (auto simp: convert_int_def q_def advance_def Let_def split: prod.splits)
  then have conv: "convert_int ?str 0 q = (None, q)" by (simp add: prod_eq_iff)
  have "char_at ?str (pos q) = NULC" by (simp add: q_def char_at_def)
  then have "parse_decimal ?str 0 q = (JsonDouble (dbl_round False n 1), q)"
    by (subst parse_decimal_plain) (simp_all add: nn d, simp add: q_def advance_def)
  moreover have "length ([] @ ?str) \<le> 20" using length_show_nat [of n 20] assms by simp
  ultimately have "parse_number ?str ?s = (JsonDouble (dbl_round False n 1), q)"
    using parse_number_convert [OF a _ _ \<open>length ([] @ ?str) \<le> 20\<close>] conv by (simp add: closes_def q_def)
  moreover have "advance 1 ?s\<lparr>pos := pos (advance 1 ?s) - 1\<rparr> = ?s" by simp
  ultimately have "parse_json parse_fuel strategy ?str 0 ?s = Some (JsonDouble (dbl_round False n 1), q)"
    using tok c by (simp add: parse_fuel_def value_head_def Let_def)
  moreover have "consume_garbage strategy ?str q = q" by (rule garbage_at_end) (simp add: q_def)
  ultimately show ?thesis by (simp add: parse_def) (simp add: q_def)
qed

text \<open>An identifier of 54 bits is changed by that.\<close>

lemma stale_errno_changes_integers:
  "\<exists>j p. parse STANDARD (show_nat 9007199254740993) [] True = Some (j, p) \<and> \<not> failed p \<and>
     uint64_value j = Some 9007199254740992"
proof -
  have "dbl_round False 9007199254740993 1 = DFin False 4503599627370496 1"
    by (simp add: dbl_round_def floor_log2_def scale_ratio_def ilog2.simps round_half_even_def Let_def)
  moreover have "dbl_to_u64 (DFin False 4503599627370496 1) = Some 9007199254740992"
    by (simp add: dbl_to_u64_def)
  ultimately show ?thesis using stale_errno_reads_doubles [of 9007199254740993 STANDARD "[]"] by auto
qed

section \<open>Unterminated strings\<close>

text \<open>A string without its closing quote is reported in \<open>err\<close>, but the result is the empty string
  rather than null.\<close>

lemma string_loop_open:
  assumes "drop (pos p) str = s" and "\<forall>c \<in> set s. 0x1f < byte c \<and> c \<noteq> QUOTE \<and> c \<noteq> BSLASH" and "pos p \<le> length str"
  shows "parse_string_loop str out cp p = ([], fail ''unexpected end of input in string'' (p\<lparr>pos := length str\<rparr>))"
  using assms
proof (induction s arbitrary: p out cp)
  case Nil
  then have "pos p = length str" by simp
  then show ?case by (subst parse_string_loop.simps) (simp add: string_step_def, cases p, simp)
next
  case (Cons c s)
  then have a: "at str p (c # s) []" by (simp add: at_def)
  from at_Cons [OF a] have "at str (advance 1 p) s []" "pos p < length str" by auto
  then have "parse_string_loop str out' cp' (advance 1 p) =
      ([], fail ''unexpected end of input in string'' (advance 1 p\<lparr>pos := length str\<rparr>))" for out' cp'
    by (intro Cons.IH) (use Cons.prems in \<open>auto simp: at_def\<close>)
  then show ?case using Cons.prems(2)
    by (subst parse_string_loop.simps) (simp add: string_plain [OF a])
qed

lemma unterminated_string_is_empty_string:
  assumes "\<forall>c \<in> set s. 0x1f < byte c \<and> c \<noteq> QUOTE \<and> c \<noteq> BSLASH"
  shows "\<exists>p. parse strategy (QUOTE # s) [] errno0 = Some (JsonString [], p) \<and> err p \<noteq> []"
proof -
  let ?str = "QUOTE # s" and ?s = "\<lparr>pos = 0, err = [], failed = False, erange = errno0\<rparr>"
  have a: "at ?str ?s (QUOTE # s) []" by (simp add: at_def)
  from token_plain [OF a, of strategy] have tok: "get_next_token strategy ?str ?s = (QUOTE, advance 1 ?s)"
    by (simp add: plain_def is_json_space_def)
  define q where "q = fail ''unexpected end of input in string'' (advance 1 ?s\<lparr>pos := length ?str\<rparr>)"
  have "parse_string ?str (advance 1 ?s) = ([], q)" unfolding parse_string_def q_def
    by (rule string_loop_open [where s = s]) (use assms in auto)
  then have "parse_json parse_fuel strategy ?str 0 ?s = Some (JsonString [], q)"
    using tok by (simp add: parse_fuel_def value_head_def is_digit_def byte_def Let_def)
  moreover have "consume_garbage strategy ?str q = q" by (rule garbage_at_end) (simp add: q_def)
  ultimately show ?thesis by (simp add: parse_def) (simp add: q_def fail_def)
qed

end
