(* ===== verification/Scenarios.thy ===== *)
theory Scenarios
  imports Settings Json_Roundtrip
begin

text \<open>Concrete histories of the server, from its start.\<close>

definition env_at :: "int \<Rightarrow> string list env" where
  "env_at t = (example_env [])\<lparr>now := t\<rparr>"

lemma now_env_at [simp]: "now (env_at t) = t" "stale_errno (env_at t) = False"
  by (simp_all add: env_at_def)

definition no_delay_ok :: "unit sock_option" where
  "no_delay_ok = \<lparr> set_option = \<lambda>_ _. Inr (), get_option = \<lambda>_. Inr True \<rparr>"

text \<open>A history: events with the environments they happen in.\<close>

fun history :: "('s env \<times> event) list \<Rightarrow> system \<Rightarrow> system result" where
  "history [] S = Inr S"
| "history ((env, e) # es) S =
     rbind (require (enabled S e) AssertFailed) (\<lambda>_. rbind (handle env e S) (history es))"

lemma history_reachable:
  "history (es :: ('s env \<times> event) list) S = Inr S' \<Longrightarrow> reachable (UNIV :: 's env set) S \<Longrightarrow>
    reachable (UNIV :: 's env set) S'"
proof (induction es arbitrary: S)
  case (Cons e es)
  obtain env ev where e: "e = (env, ev)" by (cases e)
  with Cons.prems obtain S1 where "enabled S ev" "handle env ev S = Inr S1" "history es S1 = Inr S'"
    by (auto simp: rbind_Inr_iff)
  moreover from this have "reachable (UNIV :: 's env set) S1"
    by (intro reachable.more [OF Cons.prems(2) UNIV_I] step.intros)
  ultimately show ?case using Cons.IH by blast
qed simp

lemma history_append: "history (xs @ ys) S = rbind (history xs S) (history ys)"
proof (induction xs arbitrary: S)
  case (Cons x xs)
  then have "history (xs @ ys) = (\<lambda>S. rbind (history xs S) (history ys))" by blast
  then show ?case by (cases x) (simp add: rbind_assoc)
qed simp

text \<open>The server with one client connected, at address 0.\<close>

definition one_client :: "int \<Rightarrow> front_conn" where
  "one_client t = (fresh_front_conn 7 t)\<lparr>stats := conn_working\<rparr>"

definition with_client :: "nat list list \<Rightarrow> system" where
  "with_client wheel =
     (initial (Some 4096) 0)\<lparr>srv := (configured (Some 4096) 0)\<lparr>front_conns := [(0, 0)], current_conns_cnt := 1,
        timing_wheel := wheel, objects := (\<lambda>_. fresh_front_conn 0 0)(0 := one_client 0),
        handlers := (\<lambda>_. 0)(0 := 1), next_object := 1\<rparr>\<rparr>"

lemma server_eq: "configured (Some 4096) 0 =
  \<lparr> max_serve_conns_cnt = 100, current_conns_cnt = 0, front_conns = [], pending_to_remove = [],
    conn_expired_time = 20, timing_wheel = [[], [], [], [], [], [], [], [], [], []], cached_conns = [],
    objects = (\<lambda>_. fresh_front_conn 0 0), handlers = (\<lambda>_. 0), next_object = 0 \<rparr>"
proof -
  have "replicate wheel_capacity x = [x, x, x, x, x, x, x, x, x, x]" for x :: "nat list"
    unfolding wheel_capacity_def by (simp add: numeral_eq_Suc)
  then show ?thesis by (simp add: configured_eq new_server_def)
qed

lemma connect:
  "history [(env_at 0, Accept False True no_delay_ok 7), (env_at 0, Start)] (initial (Some 4096) 0) =
     Inr (with_client [[], [], [], [], [], [], [], [], [], [0]])"
  by (simp add: initial_def server_eq accept_conn_def new_front_conn_def set_tcp_nodelay_def no_delay_ok_def
      wheel_back_insert_def run_on_def front_start_def do_read_head_def post_def
      fresh_front_conn_def new_connection_def connection.extend_def touch_sock_time_def settle_def is_async_def
      with_client_def one_client_def fun_eq_iff Let_def require_def)

text \<open>A turn over an empty bucket rotates the wheel.\<close>

lemma turn_empty:
  assumes "timing_wheel (srv S) = [] # w" and "length w = 9" and "conn_expired_time (srv S) = 20"
  shows "handle env WheelTurn S = Inr (S\<lparr>srv := (srv S)\<lparr>timing_wheel := w @ [[]]\<rparr>\<rparr>)"
  using assms
  by (simp add: timing_wheel_check_def get_conn_check_spare_def wheel_capacity_def wheel_push_def require_def)

lemma with_client_simps [simp]:
  "timing_wheel (srv (with_client w)) = w" "conn_expired_time (srv (with_client w)) = 20"
  "srv (with_client w)\<lparr>timing_wheel := w'\<rparr> = srv (with_client w')"
  "with_client w\<lparr>srv := srv (with_client w')\<rparr> = with_client w'"
  "handlers (srv (with_client w)) 0 = 1" "front_conns (srv (with_client w)) = [(0, 0)]"
  "pending_to_remove (srv (with_client w)) = []" "cached_conns (srv (with_client w)) = []"
  "objects (srv (with_client w)) 0 = one_client 0"
  by (simp_all add: with_client_def server_eq initial_def)

lemma one_client_simps [simp]:
  "stats (one_client t) = conn_working" "touch_time (one_client t) = t" "p_sock (one_client t) = Some 7"
  by (simp_all add: one_client_def fresh_front_conn_def new_connection_def connection.extend_def)

text \<open>Nine turns bring the client's bucket to the front.\<close>

lemma nine_turns:
  "history (replicate 9 (env_at t, WheelTurn)) (with_client [[], [], [], [], [], [], [], [], [], [0]]) =
     Inr (with_client [[0], [], [], [], [], [], [], [], [], []])"
proof -
  have "replicate 9 x = [x, x, x, x, x, x, x, x, x]" for x :: "string list env \<times> event"
    by (simp add: numeral_eq_Suc)
  then show ?thesis by (simp add: turn_empty require_def del: handle.simps)
qed

definition expired_client :: system where
  "expired_client =
     (let S = with_client [[], [], [], [], [], [], [], [], [], []]
      in S\<lparr>srv := (srv S)\<lparr>pending_to_remove := [0],
             objects := (\<lambda>_. fresh_front_conn 0 0)(0 := (one_client 0)\<lparr>stats := conn_error\<rparr>)\<rparr>\<rparr>)"

text \<open>At the tenth it is idle for 30 seconds, and expires.\<close>

lemma tenth_turn:
  "handle (env_at 30) WheelTurn (with_client [[0], [], [], [], [], [], [], [], [], []]) = Inr expired_client"
  by (simp add: timing_wheel_check_def get_conn_check_spare_def wheel_capacity_def wheel_push_def require_def
      wheel_check_item_def use_count_def push_to_remove_def expired_client_def Let_def)
    (simp add: with_client_def server_eq)

text \<open>The manage thread recycles it, with a read still outstanding.\<close>

definition recycled_client :: "nat list list \<Rightarrow> nat \<Rightarrow> system" where
  "recycled_client wheel h =
     (let S = with_client wheel
      in S\<lparr>srv := (srv S)\<lparr>front_conns := [], current_conns_cnt := 0, cached_conns := [0],
             objects := (\<lambda>_. fresh_front_conn 0 0)
               (0 := (one_client 0)\<lparr>stats := conn_pending, p_sock := None, strand := False\<rparr>),
             handlers := (\<lambda>_. 0)(0 := h)\<rparr>\<rparr>)"

lemma wash_client:
  "conn_wash_white ((one_client 0)\<lparr>stats := conn_error\<rparr>) =
     Inr ((one_client 0)\<lparr>stats := conn_pending, p_sock := None, strand := False\<rparr>)"
proof -
  have r: "vec_resize (16 * 1024) (replicate buffer_size NULC) = Inr (replicate buffer_size NULC)"
    by (simp add: vec_resize_def buffer_size_def)
  show ?thesis using r
    by (simp add: conn_wash_white_def one_client_def fresh_front_conn_def new_connection_def
      connection.extend_def require_def)
qed

lemma removal:
  "handle (env_at 30) Managed expired_client = Inr (recycled_client [[], [], [], [], [], [], [], [], [], [0]] 1)"
proof -
  have m: "max_serve_conns_cnt (srv (with_client w)) = 100" for w by (simp add: with_client_def server_eq)
  have "cache_limit s = Inr 30" if "max_serve_conns_cnt s = 100" for s using that by (rule cache_limit_100)
  then show ?thesis
    by (simp add: expired_client_def manage_notified_def Let_def manage_item_def use_count_def recycle_def m
        wash_client wheel_back_insert_def require_def map_erase_def)
      (simp add: with_client_def server_eq recycled_client_def Let_def fun_eq_iff)
qed

lemma reach_start: "reachable (UNIV :: string list env set) (initial rlimit garbage)"
  by (rule reachable.init)

lemma reach_step:
  "reachable (UNIV :: string list env set) S \<Longrightarrow> enabled S e \<Longrightarrow> handle (env :: string list env) e S = Inr S' \<Longrightarrow>
    reachable (UNIV :: string list env set) S'"
  by (rule reachable.more [OF _ UNIV_I step.intros])

lemma reach_connected: "reachable (UNIV :: string list env set) (with_client [[], [], [], [], [], [], [], [], [], [0]])"
  by (rule history_reachable [OF connect reach_start])

lemma reach_nine: "reachable (UNIV :: string list env set) (with_client [[0], [], [], [], [], [], [], [], [], []])"
  by (rule history_reachable [OF nine_turns reach_connected])

lemma reach_expired: "reachable (UNIV :: string list env set) expired_client"
  by (rule reach_step [OF reach_nine _ tenth_turn]) simp

lemma reach_recycled:
  "reachable (UNIV :: string list env set) (recycled_client [[], [], [], [], [], [], [], [], [], [0]] 1)"
  by (rule reach_step [OF reach_expired _ removal]) simp

text \<open>Another history: the client hangs up, and is removed with nothing outstanding.\<close>

definition failed_client :: "nat list list \<Rightarrow> system" where
  "failed_client wheel =
     (let S = with_client wheel
      in S\<lparr>srv := (srv S)\<lparr>pending_to_remove := [0], handlers := (\<lambda>_. 0),
             objects := (\<lambda>_. fresh_front_conn 0 0)(0 := (one_client 0)\<lparr>stats := conn_error\<rparr>)\<rparr>\<rparr>)"

lemma hang_up:
  "handle (env_at 0) (HeadRead 0 OtherError 0 []) (with_client w) = Inr (failed_client w)"
proof -
  have c: "receive_head [] (one_client 0) = one_client 0" by (simp add: receive_head_def)
  have e: "(one_client 0)\<lparr>r_size := 0, w_size := 0, stats := conn_error\<rparr> = (one_client 0)\<lparr>stats := conn_error\<rparr>"
    by (simp add: one_client_def fresh_front_conn_def new_connection_def connection.extend_def)
  show ?thesis
    by (simp add: front_event_def complete_def run_on_def read_head_handler_def front_conn_error_def
        followed_by_def on_sock_def notify_conn_error_def c e settle_def is_async_def push_to_remove_def
        failed_client_def Let_def)
      (simp add: with_client_def server_eq fun_eq_iff)
qed

lemma removal_after_hang_up:
  "handle (env_at 0) Managed (failed_client w) = Inr (recycled_client w 0)"
proof -
  have m: "max_serve_conns_cnt (srv (with_client w)) = 100" for w by (simp add: with_client_def server_eq)
  have "cache_limit s = Inr 30" if "max_serve_conns_cnt s = 100" for s using that by (rule cache_limit_100)
  then show ?thesis
    by (simp add: failed_client_def manage_notified_def Let_def manage_item_def use_count_def recycle_def m
        wash_client require_def map_erase_def)
      (simp add: with_client_def server_eq recycled_client_def Let_def fun_eq_iff)
qed

lemma recycled_simps [simp]:
  "timing_wheel (srv (recycled_client w h)) = w" "conn_expired_time (srv (recycled_client w h)) = 20"
  "srv (recycled_client w h)\<lparr>timing_wheel := w'\<rparr> = srv (recycled_client w' h)"
  "recycled_client w h\<lparr>srv := srv (recycled_client w' h)\<rparr> = recycled_client w' h"
  "handlers (srv (recycled_client w h)) 0 = h" "cached_conns (srv (recycled_client w h)) = [0]"
  "starting (recycled_client w h) = None"
  by (simp_all add: recycled_client_def with_client_def server_eq initial_def Let_def)

lemma nine_more_turns:
  "history (replicate 9 (env_at t, WheelTurn)) (recycled_client [[], [], [], [], [], [], [], [], [], [0]] h) =
     Inr (recycled_client [[0], [], [], [], [], [], [], [], [], []] h)"
proof -
  have "replicate 9 x = [x, x, x, x, x, x, x, x, x]" for x :: "string list env \<times> event"
    by (simp add: numeral_eq_Suc)
  then show ?thesis by (simp add: turn_empty require_def del: handle.simps)
qed

lemma accept_again:
  "\<exists>S. handle (env_at 18) (Accept False True no_delay_ok 9) (recycled_client [[0], [], [], [], [], [], [], [], [], []] 0) = Inr S \<and>
    starting S = Some 0 \<and> hd (timing_wheel (srv S)) = [0]"
  by (simp add: accept_conn_def use_count_def require_def wheel_back_insert_def Let_def)
    (simp add: recycled_client_def with_client_def server_eq initial_def Let_def)

lemma expired_simps [simp]:
  "pending_to_remove (srv expired_client) = [0]" "front_conns (srv expired_client) = [(0, 0)]"
  "cached_conns (srv expired_client) = []" "handlers (srv expired_client) 0 = 1"
  "starting (with_client w) = None"
  by (simp_all add: expired_client_def Let_def)
    (simp_all add: with_client_def server_eq initial_def)

text \<open>A backend connects and answers for session 5.\<close>

definition backend_message :: json where
  "backend_message = JsonObject [(''session_id'', JsonUInt64 5), (''site_id'', JsonUInt64 7)]"

lemma backend_message_parsed: "parse_message False (dump backend_message) = (backend_message, [])"
proof -
  have "json_wf backend_message" "no_doubles backend_message" "json_height backend_message \<le> max_depth"
    by (simp_all add: backend_message_def max_depth_def)
  from parse_dump_eq [OF this, of STANDARD "[]"] show ?thesis
    by (simp add: parse_message_def) (simp add: backend_message_def)
qed

lemma backend_message_ids:
  "id_field backend_message ''session_id'' = Inr 5" "id_field backend_message ''site_id'' = Inr 7"
  by (simp_all add: backend_message_def id_field_def)

lemma dump_chars_plain:
  "\<forall>c \<in> set s. 0x1f < byte c \<and> byte c < 128 \<and> c \<noteq> QUOTE \<and> c \<noteq> BSLASH \<Longrightarrow> dump_chars s = s"
proof (induction s)
  case (Cons c s)
  then have "dump_chars s = s" by simp
  moreover have c: "0x1f < byte c" "byte c < 128" "c \<noteq> QUOTE" "c \<noteq> BSLASH" using Cons.prems by simp_all
  moreover from c(1) have "c \<noteq> CHR 0x08" "c \<noteq> CHR 0x0C" "c \<noteq> LF" "c \<noteq> CR" "c \<noteq> TAB" by (auto simp: byte_def)
  ultimately show ?case by (simp add: dump_chars.simps(2) [of c s])
qed simp

lemma backend_message_text: "dump backend_message = ''{\"session_id\": 5, \"site_id\": 7}''"
proof -
  have "dump_chars ''session_id'' = ''session_id''" "dump_chars ''site_id'' = ''site_id''"
    by (rule dump_chars_plain, simp add: byte_def)+
  moreover have "digit_char 5 = CHR ''5''" "digit_char 7 = CHR ''7''" by code_simp+
  then have "show_nat 5 = ''5''" "show_nat 7 = ''7''" by (simp_all add: show_nat.simps [of 5] show_nat.simps [of 7])
  ultimately show ?thesis by (simp add: backend_message_def dump_string_def show_int_def)
qed

lemma backend_says:
  "\<exists>c. receive_some (dump backend_message) ((new_connection 8 0)\<lparr>stats := conn_working\<rparr>) = Inr c \<and>
     c_str (p_buffer c) = dump backend_message \<and> NULC \<in> set (p_buffer c) \<and> stats c = conn_working \<and> p_sock c = Some 8"
proof -
  have n: "NULC \<notin> set (dump backend_message)" and l: "length (dump backend_message) = 31"
    by (simp_all add: backend_message_text)
  have "drop 31 (replicate buffer_size NULC) = NULC # replicate (buffer_size - 32) NULC"
    by (simp add: buffer_size_def flip: replicate_Suc)
  then show ?thesis using n l
    by (simp add: receive_some_def vec_write_def new_connection_def buffer_size_def)
qed

theorem backend_message_read_witness:
  "\<exists>c'. receive_some (dump backend_message @ [NULC]) ((new_connection 8 0)\<lparr>stats := conn_working\<rparr>) = Inr c' \<and>
    backend_read_handler 9 False NoError 32 c' =
      Inr (touch_sock_time 9 c', [PushFront 5 (p_buffer c') 32, AsyncReadSome buffer_size])"
proof -
  let ?c = "(new_connection 8 0)\<lparr>stats := conn_working\<rparr>" and ?m = "dump backend_message"
  have n: "NULC \<notin> set ?m" and l: "length ?m = 31" by (simp_all add: backend_message_text)
  have f: "fst (parse_message False ?m) = backend_message" by (simp add: backend_message_parsed)
  have b: "length (p_buffer ?c) = buffer_size" "stats ?c = conn_working" "p_sock ?c = Some 8"
    by (simp_all add: new_connection_def)
  have s: "length (?m @ [NULC]) \<le> length (p_buffer ?c)" using l b by (simp add: buffer_size_def)
  have t: "?m = (if [NULC] = [] then ?m @ c_str (drop (length ?m) (p_buffer ?c)) else ?m)" by simp
  from backend_message_read [OF b(2,3) n _ _ s _ t, of False 5 7 9] show ?thesis
    by (simp add: f backend_message_ids l b(1) [simplified]) blast
qed

definition with_backend :: "nat list list \<Rightarrow> system" where
  "with_backend w = (with_client w)\<lparr>backends := [(new_connection 8 0)\<lparr>stats := conn_working\<rparr>]\<rparr>"
lemma accept_backend:
  "handle (env_at 0) (BackendAccept False True 8) (with_client w) = Inr (with_backend w)"
  by (simp add: backend_accept_handler_def start_def do_read_def on_sock_def touch_sock_time_def with_backend_def
     new_connection_def with_client_def initial_def)

text \<open>The message is read and passed on, and no connection has the session.\<close>

lemma backend_answers:
  "\<exists>S'. handle (env_at 0) (BackendRead 0 NoError (dump backend_message)) (with_backend w) = Inr S'"
proof -
  obtain c where c: "receive_some (dump backend_message) ((new_connection 8 0)\<lparr>stats := conn_working\<rparr>) = Inr c"
    "c_str (p_buffer c) = dump backend_message" "NULC \<in> set (p_buffer c)" "stats c = conn_working" "p_sock c = Some 8"
    using backend_says by blast
  have l: "length (dump backend_message) = 31" by (simp add: backend_message_text)
  have b: "backends (with_backend w) ! 0 = (new_connection 8 0)\<lparr>stats := conn_working\<rparr>"
    and s: "srv (with_backend w) = srv (with_client w)" by (simp_all add: with_backend_def)
  obtain c' acts where d: "do_read 0 c = Inr (c', acts)" using c(4,5) by (auto simp: do_read_def on_sock_def keeps)
  have "backend_read_handler 0 False NoError 31 c = Inr (c', PushFront 5 (p_buffer c) 32 # acts)"
    using c(2,3) l d by (simp add: backend_read_handler_def backend_message_parsed backend_message_ids Let_def)
  moreover have "acts = [AsyncReadSome (length (p_buffer c))]"
    using d c(4,5) by (auto simp: do_read_def on_sock_def keeps)
  moreover have "push_front (env_at 0) 5 (Some (p_buffer c)) 32 (srv (with_client w)) = Inr (srv (with_client w), [])"
    by (simp add: push_front_def request_connection_def)
  ultimately show ?thesis using c(1) l by (simp add: b s)
qed

lemma reach_backend:
  "reachable (UNIV :: string list env set) (with_backend [[], [], [], [], [], [], [], [], [], [0]])"
  by (rule reach_step [OF reach_connected _ accept_backend]) simp

end
