(* ===== verification/System_Facts.thy ===== *)
theory System_Facts
  imports Scenarios
begin

text \<open>
  What holds in every state the server can reach, and the refinement of the registry: each step
  is one of a few operations on three sets.
\<close>

section \<open>The registry, the queue and the cache\<close>

lemmas reachable_inv = registry.always

lemma server_reachable: "reachable envs S \<Longrightarrow> server_inv (set (pending_to_remove (srv S))) (srv S)"
  using registry.always by (auto simp: sys_inv_def)

lemma registry_bounds:
  assumes "server_inv Q s" and l: "cache_limit s = Inr limit" "10 * unat limit \<le> 3 * unat (max_serve_conns_cnt s)"
  shows "length (front_conns s) \<le> unat (max_serve_conns_cnt s) \<and>
    unat (current_conns_cnt s) = length (front_conns s) \<and>
    distinct (map fst (front_conns s)) \<and> distinct (cached_conns s) \<and>
    fst ` set (front_conns s) \<inter> set (cached_conns s) = {} \<and>
    10 * length (cached_conns s) \<le> 3 * unat (max_serve_conns_cnt s)"
proof -
  from assms(1) have c: "counts_ok s" and k: "cache_ok s" by (simp_all add: server_inv_def)
  have "unat (max_serve_conns_cnt s) < 2 ^ 64"
    using unsigned_less [of "max_serve_conns_cnt s", where 'a = nat] by simp
  with c have "unat (current_conns_cnt s) = length (front_conns s)"
    by (simp add: counts_ok_def unat_of_nat)
  moreover have "length (cached_conns s) \<le> unat limit" using k l(1) by (simp add: cache_ok_def)
  ultimately show ?thesis using c k l(2)
    by (auto simp: counts_ok_def cache_ok_def registered_def distinct_sorted_keys)
qed

text \<open>However its threads are interleaved and whatever completes with whatever result, the
  server never has more connections than the configured maximum, its counter is the number of
  registered connections, no connection is registered or cached twice or both at once, and the
  cache stays within 30 percent of the maximum.\<close>

theorem registry_within_bounds:
  assumes "reachable envs S"
  shows "length (front_conns (srv S)) \<le> unat (max_serve_conns_cnt (srv S)) \<and>
    unat (current_conns_cnt (srv S)) = length (front_conns (srv S)) \<and>
    distinct (map fst (front_conns (srv S))) \<and> distinct (cached_conns (srv S)) \<and>
    fst ` set (front_conns (srv S)) \<inter> set (cached_conns (srv S)) = {} \<and>
    10 * length (cached_conns (srv S)) \<le> 3 * unat (max_serve_conns_cnt (srv S))"
  using registry_bounds [OF server_reachable [OF assms]] cache_limit_reachable [OF assms] by blast

theorem registry_within_bounds_witness:
  "\<exists>S. reachable (UNIV :: string list env set) S \<and> front_conns (srv S) = [(0, 0)] \<and>
    unat (current_conns_cnt (srv S)) = 1"
  using registry_within_bounds [OF reach_connected] reach_connected
  by (intro exI [of _ "with_client [[], [], [], [], [], [], [], [], [], [0]]"]) simp

text \<open>No registered connection escapes supervision: in every reachable state each one is in a
  bucket of the timing wheel or queued for removal, and the wheel has its ten buckets.\<close>

theorem registered_are_watched:
  assumes "reachable envs S" and "p \<in> fst ` set (front_conns (srv S))"
  shows "length (timing_wheel (srv S)) = 10 \<and>
    ((\<exists>b \<in> set (timing_wheel (srv S)). p \<in> set b) \<or> p \<in> set (pending_to_remove (srv S)))"
  using server_reachable [OF assms(1)] assms(2)
  by (auto simp: server_inv_def tracked_def registered_def wheel_members_def wheel_capacity_def)

theorem registered_are_watched_witness:
  "\<exists>S. reachable (UNIV :: string list env set) S \<and> length (timing_wheel (srv S)) = 10 \<and>
    (\<exists>b \<in> set (timing_wheel (srv S)). 0 \<in> set b)"
  using registered_are_watched [OF reach_connected, of 0] reach_connected
  by (intro exI [of _ "with_client [[], [], [], [], [], [], [], [], [], [0]]"]) simp

section \<open>Removal\<close>

text \<open>C7: A notification of the manage thread is always handled, its two assertions included: it
  takes exactly the queued connections out of the registry, empties the queue, and recycles, in
  order, as many of the registered ones as the cache has room for.\<close>

theorem removal_is_exact:
  assumes "reachable envs S"
  shows "\<exists>S' limit. handle env Managed S = Inr S' \<and> cache_limit (srv S) = Inr limit \<and>
    registered (srv S') = registered (srv S) - set (pending_to_remove (srv S)) \<and>
    pending_to_remove (srv S') = [] \<and>
    cached_conns (srv S') = cached_conns (srv S) @
      take (unat limit - length (cached_conns (srv S)))
        (filter (\<lambda>p. p \<in> registered (srv S)) (pending_to_remove (srv S)))"
proof -
  obtain limit where l: "cache_limit (srv S) = Inr limit" using cache_limit_reachable [OF assms] by blast
  from manage_notified_total [OF server_reachable [OF assms] l] obtain s where
    "manage_notified (srv S) = Inr s" "registered s = registered (srv S) - set (pending_to_remove (srv S))"
    "pending_to_remove s = []"
    "cached_conns s = cached_conns (srv S) @
      take (unat limit - length (cached_conns (srv S)))
        (filter (\<lambda>p. p \<in> registered (srv S)) (pending_to_remove (srv S)))"
    by blast
  with l show ?thesis by (intro exI [of _ "S\<lparr>srv := s\<rparr>"] exI [of _ limit]) simp
qed

theorem removal_is_exact_witness:
  "\<exists>S S'. reachable (UNIV :: string list env set) S \<and> pending_to_remove (srv S) = [0] \<and>
    handle (env_at 30) Managed S = Inr S' \<and> pending_to_remove (srv S') = [] \<and> cached_conns (srv S') = [0]"
proof -
  obtain S' where "handle (env_at 30) Managed expired_client = Inr S'" "pending_to_remove (srv S') = []"
    using removal_is_exact [OF reach_expired, of "env_at 30"] by blast
  moreover from this(1) have "cached_conns (srv S') = [0]" unfolding removal by auto
  ultimately show ?thesis using reach_expired expired_simps(1) by blast
qed

section \<open>Recycled connections\<close>

lemma cached_dormant: "reachable envs S \<Longrightarrow> p \<in> set (cached_conns (srv S)) \<Longrightarrow> dormant (objects (srv S) p)"
  using server_reachable by (auto simp: server_inv_def cache_ok_def)

text \<open>The operations of a connection that a completion runs.\<close>

fun completion :: "'s env \<Rightarrow> event \<Rightarrow> (nat \<times> (front_conn \<Rightarrow> front_conn outcome)) option" where
  "completion env (HeadRead p ec n bytes) = Some (p, \<lambda>c. read_head_handler env ec n (receive_head bytes c))"
| "completion env (BodyRead p ec n off bytes) =
     Some (p, \<lambda>c. rbind (receive_body off bytes c) (read_body_handler env ec n))"
| "completion env (Written p ec n) = Some (p, write_handler env ec n)"
| "completion env _ = None"

lemma handle_completion:
  "completion env e = Some (p, f) \<Longrightarrow> handle env e S = front_event env p f S \<and> conn_operation f"
  by (cases e) (auto intro: head_op.conn_operation_axioms body_op.conn_operation_axioms write_op.conn_operation_axioms)

text \<open>C25: A completion that arrives late, after its connection was recycled, never wakes it: if it
  is handled at all, the connection stays in the cache, pending and without a socket, posts no
  operation and is not queued for removal.\<close>

theorem late_completion_is_inert:
  assumes "reachable envs S" and "p \<in> set (cached_conns (srv S))" and "completion env e = Some (p, f)"
    and "step env S e S'"
  shows "cached_conns (srv S') = cached_conns (srv S) \<and> front_conns (srv S') = front_conns (srv S) \<and>
    pending_to_remove (srv S') = pending_to_remove (srv S) \<and>
    handlers (srv S') p = handlers (srv S) p - 1 \<and> dormant (objects (srv S') p)"
proof -
  define t where "t = (srv S)\<lparr>handlers := (handlers (srv S))(p := handlers (srv S) p - 1)\<rparr>"
  from assms(3,4) handle_completion [OF assms(3)] have "front_event env p f S = Inr S'" and op: "conn_operation f"
    by (auto elim: stepE)
  then obtain s acts where r: "run_on p f t = Inr (s, acts)" and S': "srv S' = s"
    by (auto simp: front_event_def complete_def rbind_Inr_iff t_def)
  have "dormant (objects t p)" using cached_dormant [OF assms(1,2)] by (simp add: t_def)
  from conn_operation.run_on_dormant [OF op this r]
  have "handlers s = handlers t" "pending_to_remove s = pending_to_remove t" "dormant (objects s p)" by auto
  moreover from r have "cached_conns s = cached_conns t" "front_conns s = front_conns t"
    by (auto simp: run_on_def rbind_Inr_iff keeps)
  ultimately show ?thesis by (simp add: S' t_def)
qed

theorem late_completion_is_inert_witness:
  "\<exists>S S'. reachable (UNIV :: string list env set) S \<and> cached_conns (srv S) = [0] \<and> handlers (srv S) 0 = 1 \<and>
    step (env_at 30) S (Written 0 OperationAborted 0) S' \<and> handlers (srv S') 0 = 0 \<and> dormant (objects (srv S') 0)"
proof -
  let ?S = "recycled_client [[], [], [], [], [], [], [], [], [], [0]] 1"
  obtain S' where "handle (env_at 30) (Written 0 OperationAborted 0) ?S = Inr S'"
    by (simp add: front_event_def complete_def run_on_def write_handler_def)
  then have st: "step (env_at 30) ?S (Written 0 OperationAborted 0) S'" by (intro step.intros) simp_all
  with late_completion_is_inert [OF reach_recycled _ _ st] reach_recycled show ?thesis
    by (intro exI [of _ ?S] exI [of _ S']) simp
qed

text \<open>C28: A completion with an error, which is what shutting down an idle connection causes, stops
  the server when it arrives after the connection was recycled: the handler calls through the
  socket pointer that recycling has reset.\<close>

theorem late_error_dereferences_null:
  assumes "reachable envs S" and "p \<in> set (cached_conns (srv S))"
    and "e \<in> {HeadRead p OtherError n bytes, Written p OtherError n}"
  shows "handle env e S = Inl NullPointer"
proof -
  have "p_sock (objects (srv S) p) = None" using cached_dormant [OF assms(1,2)] by (simp add: dormant_def)
  with assms(3) show ?thesis
    by (auto simp: front_event_def complete_def run_on_def read_head_handler_def write_handler_def
        front_conn_error_def followed_by_def on_sock_def receive_head_def)
qed

theorem late_error_dereferences_null_witness:
  "\<exists>S. reachable (UNIV :: string list env set) S \<and> enabled S (HeadRead 0 OtherError 0 []) \<and>
    handle (env_at 30) (HeadRead 0 OtherError 0 []) S = Inl NullPointer"
  using late_error_dereferences_null [OF reach_recycled, of 0 "HeadRead 0 OtherError 0 []" 0 "[]" "env_at 30"]
    reach_recycled
  by (intro exI [of _ "recycled_client [[], [], [], [], [], [], [], [], [], [0]] 1"]) simp

text \<open>C27: Recycling does not wait for outstanding operations although the comment beside it says
  that such a connection is skipped: when the first queued connection is registered, the cache
  is empty and an operation still holds the connection, the removal succeeds and the next client
  accepted makes the assertion on the use count fail.\<close>

theorem recycled_in_use_stops_accept:
  assumes "reachable envs S" and "pending_to_remove (srv S) = p # ps" and "p \<in> fst ` set (front_conns (srv S))"
    and "cached_conns (srv S) = []" and "0 < handlers (srv S) p"
  shows "\<exists>S'. handle env Managed S = Inr S' \<and>
    handle env (Accept False True no_delay sock) S' = Inl AssertFailed"
proof -
  obtain limit where l: "cache_limit (srv S) = Inr limit" "0 < unat limit"
    using cache_limit_reachable [OF assms(1)] by blast
  have inv: "server_inv (set (pending_to_remove (srv S))) (srv S)" by (rule server_reachable [OF assms(1)])
  from manage_notified_total [OF inv l(1)] obtain s where
    s: "manage_notified (srv S) = Inr s" "server_inv (set (pending_to_remove s)) s"
    "registered s = registered (srv S) - set (pending_to_remove (srv S))" "handlers s = handlers (srv S)"
    "cached_conns s = cached_conns (srv S) @ take (unat limit - length (cached_conns (srv S)))
        (filter (\<lambda>p. p \<in> registered (srv S)) (pending_to_remove (srv S)))"
    by blast
  have reg: "p \<in> registered (srv S)" using assms(3) by (simp add: registered_def)
  with s(5) l(2) assms(2,4) obtain qs where c: "cached_conns s = p # qs"
    by (cases "unat limit") auto
  have m: "max_serve_conns_cnt s = max_serve_conns_cnt (srv S)"
    using manage_notified_settings [OF s(1)] by (simp add: same_settings_def)
  have sub: "registered s \<subset> registered (srv S)" using s(3) reg assms(2) by auto
  have card: "card (registered t) = length (front_conns t)" if "counts_ok t" for t
    using that distinct_card [of "map fst (front_conns t)"]
    by (simp add: counts_ok_def registered_def distinct_sorted_keys)
  have c1: "counts_ok s" "counts_ok (srv S)" using s(2) inv by (simp_all add: server_inv_def)
  have "length (front_conns s) < length (front_conns (srv S))"
    using psubset_card_mono [OF _ sub] card c1 by (simp add: registered_def)
  then have "length (front_conns s) < unat (max_serve_conns_cnt s)" using c1(2) by (simp add: counts_ok_def m)
  moreover have "unat (max_serve_conns_cnt s) < 2 ^ 64"
    using unsigned_less [of "max_serve_conns_cnt s", where 'a = nat] by simp
  ultimately have "current_conns_cnt s < max_serve_conns_cnt s"
    using c1(1) by (simp add: counts_ok_def word_less_nat_alt unat_of_nat)
  moreover have "use_count (s\<lparr>cached_conns := qs\<rparr>) p \<noteq> 0" using assms(5) s(4) by (simp add: use_count_def)
  ultimately have "accept_conn env False True no_delay sock s = Inl AssertFailed"
    using c by (simp add: accept_conn_def require_def not_le)
  with s(1) show ?thesis by (intro exI [of _ "S\<lparr>srv := s\<rparr>"]) simp
qed

theorem recycled_in_use_stops_accept_witness:
  "\<exists>S S'. reachable (UNIV :: string list env set) S \<and> handle (env_at 30) Managed S = Inr S' \<and>
    handle (env_at 30) (Accept False True no_delay_ok 9) S' = Inl AssertFailed"
  using recycled_in_use_stops_accept [OF reach_expired expired_simps(1), of "env_at 30" no_delay_ok 9] reach_expired
  by auto

section \<open>The timing wheel\<close>

lemma expiry_interval: "settings_ok S \<Longrightarrow>
    sint (conn_expired_time (srv S) - conn_expired_time (srv S) div of_nat wheel_capacity) = 18"
  by (simp add: settings_ok_def wheel_capacity_def)

lemma check_item_only_expired:
  assumes "wheel_check_item t spare item (s, keep, flag, acts) = Inr (s', keep', flag', acts')"
    and "spare = conn_expired_time s div of_nat wheel_capacity"
  shows "set (pending_to_remove s') - set (pending_to_remove s) \<subseteq> {p. expired_at t s p} \<and>
    (\<forall>p. expired_at t s' p \<longrightarrow> expired_at t s p) \<and> conn_expired_time s' = conn_expired_time s"
  using assms by (auto simp: wheel_check_item_def rbind_Inr_iff Let_def push_to_remove_def expired_at_def
      split: if_splits)

lemma check_items_only_expired:
  assumes "wheel_check_items t spare items (s, keep, flag, acts) = Inr (s', keep', flag', acts')"
    and "spare = conn_expired_time s div of_nat wheel_capacity"
  shows "set (pending_to_remove s') - set (pending_to_remove s) \<subseteq> {p. expired_at t s p}"
  using assms
proof (induction items arbitrary: s keep flag acts)
  case (Cons item items)
  then obtain s1 keep1 flag1 acts1 where 1: "wheel_check_item t spare item (s, keep, flag, acts) = Inr (s1, keep1, flag1, acts1)"
    and 2: "wheel_check_items t spare items (s1, keep1, flag1, acts1) = Inr (s', keep', flag', acts')"
    by (auto simp: rbind_Inr_iff)
  from check_item_only_expired [OF 1 Cons.prems(2)] Cons.IH [OF 2] Cons.prems(2) show ?case by auto
qed simp

text \<open>C9: A connection in use is left alone: a turn of the wheel queues only connections that were
  not touched for 18 seconds, and never one that is pending.\<close>

theorem active_connection_survives:
  assumes "reachable envs S" and "handle env WheelTurn S = Inr S'"
    and "p \<in> set (pending_to_remove (srv S'))" and "p \<notin> set (pending_to_remove (srv S))"
  shows "touch_time (objects (srv S) p) + 18 \<le> now env \<and> stats (objects (srv S) p) \<noteq> conn_pending"
proof -
  from assms(2) obtain s flag acts where c: "timing_wheel_check (now env) (srv S) = Inr (s, flag, acts)"
    and S': "srv S' = s"
    by (auto simp: rbind_Inr_iff)
  obtain u keep spare where "get_conn_check_spare (srv S) = Inr spare"
    and ci: "wheel_check_items (now env) spare (hd (timing_wheel (srv S)))
      (srv S, hd (timing_wheel (srv S)), False, []) = Inr (u, keep, flag, acts)"
    and s: "s = u\<lparr>timing_wheel := tl (timing_wheel (srv S)) @ [keep]\<rparr>"
    by (rule timing_wheel_check_cases [OF c server_reachable [OF assms(1)]]) (rule that; assumption)
  then have "spare = conn_expired_time (srv S) div of_nat wheel_capacity"
    by (auto simp: get_conn_check_spare_def rbind_Inr_iff)
  from check_items_only_expired [OF ci this] have "expired_at (now env) (srv S) p"
    using assms(3,4) by (auto simp: S' s)
  then show ?thesis
    using expiry_interval [OF settings.always [OF assms(1)]] by (simp add: expired_at_def)
qed

theorem active_connection_survives_witness:
  "\<exists>S S'. reachable (UNIV :: string list env set) S \<and> handle (env_at 30) WheelTurn S = Inr S' \<and>
    0 \<in> set (pending_to_remove (srv S')) \<and> touch_time (objects (srv S) 0) + 18 \<le> 30"
  using active_connection_survives [OF reach_nine tenth_turn, of 0] reach_nine tenth_turn
  by (intro exI [of _ "with_client [[0], [], [], [], [], [], [], [], [], []]"] exI [of _ expired_client]) auto

lemma check_items_append:
  "wheel_check_items t spare (xs @ ys) st = rbind (wheel_check_items t spare xs st) (wheel_check_items t spare ys)"
proof (induction xs arbitrary: st)
  case (Cons x xs)
  then have "wheel_check_items t spare (xs @ ys) =
      (\<lambda>st. rbind (wheel_check_items t spare xs st) (wheel_check_items t spare ys))" by blast
  then show ?case by (simp add: rbind_assoc)
qed simp

text \<open>C29: A wheel entry can outlive the use it was made for: when the first bucket still names a
  connection that was recycled, accepted again, and is not started yet, the turn of the wheel
  does not return; if no other entry stops it first, it is the assertion that a pending
  connection is cached that fails.\<close>

theorem stale_wheel_entry_stops_check:
  assumes "reachable envs S" and "starting S = Some p" and "hd (timing_wheel (srv S)) = xs @ p # ys"
  shows "\<exists>e. handle env WheelTurn S = Inl e \<and> (xs = [] \<longrightarrow> e = AssertFailed)"
proof -
  have inv: "server_inv (set (pending_to_remove (srv S))) (srv S)" by (rule server_reachable [OF assms(1)])
  have idle: "idle_new (srv S) p" using reachable_inv [OF assms(1)] assms(2) by (simp add: sys_inv_def)
  obtain spare where sp: "get_conn_check_spare (srv S) = Inr spare"
    using settings.always [OF assms(1)] by (simp add: get_conn_check_spare_def settings_ok_def wheel_capacity_def require_def)
  have ne: "timing_wheel (srv S) \<noteq> []" using inv by (auto simp: server_inv_def tracked_def wheel_capacity_def)
  have stop: "wheel_check_item t spare p (s, keep, flag, acts) = Inl AssertFailed"
    if "only_expires (srv S) s" for s t keep flag acts
  proof -
    from that have "objects s p = objects (srv S) p \<or> stats (objects (srv S) p) \<noteq> conn_pending"
      and same: "front_conns s = front_conns (srv S)" "cached_conns s = cached_conns (srv S)"
      unfolding only_expires_def by blast+
    with idle have "stats (objects s p) = conn_pending" by (auto simp: idle_new_def)
    moreover have "p \<in> registered s" using idle same by (simp add: idle_new_def registered_def)
    moreover have "p \<notin> set (cached_conns s)" using inv idle same by (auto simp: server_inv_def cache_ok_def idle_new_def)
    ultimately show ?thesis by (simp add: wheel_check_item_def use_count_0 require_def)
  qed
  let ?w = "hd (timing_wheel (srv S))"
  have core: "core_inv (srv S)" using inv by (simp add: server_inv_def core_inv_def)
  have w: "watched (wheel_members (srv S)) ?w (srv S)"
    using inv by (auto simp: server_inv_def tracked_def watched_def)
  have "set ?w \<subseteq> wheel_members (srv S)" using hd_in_set [OF ne] by (auto simp: wheel_members_def)
  then have lt: "\<forall>q \<in> set xs. q < next_object (srv S)"
    using inv assms(3) unfolding server_inv_def addresses_ok_def by auto
  have "\<exists>e. wheel_check_items (now env) spare ?w (srv S, ?w, False, []) = Inl e \<and> (xs = [] \<longrightarrow> e = AssertFailed)"
  proof (cases "wheel_check_items (now env) spare xs (srv S, ?w, False, [])")
    case (Inl e)
    then have "wheel_check_items (now env) spare ?w (srv S, ?w, False, []) = Inl e"
      by (simp add: assms(3) check_items_append)
    moreover have "xs \<noteq> []" using Inl by auto
    ultimately show ?thesis by blast
  next
    case (Inr y)
    obtain s keep flag acts where y: "y = (s, keep, flag, acts)" by (cases y)
    have "only_expires (srv S) s" using check_items [OF Inr [unfolded y] core w lt] by simp
    then have "wheel_check_items (now env) spare ?w (srv S, ?w, False, []) = Inl AssertFailed"
      using Inr y stop by (simp add: assms(3) check_items_append)
    then show ?thesis by blast
  qed
  then show ?thesis using ne sp by (auto simp: timing_wheel_check_def require_def)
qed

theorem stale_wheel_entry_stops_check_witness:
  "\<exists>S. reachable (UNIV :: string list env set) S \<and> handle (env_at 18) WheelTurn S = Inl AssertFailed"
proof -
  let ?w = "[[], [], [], [], [], [], [], [], [], [0]]"
  have "reachable (UNIV :: string list env set) (failed_client ?w)"
    by (rule reach_step [OF reach_connected _ hang_up]) simp
  then have "reachable (UNIV :: string list env set) (recycled_client ?w 0)"
    by (rule reach_step [OF _ _ removal_after_hang_up]) simp
  then have r: "reachable (UNIV :: string list env set) (recycled_client [[0], [], [], [], [], [], [], [], [], []] 0)"
    by (rule history_reachable [OF nine_more_turns])
  obtain S where a: "handle (env_at 18) (Accept False True no_delay_ok 9)
      (recycled_client [[0], [], [], [], [], [], [], [], [], []] 0) = Inr S"
    and S: "starting S = Some 0" "hd (timing_wheel (srv S)) = [] @ 0 # []"
    using accept_again by auto
  have "reachable (UNIV :: string list env set) S" by (rule reach_step [OF r _ a]) simp
  with stale_wheel_entry_stops_check [OF this S, of "env_at 18"] show ?thesis by blast
qed

section \<open>Answers of the backend\<close>

lemma answers_kept:
  assumes "reachable envs S" and "handle env (BackendRead i ec bytes) S = Inr S'"
  shows "srv S' = srv S"
proof -
  have z: "sessions_zero (srv S)" using server_reachable [OF assms(1)] by (simp add: server_inv_def)
  from assms(2) obtain acts s where "backward env acts (srv S) = Inr s" "srv S' = s"
    by (auto simp: rbind_Inr_iff)
  with backward_zero [OF z] show ?thesis by auto
qed

text \<open>C26: No answer of a backend ever reaches a client: nothing in the program sets a session id, so
  in every reachable state all are zero, and a message from a backend leaves the clients'
  connections as they were, whatever session it names.\<close>

theorem answers_never_delivered:
  assumes "reachable envs S" and "handle env (BackendRead i ec bytes) S = Inr S'"
  shows "srv S' = srv S \<and> (\<forall>e \<in> set (front_conns (srv S)). snd e = 0)"
  using answers_kept [OF assms] server_reachable [OF assms(1)]
  by (auto simp: server_inv_def sessions_zero_def)

theorem answers_never_delivered_witness:
  "\<exists>S S'. reachable (UNIV :: string list env set) S \<and> front_conns (srv S) = [(0, 0)] \<and>
    handle (env_at 0) (BackendRead 0 NoError (dump backend_message)) S = Inr S' \<and> srv S' = srv S"
proof -
  let ?S = "with_backend [[], [], [], [], [], [], [], [], [], [0]]"
  obtain S' where r: "handle (env_at 0) (BackendRead 0 NoError (dump backend_message)) ?S = Inr S'"
    using backend_answers by blast
  have "front_conns (srv ?S) = [(0, 0)]" by (simp add: with_backend_def)
  with answers_never_delivered [OF reach_backend r] r reach_backend show ?thesis by blast
qed

lemma distinct_one: "distinct xs \<Longrightarrow> set xs = {x} \<Longrightarrow> xs = [x]"
  by (cases xs) (auto simp: subset_singleton_iff)

text \<open>The session operations agree with each other: after a successful \<open>set_session_id\<close> the
  connection has that id, other connections keep theirs, and \<open>request_connection\<close> returns the
  connection when no other one has the id; for a connection that is not registered nothing
  changes and \<open>request_session_id\<close> answers -1.\<close>

theorem session_lookup:
  assumes "sorted_keys (front_conns s)" and "set_session_id p i s = (ok, s')"
  shows "(ok \<longleftrightarrow> p \<in> fst ` set (front_conns s)) \<and> (\<not> ok \<longrightarrow> s' = s \<and> request_session_id p s = - 1) \<and>
    (ok \<longrightarrow> request_session_id p s' = i \<and> (\<forall>q. q \<noteq> p \<longrightarrow> request_session_id q s' = request_session_id q s) \<and>
      (i \<noteq> 0 \<and> i \<noteq> - 1 \<and> (\<forall>q. q \<noteq> p \<longrightarrow> (q, i) \<notin> set (front_conns s)) \<longrightarrow>
         request_connection i s' = Inr (Some p)))"
proof (cases "map_of (front_conns s) p")
  case None
  then have "p \<notin> fst ` set (front_conns s)" by (simp add: map_of_eq_None_iff)
  with None assms(2) show ?thesis by (simp add: set_session_id_def request_session_id_def)
next
  case (Some i0)
  then have p: "p \<in> fst ` set (front_conns s)" by (metis map_of_eq_None_iff option.distinct(1))
  define m where "m = map_assign p i (front_conns s)"
  from Some assms(2) have ok: "ok" and s': "s' = s\<lparr>front_conns := m\<rparr>"
    by (auto simp: set_session_id_def m_def)
  have look: "map_of m = (map_of (front_conns s))(p \<mapsto> i)" and sorted: "sorted_keys m"
    using assign.put_lookup [OF assms(1)] assign.put_sorted [OF assms(1)] by (simp_all add: m_def)
  have "request_connection i s' = Inr (Some p)"
    if "i \<noteq> 0" "i \<noteq> - 1" "\<forall>q. q \<noteq> p \<longrightarrow> (q, i) \<notin> set (front_conns s)"
  proof -
    have d: "distinct (map fst m)" by (rule distinct_sorted_keys [OF sorted])
    have "(q, v) \<in> set m \<longleftrightarrow> (if q = p then v = i else (q, v) \<in> set (front_conns s))" for q v
      using map_of_eq_Some_iff [OF d, of q v] map_of_eq_Some_iff [OF distinct_sorted_keys [OF assms(1)], of q v]
      by (auto simp: look split: if_splits)
    then have "set (filter (\<lambda>e. snd e = i) m) = {(p, i)}" using that(3) by (auto split: if_splits)
    moreover have "distinct (filter (\<lambda>e. snd e = i) m)" using d by (simp add: distinct_map)
    ultimately have "filter (\<lambda>e. snd e = i) m = [(p, i)]" by (rule distinct_one [rotated])
    then show ?thesis using that(1,2) by (simp add: request_connection_def require_def s')
  qed
  then show ?thesis using ok p look by (auto simp: s' request_session_id_def)
qed

theorem session_lookup_witness:
  "\<exists>s'. set_session_id 1 7 ((new_server 0)\<lparr>front_conns := [(1, 0), (2, 0)]\<rparr>) = (True, s') \<and>
    request_session_id 1 s' = 7 \<and> request_connection 7 s' = Inr (Some 1)"
proof -
  let ?s = "(new_server 0)\<lparr>front_conns := [(1, 0), (2, 0)]\<rparr>"
  obtain ok s' where r: "set_session_id 1 7 ?s = (ok, s')" by fastforce
  then have ok by (simp add: set_session_id_def)
  with session_lookup [OF _ r] r show ?thesis by simp
qed

section \<open>Refinement of the registry\<close>

text \<open>
  What the registry amounts to: the connections served, those queued for removal, and the idle
  objects kept for reuse.
\<close>

record registry =
  served :: "nat set"
  queued :: "nat set"
  idle :: "nat set"

inductive registry_step :: "nat \<Rightarrow> nat \<Rightarrow> registry \<Rightarrow> registry \<Rightarrow> bool" for cap limit where
  stay: "registry_step cap limit r r"
| admit: "p \<notin> served r \<union> queued r \<Longrightarrow> card (served r) < cap \<Longrightarrow>
    registry_step cap limit r (r\<lparr>served := insert p (served r), idle := idle r - {p}\<rparr>)"
| enqueue: "Q \<inter> idle r = {} \<Longrightarrow> registry_step cap limit r (r\<lparr>queued := queued r \<union> Q\<rparr>)"
| clear: "R \<subseteq> served r \<inter> queued r \<Longrightarrow> card (idle r \<union> R) \<le> limit \<Longrightarrow>
    R = served r \<inter> queued r \<or> card (idle r \<union> R) = limit \<Longrightarrow>
    registry_step cap limit r
      (r\<lparr>served := served r - queued r, queued := {}, idle := idle r \<union> R\<rparr>)"

definition registry_of :: "server \<Rightarrow> registry" where
  "registry_of s =
     \<lparr> served = fst ` set (front_conns s), queued = set (pending_to_remove s), idle = set (cached_conns s) \<rparr>"

lemma completion_refines:
  assumes inv: "server_inv (set (pending_to_remove s)) s" and op: "conn_operation f"
    and r: "complete p f s = Inr (s', acts)"
  shows "registry_step cap limit (registry_of s) (registry_of s')"
proof -
  define t where "t = s\<lparr>handlers := (handlers s)(p := handlers s p - 1)\<rparr>"
  have run: "run_on p f t = Inr (s', acts)" using r by (simp add: complete_def t_def)
  then obtain c where s': "s' = settle p c acts t" by (auto simp: run_on_def rbind_Inr_iff)
  define Q where "Q = (if NotifyRemove \<in> set acts then {p} else {})"
  have "p \<notin> set (cached_conns s)" if "NotifyRemove \<in> set acts \<and> p \<notin> set (pending_to_remove s)"
  proof
    assume "p \<in> set (cached_conns s)"
    then have "dormant (objects t p)" using inv by (simp add: server_inv_def cache_ok_def t_def)
    from conn_operation.run_on_dormant [OF op this run] have "pending_to_remove s' = pending_to_remove s"
      by (simp add: t_def)
    moreover have "p \<in> set (pending_to_remove s')" using that by (simp add: s' keeps)
    ultimately show False using that by simp
  qed
  then have "(Q - set (pending_to_remove s)) \<inter> idle (registry_of s) = {}"
    by (auto simp: registry_of_def Q_def)
  from registry_step.enqueue [OF this, of cap limit] show ?thesis
    by (simp add: registry_of_def s' keeps t_def Q_def Un_Diff_cancel insert_absorb cong: if_cong split: if_splits)
qed

lemma accept_conn_effect:
  assumes inv: "server_inv (set (pending_to_remove s)) s"
    and r: "accept_conn env ec peer no_delay sock s = Inr (s', Accepted_conn p)"
  shows "p \<notin> registered s \<and> p \<notin> set (pending_to_remove s) \<and>
    front_conns s' = map_insert p 0 (front_conns s) \<and> pending_to_remove s' = pending_to_remove s \<and>
    set (cached_conns s') = set (cached_conns s) - {p}"
proof (cases "cached_conns s")
  case (Cons q qs)
  with r have p: "p = q" and u: "use_count (s\<lparr>cached_conns := qs\<rparr>) q = 0"
    and f: "front_conns s' = map_insert q 0 (front_conns s)" "pending_to_remove s' = pending_to_remove s"
      "cached_conns s' = qs"
    by (auto simp: accept_conn_def rbind_Inr_iff Let_def wheel_back_insert_facts split: if_splits)
  from u have "q \<notin> registered s" "q \<notin> set (pending_to_remove s)" "q \<notin> set qs"
    by (simp_all add: use_count_0 registered_def)
  with p f Cons show ?thesis by auto
next
  case Nil
  with r have p: "p = next_object s"
    and f: "front_conns s' = map_insert p 0 (front_conns s)" "pending_to_remove s' = pending_to_remove s"
      "cached_conns s' = []"
    by (auto simp: accept_conn_def rbind_Inr_iff Let_def wheel_back_insert_facts split: if_splits)
  have "p \<notin> registered s" "p \<notin> set (pending_to_remove s)"
    using inv unfolding server_inv_def addresses_ok_def p by (metis less_irrefl)+
  with f Nil show ?thesis by simp
qed

lemma accept_refines:
  assumes inv: "server_inv (set (pending_to_remove s)) s"
    and r: "accept_conn env ec peer no_delay sock s = Inr (s', res)"
  shows "registry_step (unat (max_serve_conns_cnt s)) limit (registry_of s) (registry_of s')"
proof (cases res)
  case (Accepted_conn p)
  have room: "current_conns_cnt s < max_serve_conns_cnt s"
    using r Accepted_conn by (auto simp: accept_conn_def not_le split: if_splits)
  have c: "counts_ok s" using inv by (simp add: server_inv_def)
  have "unat (max_serve_conns_cnt s) < 2 ^ 64" using unsigned_less [of "max_serve_conns_cnt s", where 'a = nat] by simp
  with c have "unat (current_conns_cnt s) = length (front_conns s)" by (simp add: counts_ok_def unat_of_nat)
  moreover have "card (fst ` set (front_conns s)) = length (front_conns s)"
    using c distinct_card [of "map fst (front_conns s)"] by (simp add: counts_ok_def distinct_sorted_keys)
  ultimately have card: "card (fst ` set (front_conns s)) < unat (max_serve_conns_cnt s)"
    using room by (simp add: word_less_nat_alt)
  have a: "p \<notin> registered s" "p \<notin> set (pending_to_remove s)"
    "front_conns s' = map_insert p 0 (front_conns s)" "pending_to_remove s' = pending_to_remove s"
    "set (cached_conns s') = set (cached_conns s) - {p}"
    using accept_conn_effect [OF inv r [unfolded Accepted_conn]] by simp_all
  then have "registry_of s' = (registry_of s)\<lparr>served := insert p (served (registry_of s)), idle := idle (registry_of s) - {p}\<rparr>"
    by (simp add: registry_of_def fst_set_map_insert)
  with registry_step.admit [of p "registry_of s" "unat (max_serve_conns_cnt s)" limit] a(1,2) card show ?thesis
    by (simp add: registry_of_def registered_def)
next
  case AcceptFailed
  then have "s' = s" using accept_conn_inv [OF inv r] by simp
  then show ?thesis by (simp add: registry_step.stay)
next
  case (Refused x)
  then have "s' = s" using accept_conn_inv [OF inv r] by simp
  then show ?thesis by (simp add: registry_step.stay)
qed

lemma wheel_refines:
  assumes inv: "server_inv (set (pending_to_remove s)) s" and r: "timing_wheel_check t s = Inr (s', flag, acts)"
  shows "registry_step cap limit (registry_of s) (registry_of s')"
proof -
  obtain u keep spare where e: "only_expires s u" and s': "s' = u\<lparr>timing_wheel := tl (timing_wheel s) @ [keep]\<rparr>"
    by (rule timing_wheel_check_cases [OF r inv]) (rule that; assumption)
  define Q where "Q = set (pending_to_remove s') - set (pending_to_remove s)"
  have "stats (objects s q) \<noteq> conn_pending" if "q \<in> Q" for q
    using e that by (simp add: only_expires_def Q_def s')
  then have "Q \<inter> idle (registry_of s) = {}"
    using inv by (auto simp: registry_of_def server_inv_def cache_ok_def dormant_def)
  from registry_step.enqueue [OF this, of cap limit] show ?thesis
    using e by (simp add: registry_of_def s' only_expires_def Q_def Un_absorb1)
qed

lemma manage_refines:
  assumes inv: "server_inv (set (pending_to_remove s)) s" and limit: "cache_limit s = Inr limit"
    and r: "manage_notified s = Inr s'"
  shows "registry_step cap (unat limit) (registry_of s) (registry_of s')"
proof -
  define R where "R = set (take (unat limit - length (cached_conns s))
    (filter (\<lambda>p. p \<in> registered s) (pending_to_remove s)))"
  from manage_notified_total [OF inv limit] r have s': "server_inv (set (pending_to_remove s')) s'"
    "registered s' = registered s - set (pending_to_remove s)" "pending_to_remove s' = []"
    and c: "cached_conns s' = cached_conns s @ take (unat limit - length (cached_conns s))
        (filter (\<lambda>p. p \<in> registered s) (pending_to_remove s))"
    by auto
  have m: "cache_limit s' = Inr limit"
    using manage_notified_settings [OF r] limit cache_limit_cong [of s' s] by (simp add: same_settings_def)
  have "distinct (cached_conns s')" and le: "length (cached_conns s') \<le> unat limit"
    using s'(1) m by (simp_all add: server_inv_def cache_ok_def)
  then have card: "card (set (cached_conns s) \<union> R) = length (cached_conns s')"
    using distinct_card [of "cached_conns s'"] by (simp add: c R_def)
  have "R = registered s \<inter> set (pending_to_remove s) \<or> length (cached_conns s') = unat limit"
  proof (cases "length (filter (\<lambda>p. p \<in> registered s) (pending_to_remove s)) \<le> unat limit - length (cached_conns s)")
    case True
    then show ?thesis by (auto simp: R_def)
  next
    case False
    then have "length (cached_conns s') = length (cached_conns s) + (unat limit - length (cached_conns s))"
      by (simp add: c)
    moreover have "length (cached_conns s) \<le> unat limit" using inv limit by (simp add: server_inv_def cache_ok_def)
    ultimately show ?thesis by simp
  qed
  moreover have "R \<subseteq> registered s \<inter> set (pending_to_remove s)"
    unfolding R_def using set_take_subset by fastforce
  ultimately show ?thesis
    using registry_step.clear [of R "registry_of s" "unat limit" cap] card le s'(2,3)
    by (simp add: registry_of_def registered_def c R_def)
qed

text \<open>C1: The registry refines its specification: every step of the server, by whichever thread, is
  a step of the abstract registry, which serves at most the configured number of connections,
  admits only objects that are neither served nor queued, never queues an idle one, and on a
  removal keeps a removed object idle unless the cache is full.\<close>

theorem server_refines_registry:
  assumes "reachable envs S" and "step env S e S'"
  shows "\<exists>limit. cache_limit (srv S) = Inr limit \<and>
    registry_step (unat (max_serve_conns_cnt (srv S))) (unat limit) (registry_of (srv S)) (registry_of (srv S'))"
proof -
  obtain limit where l: "cache_limit (srv S) = Inr limit" using cache_limit_reachable [OF assms(1)] by blast
  have inv: "server_inv (set (pending_to_remove (srv S))) (srv S)" by (rule server_reachable [OF assms(1)])
  from assms(2) have h: "handle env e S = Inr S'" and en: "enabled S e" by (auto elim: stepE)
  have same: ?thesis if "registry_of (srv S') = registry_of (srv S)"
    using l that registry_step.stay by auto
  have "\<exists>p f. completion env e = Some (p, f) \<Longrightarrow> ?thesis"
  proof -
    assume "\<exists>p f. completion env e = Some (p, f)"
    then obtain p f where c: "completion env e = Some (p, f)" by blast
    from handle_completion [OF c] h have "front_event env p f S = Inr S'" and op: "conn_operation f" by auto
    then obtain acts where "complete p f (srv S) = Inr (srv S', acts)"
      by (auto simp: front_event_def rbind_Inr_iff)
    from completion_refines [OF inv op this] l show ?thesis by blast
  qed
  moreover have ?thesis if "completion env e = None"
  proof (cases e)
    case (Accept ec peer no_delay sock)
    with h obtain r where "accept_conn env ec peer no_delay sock (srv S) = Inr (srv S', r)"
      by (auto simp: rbind_Inr_iff)
    from accept_refines [OF inv this] l show ?thesis by blast
  next
    case Start
    with en obtain p where "starting S = Some p" by auto
    with h Start obtain acts where r: "run_on p (front_start env) (srv S) = Inr (srv S', acts)"
      by (auto simp: rbind_Inr_iff)
    then obtain c where c: "front_start env (objects (srv S) p) = Inr (c, acts)"
      and s: "srv S' = settle p c acts (srv S)"
      by (auto simp: run_on_def rbind_Inr_iff)
    from c have "NotifyRemove \<notin> set acts"
      by (auto simp: front_start_def do_read_head_def post_def split: if_splits)
    then show ?thesis by (intro same) (simp add: s registry_of_def keeps)
  next
    case WheelTurn
    with h obtain flag acts where "timing_wheel_check (now env) (srv S) = Inr (srv S', flag, acts)"
      by (auto simp: rbind_Inr_iff)
    from wheel_refines [OF inv this] l show ?thesis by blast
  next
    case Managed
    with h have "manage_notified (srv S) = Inr (srv S')" by (auto simp: rbind_Inr_iff)
    from manage_refines [OF inv l this] l show ?thesis by blast
  next
    case (BackendRead i ec bytes)
    with answers_kept [OF assms(1)] h have "srv S' = srv S" by blast
    then show ?thesis by (intro same) simp
  qed (use that h same in \<open>auto simp: rbind_Inr_iff\<close>)
  ultimately show ?thesis by (cases "completion env e") auto
qed

theorem server_refines_registry_witness:
  "\<exists>S S'. step (env_at 30) S Managed S' \<and>
    registry_step 100 30 (registry_of (srv S)) (registry_of (srv S')) \<and>
    idle (registry_of (srv S)) = {} \<and> idle (registry_of (srv S')) = {0}"
proof -
  let ?S' = "recycled_client [[], [], [], [], [], [], [], [], [], [0]] 1"
  have st: "step (env_at 30) expired_client Managed ?S'" by (rule step.intros [OF _ removal]) simp
  have m: "max_serve_conns_cnt (srv expired_client) = 100"
    by (simp add: expired_client_def with_client_def server_eq Let_def)
  from server_refines_registry [OF reach_expired st] st show ?thesis
    by (intro exI [of _ expired_client] exI [of _ ?S']) (simp add: m cache_limit_100 registry_of_def)
qed

end
