(* ===== verification/Dispatch.thy ===== *)
theory Dispatch
  imports System_Facts
begin

text \<open>
  From a client to a backend: what the handler of a client's connection forwards is what the
  backend server writes. The two sides meet in \<open>forward\<close>.
\<close>

section \<open>Backend connections keep their sockets\<close>

definition connected :: "backend_conns \<Rightarrow> bool" where
  "connected bs \<longleftrightarrow> (\<forall>c \<in> set bs. p_sock c \<noteq> None)"

lemma connected_update: "connected bs \<Longrightarrow> p_sock c \<noteq> None \<Longrightarrow> connected (bs[i := c])"
  using set_update_subset_insert [of bs i c] by (auto simp: connected_def)

lemma connected_nth: "connected bs \<Longrightarrow> i < length bs \<Longrightarrow> p_sock (bs ! i) \<noteq> None"
  by (simp add: connected_def)

lemma do_read_sock: "do_read t c = Inr (c', acts) \<Longrightarrow> p_sock c' = p_sock c"
  by (auto simp: do_read_def keeps split: if_splits)

lemma do_write_sock: "do_write t c = Inr (c', acts) \<Longrightarrow> p_sock c' = p_sock c"
  by (auto simp: do_write_def keeps split: if_splits)

lemma fill_and_send_sock: "fill_and_send t dat len c = Inr (c', acts) \<Longrightarrow> p_sock c' = p_sock c"
  by (auto simp: fill_and_send_def rbind_Inr_iff dest!: do_write_sock split: option.splits)

lemma push_backend_connected:
  assumes "connected bs" and "push_backend t site_id dat len bs = Inr (bs', acts)"
  shows "connected bs'"
proof (cases "the (require_backend_conn site_id bs)")
  case None
  with assms show ?thesis by (simp add: push_backend_def)
next
  case (Some i)
  with assms(2) obtain c as where c: "fill_and_send t dat len (bs ! i) = Inr (c, as)" and bs': "bs' = bs[i := c]"
    by (auto simp: push_backend_def rbind_Inr_iff)
  have "i < length bs"
    using selection.select_working selection.select_returns Some by (metis option.sel)
  with assms(1) have "p_sock (bs ! i) \<noteq> None" by (rule connected_nth)
  with fill_and_send_sock [OF c] assms(1) show ?thesis unfolding bs' by (intro connected_update) simp_all
qed

lemma forward_connected: "connected bs \<Longrightarrow> forward env acts bs = Inr bs' \<Longrightarrow> connected bs'"
  by (induction env acts bs rule: forward.induct) (auto simp: rbind_Inr_iff dest: push_backend_connected)

lemma backend_handlers_sock:
  "backend_read_handler t e0 ec n c = Inr (c', acts) \<Longrightarrow> p_sock c' = p_sock c"
  "backend_write_handler ec n c = Inr (c', acts) \<Longrightarrow> p_sock c' = p_sock c"
  by (auto simp: backend_read_handler_def backend_write_handler_def backend_conn_error_def rbind_Inr_iff Let_def
      dest!: do_read_sock split: if_splits)

interpretation sockets: system_invariant "\<lambda>S. connected (backends S)" envs for envs :: "'s env set"
proof unfold_locales
  show "connected (backends (initial rlimit garbage))" for rlimit garbage
    by (simp add: initial_def connected_def)
  fix S :: system and env :: "'s env" and e S'
  assume I: "connected (backends S)" and en: "enabled S e" and h: "handle env e S = Inr S'"
  show "connected (backends S')"
  proof (cases e)
    case (BackendAccept ec peer sock)
    with h I show ?thesis
      by (auto simp: rbind_Inr_iff backend_accept_handler_def start_def connected_def new_connection_def
          dest!: do_read_sock split: if_splits)
  next
    case (BackendRead i ec bytes)
    with h obtain c c' acts s where "receive_some bytes (backends S ! i) = Inr c"
      "backend_read_handler (now env) (stale_errno env) ec (length bytes) c = Inr (c', acts)"
      "S' = S\<lparr>srv := s, backends := (backends S)[i := c']\<rparr>"
      by (auto simp: rbind_Inr_iff)
    moreover from this(1,2) have "p_sock c' = p_sock (backends S ! i)"
      by (auto simp: receive_some_def rbind_Inr_iff dest!: backend_handlers_sock)
    moreover have "p_sock (backends S ! i) \<noteq> None" using en I BackendRead by (simp add: connected_nth)
    ultimately show ?thesis using I by (simp add: connected_update)
  next
    case (BackendWritten i ec n)
    with h obtain c' acts where "backend_write_handler ec n (backends S ! i) = Inr (c', acts)"
      "S' = S\<lparr>backends := (backends S)[i := c']\<rparr>"
      by (auto simp: rbind_Inr_iff)
    moreover have "p_sock (backends S ! i) \<noteq> None" using en I BackendWritten by (simp add: connected_nth)
    ultimately show ?thesis using I by (simp add: connected_update backend_handlers_sock)
  next
    case (BackendCheck ec)
    with h I show ?thesis by (auto simp: on_check_timeout_eq connected_def split: if_splits)
  qed (use h I in \<open>auto simp: rbind_Inr_iff front_event_def dest: forward_connected split: option.splits\<close>)
qed

section \<open>A message for the backend\<close>

text \<open>C3: A message a client posts to \<open>/bb\<close> crosses the server: when its JSON is well formed, the
  body with its NUL is put, complete, at the front of the write buffer of one working backend
  connection, and no other backend connection changes; with no working backend it is dropped.
  This holds in every state the server can reach.\<close>

theorem message_crosses_server:
  assumes "reachable envs S" and "live c" and "unat (r_size c) \<le> length (p_buffer c)" and "length (p_buffer c) < 2 ^ 62"
    and "body = c_str (take (unat (r_size c)) (p_buffer c))"
    and "parse_message (stale_errno env) body = (j, [])"
    and "id_field j ''session_id'' = Inr session_id" and "id_field j ''site_id'' = Inr site_id"
    and "fetch_upstream env = Inr page" and "length (date env) < 2 ^ 60"
    and "case page of None \<Rightarrow> True | Some ret_str \<Rightarrow> length ret_str < 2 ^ 31"
  shows "\<exists>c' acts. handle_bb env c = Inr (c', acts) \<and>
    (if \<forall>b \<in> set (backends S). stats b \<noteq> conn_working then forward env acts (backends S) = Inr (backends S)
     else \<exists>i b. i < length (backends S) \<and> stats (backends S ! i) = conn_working \<and>
       forward env acts (backends S) = Inr ((backends S)[i := b]) \<and>
       take (length body + 1) (p_write b) = body @ [NULC] \<and> w_size b = of_nat (length body + 1))"
proof -
  let ?len = "of_nat (length body + 1) :: u64" and ?m = "body @ [NULC]"
  obtain c' acts where h: "handle_bb env c = Inr (c', PushBackend site_id ?m ?len # acts)"
    and a: "case page of None \<Rightarrow> acts = [] \<and> c' = c
      | Some ret_str \<Rightarrow> \<exists>w. acts = [w, AsyncReadUntil] \<and> write_bytes c' w = reply_of env ret_str Ok"
    using handle_bb_forwards [OF assms(2,3,5-11)] by blast
  have rest: "forward env acts bs = Inr bs" for bs
  proof (cases page)
    case (Some ret_str)
    with a obtain w where w: "acts = [w, AsyncReadUntil]" "write_bytes c' w = reply_of env ret_str Ok" by auto
    have "write_bytes c' w \<noteq> []" unfolding w(2) by (rule reply_of_nonempty)
    with w(1) show ?thesis by (cases w) simp_all
  qed (use a in simp)
  have "length body \<le> length (p_buffer c)"
    unfolding assms(5) by (rule le_trans [OF length_c_str]) simp
  then have l: "length ?m < 2 ^ 63" using assms(4) by simp
  have con: "\<forall>b \<in> set (backends S). p_sock b \<noteq> None" using sockets.always [OF assms(1)] by (simp add: connected_def)
  note d = push_backend_cases [OF con _ _ l, of ?len "now env" site_id "[]", unfolded append_Nil2]
  show ?thesis
  proof (cases "\<forall>b \<in> set (backends S). stats b \<noteq> conn_working")
    case True
    then have "push_backend (now env) site_id (Some ?m) ?len (backends S) = Inr (backends S, [])" using d by simp
    with h rest True show ?thesis by (intro exI [of _ c'] exI [of _ "PushBackend site_id ?m ?len # acts"]) simp
  next
    case False
    then obtain i b n where b: "i < length (backends S)" "stats (backends S ! i) = conn_working"
      "push_backend (now env) site_id (Some ?m) ?len (backends S) = Inr ((backends S)[i := b], [(i, AsyncWriteSome n)])"
      "take (length ?m) (p_write b) = ?m" "w_size b = ?len"
      using d unfolding if_not_P [OF False] by auto
    then have "forward env (PushBackend site_id ?m ?len # acts) (backends S) = Inr ((backends S)[i := b])"
      using rest by simp
    with h b False show ?thesis
      by (intro exI [of _ c'] exI [of _ "PushBackend site_id ?m ?len # acts"]) (auto intro!: exI [of _ i] exI [of _ b])
  qed
qed

theorem message_crosses_server_witness:
  "\<exists>S c c' acts i b. reachable (UNIV :: string list env set) S \<and> handle_bb (example_env []) c = Inr (c', acts) \<and>
    forward (example_env []) acts (backends S) = Inr ((backends S)[i := b]) \<and>
    take 3 (p_write b) = ''{}'' @ [NULC]"
proof -
  let ?c = "example_conn\<lparr>r_size := 2, p_buffer := ''{}''\<rparr>"
  let ?S = "with_backend [[], [], [], [], [], [], [], [], [], [0]]"
  have p: "parse_message False ''{}'' = (JsonObject [], [])" "id_field (JsonObject []) ''session_id'' = Inr 0"
    "id_field (JsonObject []) ''site_id'' = Inr 0"
    by code_simp+
  have f: "fetch_upstream (example_env []) = Inr None"
    by (simp add: fetch_upstream_def sync_timed_connect_def piece_io_def sync_timed_read_some_def
      sync_read_some_def vec_write_def)
  have b: "''{}'' = c_str (take (unat (r_size ?c)) (p_buffer ?c))" by (simp add: c_str_def)
  have w: "\<not> (\<forall>b \<in> set (backends ?S). stats b \<noteq> conn_working)" by (simp add: with_backend_def)
  obtain c' acts i b where "handle_bb (example_env []) ?c = Inr (c', acts)"
    "forward (example_env []) acts (backends ?S) = Inr ((backends ?S)[i := b])"
    "take (length ''{}'' + 1) (p_write b) = ''{}'' @ [NULC]"
    using message_crosses_server [OF reach_backend, of ?c "''{}''" "example_env []" "JsonObject []" 0 0 None] p f b
    unfolding if_not_P [OF w] by auto
  moreover from this(3) have "take 3 (p_write b) = ''{}'' @ [NULC]" by (simp add: numeral_3_eq_3)
  ultimately show ?thesis using reach_backend
    by (intro exI [of _ ?S] exI [of _ ?c] exI [of _ c'] exI [of _ acts] exI [of _ i] exI [of _ b] conjI)
qed

end
