(* ===== verification/Json_Api.thy ===== *)
theory Json_Api
  imports Json_Roundtrip
begin

text \<open>
  The rest of \<open>include/json11.hpp\<close>: the constructors, the type queries, the comparison
  operators the header derives from \<open>==\<close> and \<open><\<close>, the overloads of \<open>parse\<close> and \<open>parse_multi\<close>.
  Lemmas: where no NaN occurs \<open><\<close> and \<open>==\<close> form a strict weak order, which is what the maps,
  vectors and derived operators need; numbers compare as \<open>double\<close>s, so integers beyond 2^53
  collide; and the contract of \<open>has_shape\<close>.
\<close>

section \<open>Constructors\<close>

definition json_default :: json where
  "json_default = JsonNull"

definition json_of_double :: "dbl \<Rightarrow> json" where
  "json_of_double value = JsonDouble value"

definition json_of_int :: "32 word \<Rightarrow> json" where
  "json_of_int value = JsonInt64 (scast value)"

definition json_of_int64 :: "u64 \<Rightarrow> json" where
  "json_of_int64 value = JsonInt64 value"

definition json_of_uint64 :: "u64 \<Rightarrow> json" where
  "json_of_uint64 value = JsonUInt64 value"

definition json_of_bool :: "bool \<Rightarrow> json" where
  "json_of_bool value = (if value then JsonBoolean True else JsonBoolean False)"

definition json_of_string :: "string \<Rightarrow> json" where
  "json_of_string value = JsonString value"

text \<open>From a \<open>const char *\<close>, which \<open>JsonString\<close> turns into a string: it ends at the first NUL.\<close>

definition json_of_chars :: "string \<Rightarrow> json" where
  "json_of_chars value = JsonString (c_str value)"

definition json_of_array :: "json list \<Rightarrow> json" where
  "json_of_array values = JsonArray values"

definition json_of_object :: "(string \<times> json) list \<Rightarrow> json" where
  "json_of_object values = JsonObject values"

text \<open>The templates: anything with \<open>to_json\<close>, map-like and vector-like containers, given how their
  elements convert. \<open>object (m.begin (), m.end ())\<close> inserts in order, so the first of equal keys
  stays.\<close>

definition json_of :: "('t \<Rightarrow> json) \<Rightarrow> 't \<Rightarrow> json" where
  "json_of to_json t = to_json t"

definition json_of_map :: "('k \<Rightarrow> string) \<Rightarrow> ('m \<Rightarrow> json) \<Rightarrow> ('k \<times> 'm) list \<Rightarrow> json" where
  "json_of_map key mapped m = json_of_object (fold (\<lambda>(k, v). map_insert (key k) (mapped v)) m [])"

definition json_of_vector :: "('e \<Rightarrow> json) \<Rightarrow> 'e list \<Rightarrow> json" where
  "json_of_vector element v = json_of_array (map element v)"

lemma fold_insert_lookup:
  assumes "sorted_keys m"
  shows "sorted_keys (fold (\<lambda>(k, v). map_insert k v) es m) \<and>
    map_of (fold (\<lambda>(k, v). map_insert k v) es m) = map_of es ++ map_of m"
  using assms
proof (induction es arbitrary: m)
  case (Cons e es)
  obtain k v where e: "e = (k, v)" by (cases e)
  have "map_of es ++ map_of (map_insert k v m) = map_of (e # es) ++ map_of m"
    using insertion.put_lookup [OF Cons.prems, of k v]
    by (auto simp: e fun_eq_iff map_add_def split: option.splits)
  with Cons.IH [OF insertion.put_sorted [OF Cons.prems, of k v]] show ?case by (simp add: e fun_upd_def)
qed simp

text \<open>A container becomes an object with sorted keys in which a key has the first value it came with.\<close>

theorem json_of_map_lookup:
  "\<exists>ms. json_of_map key mapped m = JsonObject ms \<and> sorted_keys ms \<and>
     at_key (json_of_map key mapped m) k =
       (case find (\<lambda>e. key (fst e) = k) m of None \<Rightarrow> JsonNull | Some e \<Rightarrow> mapped (snd e))"
proof -
  define es where "es = map (\<lambda>(k, v). (key k, mapped v)) m"
  have f: "fold (\<lambda>(k, v). map_insert (key k) (mapped v)) m xs = fold (\<lambda>(k, v). map_insert k v) es xs" for xs
    unfolding es_def by (induction m arbitrary: xs) auto
  have l: "map_of es k = map_option (mapped \<circ> snd) (find (\<lambda>e. key (fst e) = k) m)"
    unfolding es_def by (induction m) auto
  from fold_insert_lookup [of "[]" es] show ?thesis
    by (auto simp: json_of_map_def json_of_object_def f l split: option.splits)
qed

section \<open>Type queries and derived operators\<close>

definition is_null :: "json \<Rightarrow> bool" where "is_null j \<longleftrightarrow> json_tag j = NUL"
definition is_number :: "json \<Rightarrow> bool" where "is_number j \<longleftrightarrow> json_tag j = NUMBER"
definition is_bool :: "json \<Rightarrow> bool" where "is_bool j \<longleftrightarrow> json_tag j = BOOL"
definition is_string :: "json \<Rightarrow> bool" where "is_string j \<longleftrightarrow> json_tag j = STRING"
definition is_array :: "json \<Rightarrow> bool" where "is_array j \<longleftrightarrow> json_tag j = ARRAY"
definition is_object :: "json \<Rightarrow> bool" where "is_object j \<longleftrightarrow> json_tag j = OBJECT"

definition json_ne :: "json \<Rightarrow> json \<Rightarrow> bool" where "json_ne a b \<longleftrightarrow> \<not> json_eq a b"
definition json_le :: "json \<Rightarrow> json \<Rightarrow> bool" where "json_le a b \<longleftrightarrow> \<not> json_less b a"
definition json_gt :: "json \<Rightarrow> json \<Rightarrow> bool" where "json_gt a b \<longleftrightarrow> json_less b a"
definition json_ge :: "json \<Rightarrow> json \<Rightarrow> bool" where "json_ge a b \<longleftrightarrow> \<not> json_less a b"

section \<open>Overloads of the parser\<close>

text \<open>\<open>None\<close> is the null pointer; the state shows \<open>err\<close>, the value is null.\<close>

definition parse_chars ::
  "json_strategy \<Rightarrow> string option \<Rightarrow> string \<Rightarrow> bool \<Rightarrow> (json \<times> string) option" where
  "parse_chars strategy inp err0 errno0 =
     (case inp of
        Some s \<Rightarrow> map_option (\<lambda>(j, p). (j, err p)) (parse strategy (c_str s) err0 errno0)
      | None \<Rightarrow> Some (JsonNull, ''null input''))"

definition parse_multi_all ::
  "json_strategy \<Rightarrow> string \<Rightarrow> string \<Rightarrow> bool \<Rightarrow> (json list \<times> parser) option" where
  "parse_multi_all strategy str err0 errno0 =
     map_option (\<lambda>(vec, stop_pos, p). (vec, p)) (parse_multi strategy str err0 errno0)"

section \<open>Strict weak orders\<close>

text \<open>What \<open>std::map\<close>, the lexicographic comparisons and the derived operators rely on.\<close>

locale weak_order =
  fixes ok :: "'a \<Rightarrow> bool" and less :: "'a \<Rightarrow> 'a \<Rightarrow> bool" and eq :: "'a \<Rightarrow> 'a \<Rightarrow> bool"
  assumes less_asym: "ok x \<Longrightarrow> ok y \<Longrightarrow> less x y \<Longrightarrow> \<not> less y x"
    and eq_iff: "ok x \<Longrightarrow> ok y \<Longrightarrow> eq x y \<longleftrightarrow> \<not> less x y \<and> \<not> less y x"
    and negatively_trans: "ok x \<Longrightarrow> ok y \<Longrightarrow> ok z \<Longrightarrow> less x z \<Longrightarrow> less x y \<or> less y z"
begin

lemma trans: "ok x \<Longrightarrow> ok y \<Longrightarrow> ok z \<Longrightarrow> less x y \<Longrightarrow> less y z \<Longrightarrow> less x z"
  using less_asym negatively_trans by meson

lemma eq_sym: "ok x \<Longrightarrow> ok y \<Longrightarrow> eq x y \<longleftrightarrow> eq y x"
  using eq_iff by blast

lemma eq_refl: "ok x \<Longrightarrow> eq x x"
  using eq_iff less_asym by blast

lemma eq_trans: "ok x \<Longrightarrow> ok y \<Longrightarrow> ok z \<Longrightarrow> eq x y \<Longrightarrow> eq y z \<Longrightarrow> eq x z"
  using eq_iff negatively_trans by meson

lemma eq_less: "ok x \<Longrightarrow> ok y \<Longrightarrow> ok z \<Longrightarrow> eq x y \<Longrightarrow> less x z \<longleftrightarrow> less y z"
  using eq_iff negatively_trans by meson

end

fun dbl_number :: "dbl \<Rightarrow> bool" where
  "dbl_number DNaN \<longleftrightarrow> False"
| "dbl_number _ \<longleftrightarrow> True"

interpretation numbers: weak_order dbl_number dbl_less dbl_eq
proof
  fix x y z :: dbl
  assume "dbl_number x" "dbl_number y"
  then show "dbl_eq x y \<longleftrightarrow> \<not> dbl_less x y \<and> \<not> dbl_less y x"
    by (cases x; cases y) (auto simp del: dbl_units.simps)
  show "dbl_less x y \<Longrightarrow> \<not> dbl_less y x"
    by (cases x; cases y) (auto simp del: dbl_units.simps)
  assume "dbl_number z" "dbl_less x z"
  with \<open>dbl_number x\<close> \<open>dbl_number y\<close> show "dbl_less x y \<or> dbl_less y z"
    by (cases x; cases y; cases z) (auto simp del: dbl_units.simps)
qed

lemma dbl_of_int_number [simp]: "dbl_number (dbl_of_int i)"
  by (simp add: dbl_of_int_def dbl_round_def Let_def split: prod.split)

section \<open>The order of values\<close>

fun no_nan :: "json \<Rightarrow> bool" where
  "no_nan (JsonDouble d) \<longleftrightarrow> dbl_number d"
| "no_nan (JsonArray vs) \<longleftrightarrow> (\<forall>v \<in> set vs. no_nan v)"
| "no_nan (JsonObject ms) \<longleftrightarrow> (\<forall>m \<in> set ms. no_nan (snd m))"
| "no_nan _ \<longleftrightarrow> True"

lemma no_nan_number: "no_nan j \<Longrightarrow> dbl_number (number_value j)"
  by (cases j) simp_all

lemma json_less_tags: "json_tag a \<noteq> json_tag b \<Longrightarrow> json_less a b \<longleftrightarrow> json_tag a < json_tag b"
  by (simp add: json_less.simps)

lemma json_eq_tags: "json_eq a b \<Longrightarrow> json_tag a = json_tag b"
  by (simp add: json_eq.simps split: if_splits)

lemma json_less_number:
  "json_tag a = NUMBER \<Longrightarrow> json_tag b = NUMBER \<Longrightarrow>
   json_less a b \<longleftrightarrow> dbl_less (number_value a) (number_value b)"
  by (cases a) (simp_all add: json_less.simps)

lemma json_eq_number:
  "json_tag a = NUMBER \<Longrightarrow> json_tag b = NUMBER \<Longrightarrow>
   json_eq a b \<longleftrightarrow> dbl_eq (number_value a) (number_value b)"
  by (cases a) (simp_all add: json_eq.simps)

lemma json_less_same:
  "json_less JsonNull JsonNull \<longleftrightarrow> False"
  "json_less (JsonBoolean u) (JsonBoolean v) \<longleftrightarrow> \<not> u \<and> v"
  "json_less (JsonString s) (JsonString t) \<longleftrightarrow> s < t"
  "json_less (JsonArray vs) (JsonArray ws) \<longleftrightarrow> items_less vs ws"
  "json_less (JsonObject ms) (JsonObject ns) \<longleftrightarrow> members_less ms ns"
  by (simp_all add: json_less.simps)

lemma json_eq_same:
  "json_eq JsonNull JsonNull \<longleftrightarrow> True"
  "json_eq (JsonBoolean u) (JsonBoolean v) \<longleftrightarrow> u = v"
  "json_eq (JsonString s) (JsonString t) \<longleftrightarrow> s = t"
  "json_eq (JsonArray vs) (JsonArray ws) \<longleftrightarrow> items_eq vs ws"
  "json_eq (JsonObject ms) (JsonObject ns) \<longleftrightarrow> members_eq ms ns"
  by (simp_all add: json_eq.simps)

lemma items_less_Cons:
  "items_less (v # vs) (w # ws) \<longleftrightarrow> json_less v w \<or> \<not> json_less w v \<and> items_less vs ws"
  by simp

lemma members_less_Cons:
  "members_less ((k, v) # ms) ((l, w) # ns) \<longleftrightarrow>
   k < l \<or> k = l \<and> (json_less v w \<or> \<not> json_less w v \<and> members_less ms ns)"
  by (cases k l rule: linorder_cases) auto

lemma members_eq_Cons:
  "members_eq ((k, v) # ms) ((l, w) # ns) \<longleftrightarrow> k = l \<and> json_eq v w \<and> members_eq ms ns"
  by simp

declare items_less.simps(3) [simp del] members_less.simps(3) [simp del] members_eq.simps(2) [simp del]

text \<open>The two laws at one pair of values, and at one triple.\<close>

definition tri_law :: "('a \<Rightarrow> 'a \<Rightarrow> bool) \<Rightarrow> ('a \<Rightarrow> 'a \<Rightarrow> bool) \<Rightarrow> 'a \<Rightarrow> 'a \<Rightarrow> bool" where
  "tri_law lt eq a b \<longleftrightarrow>
     (lt a b \<longrightarrow> \<not> lt b a) \<and> (eq a b \<longleftrightarrow> \<not> lt a b \<and> \<not> lt b a)"

definition between_law :: "('a \<Rightarrow> 'a \<Rightarrow> bool) \<Rightarrow> 'a \<Rightarrow> 'a \<Rightarrow> 'a \<Rightarrow> bool" where
  "between_law lt a b c \<longleftrightarrow>
     (lt a c \<longrightarrow> lt a b \<or> lt b c) \<and> (lt a b \<longrightarrow> lt a c \<or> lt c b) \<and> (lt b c \<longrightarrow> lt b a \<or> lt a c) \<and>
     (lt b a \<longrightarrow> lt b c \<or> lt c a) \<and> (lt c b \<longrightarrow> lt c a \<or> lt a b) \<and> (lt c a \<longrightarrow> lt c b \<or> lt b a)"

abbreviation "json_tri \<equiv> tri_law json_less json_eq"
abbreviation "json_between \<equiv> between_law json_less"

lemma items_tri:
  "\<forall>v \<in> set vs. \<forall>w \<in> set ws. json_tri v w \<Longrightarrow> tri_law items_less items_eq vs ws"
proof (induction vs ws rule: list_induct2')
  case (4 v vs w ws)
  then have "json_tri v w" "tri_law items_less items_eq vs ws" by simp_all
  then show ?case unfolding tri_law_def items_less_Cons items_eq.simps by blast
qed (simp_all add: tri_law_def)

lemma members_tri:
  "\<forall>m \<in> set ms. \<forall>n \<in> set ns. json_tri (snd m) (snd n) \<Longrightarrow> tri_law members_less members_eq ms ns"
proof (induction ms ns rule: list_induct2')
  case (4 m ms n ns)
  obtain k v l w where mn: "m = (k, v)" "n = (l, w)" by (cases m; cases n)
  from 4 have "json_tri v w" "tri_law members_less members_eq ms ns" by (simp_all add: mn)
  then show ?case unfolding tri_law_def members_less_Cons members_eq_Cons mn
    by (cases k l rule: linorder_cases) auto
qed (simp_all add: tri_law_def)

lemma json_tri_tags: "json_tag a \<noteq> json_tag b \<Longrightarrow> json_tri a b"
  using json_less_tags [of a b] json_less_tags [of b a] json_eq_tags [of a b] by (auto simp: tri_law_def)

lemma json_tri_number:
  assumes "json_tag a = NUMBER" "json_tag b = NUMBER" "no_nan a" "no_nan b"
  shows "json_tri a b"
  using numbers.less_asym numbers.eq_iff no_nan_number [OF assms(3)] no_nan_number [OF assms(4)]
  by (simp add: tri_law_def json_less_number json_eq_number assms(1,2))

lemma json_tri: "no_nan a \<Longrightarrow> no_nan b \<Longrightarrow> json_tri a b"
proof (induction a arbitrary: b)
  case (JsonArray vs)
  show ?case
  proof (cases b)
    case b: (JsonArray ws)
    then have "\<forall>v \<in> set vs. \<forall>w \<in> set ws. json_tri v w" using JsonArray by simp
    from items_tri [OF this] show ?thesis by (simp add: b tri_law_def json_less_same json_eq_same)
  qed (simp_all add: json_tri_tags)
next
  case (JsonObject ms)
  show ?case
  proof (cases b)
    case b: (JsonObject ns)
    have "\<forall>m \<in> set ms. \<forall>n \<in> set ns. json_tri (snd m) (snd n)"
      using JsonObject.IH JsonObject.prems by (simp add: b) (metis snds.simps surjective_pairing)
    from members_tri [OF this] show ?thesis by (simp add: b tri_law_def json_less_same json_eq_same)
  qed (simp_all add: json_tri_tags)
next
  case (JsonBoolean u)
  show ?case
    by (cases b) (simp_all add: json_tri_tags, auto simp: tri_law_def json_less_same json_eq_same)
next
  case (JsonString s)
  show ?case
    by (cases b) (simp_all add: json_tri_tags, auto simp: tri_law_def json_less_same json_eq_same)
next
  case JsonNull
  show ?case
    by (cases b) (simp_all add: json_tri_tags, simp add: tri_law_def json_less_same json_eq_same)
next
  case (JsonDouble d)
  then show ?case using json_tri_number [of "JsonDouble d" b] json_tri_tags [of "JsonDouble d" b] by fastforce
next
  case (JsonInt64 w)
  then show ?case using json_tri_number [of "JsonInt64 w" b] json_tri_tags [of "JsonInt64 w" b] by fastforce
next
  case (JsonUInt64 w)
  then show ?case using json_tri_number [of "JsonUInt64 w" b] json_tri_tags [of "JsonUInt64 w" b] by fastforce
qed

lemma items_between:
  "\<forall>v \<in> set vs. \<forall>w \<in> set ws. \<forall>x \<in> set xs. json_between v w x \<and> json_tri v w \<and> json_tri w x \<and> json_tri v x \<Longrightarrow>
   between_law items_less vs ws xs"
proof (induction vs arbitrary: ws xs)
  case Nil
  then show ?case by (cases xs; cases ws) (simp_all add: between_law_def)
next
  case (Cons v vs)
  show ?case
  proof (cases "ws = [] \<or> xs = []")
    case False
    then obtain w ws' x xs' where e: "ws = w # ws'" "xs = x # xs'" by (meson list.exhaust)
    have h: "json_between v w x" "json_tri v w" "json_tri w x" "json_tri v x"
      "between_law items_less vs ws' xs'"
      using Cons.prems Cons.IH [of ws' xs'] by (simp_all add: e)
    then show ?thesis unfolding between_law_def tri_law_def items_less_Cons e by blast
  next
    case True
    then show ?thesis by (cases xs; cases ws) (simp_all add: between_law_def)
  qed
qed


lemma members_between:
  "\<forall>v \<in> snd ` set vs. \<forall>w \<in> snd ` set ws. \<forall>x \<in> snd ` set xs.
     json_between v w x \<and> json_tri v w \<and> json_tri w x \<and> json_tri v x \<Longrightarrow>
   between_law members_less vs ws xs"
proof (induction vs arbitrary: ws xs)
  case Nil
  then show ?case by (cases xs; cases ws) (simp_all add: between_law_def)
next
  case (Cons kv vs)
  show ?case
  proof (cases "ws = [] \<or> xs = []")
    case False
    then obtain k v l w m x ws' xs' where e: "kv = (k, v)" "ws = (l, w) # ws'" "xs = (m, x) # xs'"
      by (metis list.exhaust surj_pair)
    have h: "json_between v w x" "json_tri v w" "json_tri w x" "json_tri v x"
      "between_law members_less vs ws' xs'"
      using Cons.prems Cons.IH [of ws' xs'] by (simp_all add: e)
    show ?thesis
    proof (cases "k = l \<and> l = m")
      case True
      then show ?thesis using h unfolding between_law_def tri_law_def members_less_Cons e by blast
    next
      case False
      then show ?thesis unfolding between_law_def members_less_Cons e
        by (cases k l rule: linorder_cases; cases l m rule: linorder_cases; cases k m rule: linorder_cases) auto
    qed
  next
    case True
    then show ?thesis by (cases xs; cases ws) (simp_all add: between_law_def)
  qed
qed

lemma json_between_tags:
  "\<not> (json_tag a = json_tag b \<and> json_tag b = json_tag c) \<Longrightarrow> json_between a b c"
  unfolding between_law_def
  by (cases "json_tag a" "json_tag b" rule: linorder_cases;
      cases "json_tag b" "json_tag c" rule: linorder_cases;
      cases "json_tag a" "json_tag c" rule: linorder_cases)
    (simp_all add: json_less_tags, auto)


lemma json_between_number:
  assumes "json_tag a = NUMBER" "json_tag b = NUMBER" "json_tag c = NUMBER" "no_nan a" "no_nan b" "no_nan c"
  shows "json_between a b c"
  using numbers.negatively_trans [OF no_nan_number no_nan_number no_nan_number] assms
  by (simp add: between_law_def json_less_number)

lemma json_between:
  assumes "no_nan a" and "no_nan b" and "no_nan c"
  shows "json_between a b c"
proof (cases "json_tag a = json_tag b \<and> json_tag b = json_tag c")
  case True
  then have t: "json_tag b = json_tag a" "json_tag c = json_tag a" by simp_all
  show ?thesis using assms t
  proof (induction a arbitrary: b c)
    case (JsonArray vs)
    then obtain ws xs where bc: "b = JsonArray ws" "c = JsonArray xs" by (cases b; cases c) simp_all
    have "\<forall>v \<in> set vs. \<forall>w \<in> set ws. \<forall>x \<in> set xs. json_between v w x"
    proof (intro ballI)
      fix v w x assume i: "v \<in> set vs" "w \<in> set ws" "x \<in> set xs"
      then have n: "no_nan v" "no_nan w" "no_nan x" using JsonArray.prems by (simp_all add: bc)
      show "json_between v w x"
        using JsonArray.IH [OF i(1) n] json_between_tags [of v w x] by fastforce
    qed
    moreover have "\<forall>v \<in> set vs \<union> set ws \<union> set xs. no_nan v" using JsonArray.prems by (auto simp: bc)
    ultimately have "between_law items_less vs ws xs" by (intro items_between) (simp add: json_tri)
    then show ?case by (simp add: bc between_law_def json_less_same)
  next
    case (JsonObject ms)
    then obtain ws xs where bc: "b = JsonObject ws" "c = JsonObject xs" by (cases b; cases c) simp_all
    have "\<forall>v \<in> snd ` set ms. \<forall>w \<in> snd ` set ws. \<forall>x \<in> snd ` set xs. json_between v w x"
    proof (intro ballI)
      fix v w x assume i: "v \<in> snd ` set ms" "w \<in> snd ` set ws" "x \<in> snd ` set xs"
      then obtain k where k: "(k, v) \<in> set ms" by auto
      have n: "no_nan v" "no_nan w" "no_nan x" using JsonObject.prems i by (auto simp: bc)
      have "v \<in> Basic_BNFs.snds (k, v)" by simp
      from JsonObject.IH [OF k this n] show "json_between v w x"
        using json_between_tags [of v w x] by fastforce
    qed
    moreover have "\<forall>v \<in> snd ` set ms \<union> snd ` set ws \<union> snd ` set xs. no_nan v"
      using JsonObject.prems by (auto simp: bc)
    ultimately have "between_law members_less ms ws xs" by (intro members_between) (simp add: json_tri)
    then show ?case by (simp add: bc between_law_def json_less_same)
  next
    case (JsonString s)
    then obtain t u where "b = JsonString t" "c = JsonString u" by (cases b; cases c) simp_all
    then show ?case by (auto simp: between_law_def json_less_same)
  next
    case (JsonBoolean s)
    then obtain t u where "b = JsonBoolean t" "c = JsonBoolean u" by (cases b; cases c) simp_all
    then show ?case by (auto simp: between_law_def json_less_same)
  next
    case JsonNull
    then have "b = JsonNull" "c = JsonNull" by (cases b; cases c; simp)+
    then show ?case by (simp add: between_law_def json_less_same)
  qed (rule json_between_number; simp)+
qed (rule json_between_tags)

interpretation json_values: weak_order no_nan json_less json_eq
  using json_tri json_between by unfold_locales (simp_all add: tri_law_def between_law_def)

text \<open>C33: Where no NaN occurs the comparisons of values are those of an order with ties: \<open>==\<close> is
  an equivalence, exactly one of \<open>a < b\<close>, \<open>a == b\<close>, \<open>b < a\<close> holds, \<open><\<close> is transitive and cannot
  tell equal values apart, and the derived \<open><=\<close> is \<open><\<close> or \<open>==\<close>.\<close>

theorem json_order:
  assumes "no_nan a" and "no_nan b" and "no_nan c"
  shows "(json_less a b \<and> \<not> json_eq a b \<and> \<not> json_gt a b \<or> \<not> json_less a b \<and> json_eq a b \<and> \<not> json_gt a b
        \<or> \<not> json_less a b \<and> \<not> json_eq a b \<and> json_gt a b) \<and>
    (json_le a b \<longleftrightarrow> json_less a b \<or> json_eq a b) \<and> (json_le a b \<and> json_le b c \<longrightarrow> json_le a c) \<and>
    (json_eq a b \<longrightarrow> (json_eq b c \<longleftrightarrow> json_eq a c) \<and> (json_less b c \<longleftrightarrow> json_less a c) \<and>
       (json_less c b \<longleftrightarrow> json_less c a))"
  using json_values.less_asym [OF assms(1,2)] json_values.eq_iff [OF assms(1,2)]
    json_values.eq_iff [OF assms(2,3)] json_values.eq_iff [OF assms(1,3)]
    json_between [OF assms] unfolding json_le_def json_gt_def between_law_def by satx

lemma integers_collide:
  "json_eq (json_of_int64 (2 ^ 53)) (json_of_int64 (2 ^ 53 + 1))"
  "json_of_int64 (2 ^ 53) \<noteq> json_of_int64 (2 ^ 53 + 1)"
proof -
  have l: "ilog2 9007199254740992 = 53" "ilog2 9007199254740993 = 53" "ilog2 1 = 0"
    by (simp_all add: ilog2.simps [of "numeral n" for n] ilog2.simps [of 1])
  show "json_eq (json_of_int64 (2 ^ 53)) (json_of_int64 (2 ^ 53 + 1))"
    by (simp add: json_of_int64_def json_eq.simps dbl_of_int_def dbl_round_def floor_log2_def l
        scale_ratio_def round_half_even_def Let_def)
  show "json_of_int64 (2 ^ 53) \<noteq> json_of_int64 (2 ^ 53 + 1)"
    by (simp add: json_of_int64_def)
qed

section \<open>Reading back\<close>

lemma items_eq_as_parsed: "\<forall>v \<in> set vs. json_eq (as_parsed v) v \<Longrightarrow> items_eq (map as_parsed vs) vs"
  by (induction vs) simp_all

lemma members_eq_as_parsed:
  "\<forall>m \<in> set ms. json_eq (as_parsed (snd m)) (snd m) \<Longrightarrow> members_eq (map (\<lambda>m. (fst m, as_parsed (snd m))) ms) ms"
proof (induction ms)
  case (Cons m ms)
  then show ?case by (cases m) (simp add: members_eq_Cons)
qed simp

lemma json_eq_as_parsed: "no_doubles j \<Longrightarrow> json_eq (as_parsed j) j"
proof (induction j)
  case (JsonInt64 w)
  have "dbl_eq (number_value x) (number_value x)" if "no_nan x" for x
    using numbers.eq_refl no_nan_number [OF that] by simp
  from this [of "JsonInt64 w"] this [of "JsonUInt64 w"] show ?case
    using nonneg_sint [of w] by (simp add: json_eq_number)
next
  case (JsonUInt64 w)
  show ?case using json_values.eq_refl [of "JsonUInt64 w"] by simp
next
  case (JsonArray vs)
  then show ?case by (simp add: json_eq_same items_eq_as_parsed)
next
  case (JsonObject ms)
  have "json_eq (as_parsed (snd m)) (snd m)" if "m \<in> set ms" for m
    using JsonObject.IH [OF that, of "snd m"] JsonObject.prems that by (cases m) (simp add: prod_set_simps, force)
  then show ?case by (simp add: json_eq_same members_eq_as_parsed)
qed (simp_all add: json_eq_same)

text \<open>C15: \<open>Json::parse\<close> reads back what \<open>Json::dump\<close> prints, in both strategies, under three
  conditions: the value holds no floating-point number, it is nested at most \<open>max_depth\<close> deep, and
  the thread's \<open>errno\<close> is clear on entry. The value read is equal under \<open>operator==\<close>, and prints
  the same; it is the same value, except that a \<open>JsonInt64\<close> that is not negative comes back as a
  \<open>JsonUInt64\<close>. All input is consumed and \<open>err\<close> is left alone.\<close>

theorem parse_dump:
  assumes "json_wf j" and "no_doubles j" and "json_height j \<le> max_depth"
  shows "\<exists>j' p. parse strategy (dump j) err0 False = Some (j', p) \<and> \<not> failed p \<and> err p = err0 \<and>
    pos p = length (dump j) \<and> j' = as_parsed j \<and> json_eq j' j \<and> dump j' = dump j"
  using parse_dump_eq [OF assms] dump_as_parsed json_eq_as_parsed [OF assms(2)] by simp

theorem parse_dump_witness:
  "\<exists>j p. parse STANDARD (dump (JsonObject [(''a'', JsonArray [JsonInt64 (- 5), JsonInt64 7]), (''b'', JsonString [NULC, QUOTE])])) [] False =
     Some (j, p) \<and> j = JsonObject [(''a'', JsonArray [JsonInt64 (- 5), JsonUInt64 7]), (''b'', JsonString [NULC, QUOTE])] \<and>
     err p = []"
proof -
  let ?j = "JsonObject [(''a'', JsonArray [JsonInt64 (- 5), JsonInt64 7]), (''b'', JsonString [NULC, QUOTE])]"
  have "json_wf ?j" "no_doubles ?j" "json_height ?j \<le> max_depth" by (simp_all add: max_depth_def)
  from parse_dump [OF this, of STANDARD "[]"] show ?thesis by auto
qed

section \<open>Shapes\<close>

lemma first_bad_type_None:
  "first_bad_type j types = None \<longleftrightarrow> (\<forall>(k, t) \<in> set types. json_tag (at_key j k) = t)"
  by (induction types) (simp_all split: prod.splits)

lemma json_tag_at_key:
  "json_tag (at_key (JsonObject ms) k) = t \<longleftrightarrow>
   (case map_of ms k of Some v \<Rightarrow> json_tag v = t | None \<Rightarrow> t = NUL)"
  by (auto split: option.split)

lemma has_shape_True:
  "has_shape j types = (True, None) \<longleftrightarrow> json_tag j = OBJECT \<and> first_bad_type j types = None"
  by (simp add: has_shape_def split: option.split)

text \<open>C34: A value has a shape exactly when it is an object whose members have the listed types,
  where a member that is missing counts as one of type \<open>NUL\<close>; \<open>err\<close> is set exactly when it
  does not.\<close>

theorem has_shape_iff:
  "(has_shape j types = (True, None) \<longleftrightarrow>
     (\<exists>ms. j = JsonObject ms \<and>
        (\<forall>(k, t) \<in> set types. case map_of ms k of Some v \<Rightarrow> json_tag v = t | None \<Rightarrow> t = NUL))) \<and>
   (fst (has_shape j types) \<longleftrightarrow> snd (has_shape j types) = None)"
proof -
  have "fst (has_shape j types) \<longleftrightarrow> snd (has_shape j types) = None"
    by (simp add: has_shape_def split: option.split)
  moreover have "json_tag j = OBJECT \<longleftrightarrow> (\<exists>ms. j = JsonObject ms)" by (cases j) simp_all
  ultimately show ?thesis
    unfolding has_shape_True first_bad_type_None
    by (cases j) (simp_all add: json_tag_at_key case_prod_beta del: at_key.simps)
qed

section \<open>Witnesses\<close>

theorem has_shape_iff_witness:
  "has_shape (JsonObject [(''id'', JsonInt64 7), (''s'', JsonString ''x'')])
     [(''s'', STRING), (''id'', NUMBER), (''absent'', NUL)] = (True, None)"
  using has_shape_iff [of "JsonObject [(''id'', JsonInt64 7), (''s'', JsonString ''x'')]"
      "[(''s'', STRING), (''id'', NUMBER), (''absent'', NUL)]"]
  by simp

theorem json_order_witness:
  "json_le (JsonArray [JsonInt64 1, JsonString ''x'']) (JsonArray [JsonInt64 1, JsonString ''y'']) \<and>
   json_le (JsonArray [JsonInt64 1, JsonString ''x'']) (JsonObject [(''k'', JsonDouble (DInf True))])"
proof -
  let ?a = "JsonArray [JsonInt64 1, JsonString ''x'']"
  let ?b = "JsonArray [JsonInt64 1, JsonString ''y'']"
  let ?c = "JsonObject [(''k'', JsonDouble (DInf True))]"
  have n: "no_nan ?a" "no_nan ?b" "no_nan ?c" by simp_all
  have "json_eq (JsonInt64 1) (JsonInt64 1)" using json_values.eq_refl [of "JsonInt64 1"] by simp
  then have "\<not> json_less (JsonInt64 1) (JsonInt64 1)"
    using json_values.eq_iff [of "JsonInt64 1" "JsonInt64 1"] by simp
  then have "json_less ?a ?b" by (simp add: json_less_same items_less_Cons)
  moreover have "json_less ?b ?c" by (simp add: json_less_tags less_json_type_def)
  ultimately show ?thesis using json_order [OF n] json_order [OF n(2,3,3)] by satx
qed

end
