(* ===== verification/Pipelining.thy ===== *)
theory Pipelining
  imports Front_Conn_Facts
begin

text \<open>
  Two requests on one connection of \<open>front_conn.cpp\<close>: after an answer the body handler posts the
  write and at once the read of the next head, so a second request can be handled while the first
  answer is still being written. Both answers live in the one buffer \<open>p_write_\<close>.
\<close>

lemma reply_of_length:
  assumes "length content = length content'" and "length (date env) = length (date env')"
  shows "length (reply_of env content stat) = length (reply_of env' content' stat)"
  using assms by (simp add: reply_of_def reply_generate_def reply_headers_def add_header_def)

text \<open>C22: The handler of a second complete request may run before the write of the first answer
  completes, since the read of the next head is posted together with that write; it then overwrites
  the buffer the write still refers to. The dates being equally long, what the outstanding first
  write sends from there on is the second answer, which is sent again by the second write: the
  first answer is lost and the second is delivered twice.\<close>

theorem overlapping_answers:
  assumes "boost_spec (algo env)" and "boost_spec (algo env')" and "live c" and "request c = []"
    and "request_ok meth path hs (length body)" and "NULC \<notin> set body" and "body \<noteq> []"
    and "length body < 2 ^ 31" and "upper meth = ''POST''"
    and "request_ok meth' path' hs' (length body')" and "NULC \<notin> set body'" and "body' \<noteq> []"
    and "length body' < 2 ^ 31" and "upper meth' = ''POST''"
    and "(upper path, page) \<in> {(''/AA'', ''aa''), (''/CC'', ''cc'')}"
    and "(upper path', page') \<in> {(''/AA'', ''aa''), (''/CC'', ''cc'')}"
    and "length (date env) < 2 ^ 60" and "length (date env') = length (date env)"
  shows "\<exists>c1 w1 c2 w2.
      read_head_handler env NoError (head_size meth path hs)
        (receive_head (render_request meth path hs body) c) = Inr (c1, [w1, AsyncReadUntil]) \<and>
      write_bytes c1 w1 = reply_of env page Ok \<and>
      read_head_handler env' NoError (head_size meth' path' hs')
        (receive_head (render_request meth' path' hs' body') c1) = Inr (c2, [w2, AsyncReadUntil]) \<and>
      write_bytes c2 w1 = reply_of env' page' Ok \<and> write_bytes c2 w2 = reply_of env' page' Ok"
proof -
  define r where "r = reply_of env page Ok"
  define r' where "r' = reply_of env' page' Ok"
  have d': "length (date env') < 2 ^ 60" using assms(17,18) by simp
  have pages: "length page = 2" "length page' = 2" using assms(15,16) by auto
  have small: "length r < 2 ^ 62" "length r' < 2 ^ 62"
    unfolding r_def r'_def using reply_of_small [OF assms(17), of page Ok] reply_of_small [OF d', of page' Ok] pages
    by simp_all
  have same: "length r = length r'"
    unfolding r_def r'_def using pages assms(18) by (intro reply_of_length) simp_all
  obtain a where a: "live a" "request a = []"
    and h: "read_head_handler env NoError (head_size meth path hs) (receive_head (render_request meth path hs body) c) =
      Inr (touch_sock_time (now env) (filled r a), [AsyncWrite 0 (of_nat (length r)), AsyncReadUntil])"
    by (rule post_answered_state [OF assms(1,5-9,15,3,4,17), folded r_def]) (rule that; assumption)
  define c1 where "c1 = touch_sock_time (now env) (filled r a)"
  have c1: "live c1" "request c1 = []"
    using a by (simp_all add: c1_def) (simp add: touch_sock_time_def filled_def)
  obtain b where b: "live b"
    and h': "read_head_handler env' NoError (head_size meth' path' hs') (receive_head (render_request meth' path' hs' body') c1) =
      Inr (touch_sock_time (now env') (filled r' b), [AsyncWrite 0 (of_nat (length r')), AsyncReadUntil])"
    by (rule post_answered_state [OF assms(2,10-14,16) c1 d', folded r'_def]) (rule that; assumption)
  have "write_bytes c1 (AsyncWrite 0 (of_nat (length r))) = r"
    unfolding c1_def using filled_writes(2) [OF a(1) _ small(1)] by (simp add: r_def reply_of_nonempty)
  moreover have "write_bytes (touch_sock_time (now env') (filled r' b)) (AsyncWrite 0 (of_nat (length r'))) = r'"
    using filled_writes(2) [OF b _ small(2)] by (simp add: r'_def reply_of_nonempty)
  ultimately show ?thesis
    using h h' unfolding c1_def [symmetric] r_def [symmetric] r'_def [symmetric] same by blast
qed

theorem overlapping_answers_witness:
  "\<exists>c1 w1 c2 w2.
     read_head_handler (example_env []) NoError
       (head_size ''post'' ''/Aa'' [(''content-type'', ''text/json''), (''Content-Length'', show_nat 2)])
       (receive_head (render_request ''post'' ''/Aa''
          [(''content-type'', ''text/json''), (''Content-Length'', show_nat 2)] ''hi'') example_conn)
       = Inr (c1, [w1, AsyncReadUntil]) \<and>
     write_bytes c1 w1 = reply_of (example_env []) ''aa'' Ok \<and>
     read_head_handler (example_env []) NoError (head_size ''POST'' ''/cc'' [(''Content-Length'', show_nat 2)])
       (receive_head (render_request ''POST'' ''/cc'' [(''Content-Length'', show_nat 2)] ''yo'') c1)
       = Inr (c2, [w2, AsyncReadUntil]) \<and>
     write_bytes c2 w1 = reply_of (example_env []) ''cc'' Ok"
proof -
  have u: "upper ''post'' = ''POST''" "upper ''POST'' = ''POST''" "upper ''/Aa'' = ''/AA''" "upper ''/cc'' = ''/CC''"
    by code_simp+
  have k: "request_ok ''POST'' ''/cc'' [(''Content-Length'', show_nat 2)] 2" by code_simp
  show ?thesis
    using overlapping_answers [of "example_env []" "example_env []" example_conn
        "''post''" "''/Aa''" "[(''content-type'', ''text/json''), (''Content-Length'', show_nat 2)]" "''hi''"
        "''POST''" "''/cc''" "[(''Content-Length'', show_nat 2)]" "''yo''" "''aa''" "''cc''"]
      example_request_ok(1) k ref_boost_spec u
    by (simp add: numeral_2_eq_2 [symmetric]) blast
qed

end
