(* ===== verification/Startup.thy ===== *)
theory Startup
  imports System
begin

text \<open>
  \<open>main.cpp\<close>, the global \<open>objects\<close> of \<open>general.hpp\<close>, and the constructors and \<open>run\<close> functions of
  the three objects \<open>main\<close> creates: what exists when, which pointers each thread copies and which
  assertions it makes about them. The four threads may start in any order. System calls that may
  fail (binding the two ports, installing the signal disposition) are arguments; creating a thread
  is assumed to succeed.
\<close>

section \<open>The global objects\<close>

record worker =
  worker_http :: bool               \<comment> \<open>\<open>http_\<close> is set\<close>
  wheel_timer :: "u64 option"       \<comment> \<open>the seconds \<open>timing_wheel_timer_\<close> was armed with\<close>
  signal_wait :: bool               \<comment> \<open>an asynchronous wait for \<open>SIGTERM\<close> is outstanding\<close>

record front_server =
  registry :: server
  concurr_sz :: u64
  accepting :: bool                 \<comment> \<open>an \<open>async_accept\<close> is outstanding\<close>
  fast_backend :: bool              \<comment> \<open>\<open>backend_\<close> is set\<close>
  pool :: nat                       \<comment> \<open>threads that run the \<open>io_service\<close>\<close>

record back_server =
  conns :: backend_conns
  back_accepting :: bool
  check_timer :: "nat option"
  fast_http :: bool                 \<comment> \<open>\<open>http_\<close> is set\<close>
  back_running :: bool

text \<open>\<open>all_daemons\<close>; a pointer that is still null is \<open>None\<close>.\<close>

record daemons =
  http_server_p :: "front_server option"
  backend_server_p :: "back_server option"
  co_worker_p :: "worker option"

definition all_daemons :: daemons where
  "all_daemons = \<lparr> http_server_p = None, backend_server_p = None, co_worker_p = None \<rparr>"

section \<open>Constructors\<close>

text \<open>\<open>bound\<close>: the acceptor could be opened on its port; otherwise its constructor throws.\<close>

definition new_http_server :: "bool \<Rightarrow> u64 \<Rightarrow> u64 \<Rightarrow> front_server result" where
  "new_http_server bound c_cz garbage =
     rbind (require bound SystemError) (\<lambda>_.
     Inr \<lparr> registry = new_server garbage, concurr_sz = c_cz * 2, accepting = True, fast_backend = False, pool = 0 \<rparr>)"

definition backend_check_interval :: nat where
  "backend_check_interval = 5"

definition new_backend_server :: "bool \<Rightarrow> back_server result" where
  "new_backend_server bound =
     rbind (require bound SystemError) (\<lambda>_.
     Inr \<lparr> conns = [], back_accepting = True, check_timer = Some backend_check_interval, fast_http = False,
           back_running = False \<rparr>)"

definition new_co_worker :: worker where
  "new_co_worker = \<lparr> worker_http = False, wheel_timer = None, signal_wait = True \<rparr>"

text \<open>\<open>co_worker::signal_handler\<close>: the completed wait is over, the handler waits again.\<close>

definition signal_handler :: "worker \<Rightarrow> worker" where
  "signal_handler w = (w\<lparr>signal_wait := False\<rparr>)\<lparr>signal_wait := True\<rparr>"

section \<open>The four threads\<close>

definition http_run :: "daemons \<Rightarrow> daemons result" where
  "http_run d =
     (case http_server_p d of
        None \<Rightarrow> Inl NullPointer
      | Some h \<Rightarrow>
          let h = h\<lparr>registry := fill_wheel (registry h), fast_backend := backend_server_p d \<noteq> None\<rparr> in
          rbind (require (fast_backend h) AssertFailed) (\<lambda>_.
          Inr (d\<lparr>http_server_p := Some (h\<lparr>pool := unat (concurr_sz h)\<rparr>)\<rparr>)))"

definition backend_run :: "daemons \<Rightarrow> daemons result" where
  "backend_run d =
     (case backend_server_p d of
        None \<Rightarrow> Inl NullPointer
      | Some b \<Rightarrow>
          let b = b\<lparr>fast_http := http_server_p d \<noteq> None\<rparr> in
          rbind (require (fast_http b) AssertFailed) (\<lambda>_.
          Inr (d\<lparr>backend_server_p := Some (b\<lparr>back_running := True\<rparr>)\<rparr>)))"

definition co_worker_run :: "daemons \<Rightarrow> daemons result" where
  "co_worker_run d =
     (case co_worker_p d of
        None \<Rightarrow> Inl NullPointer
      | Some w \<Rightarrow>
          (case http_server_p d of
             None \<Rightarrow> Inl AssertFailed
           | Some h \<Rightarrow>
               rbind (get_conn_check_spare (registry h)) (\<lambda>spare.
               Inr (d\<lparr>co_worker_p := Some (w\<lparr>worker_http := True, wheel_timer := Some spare\<rparr>)\<rparr>))))"

text \<open>The manage thread copies both pointers and waits on the first at once.\<close>

definition manage_start :: "daemons \<Rightarrow> daemons result" where
  "manage_start d =
     rbind (require (http_server_p d \<noteq> None \<and> backend_server_p d \<noteq> None) NullPointer) (\<lambda>_. Inr d)"

datatype main_thread = Front_Thread | Backend_Thread | Worker_Thread | Manage_Thread

fun thread_body :: "main_thread \<Rightarrow> daemons \<Rightarrow> daemons result" where
  "thread_body Front_Thread = http_run"
| "thread_body Backend_Thread = backend_run"
| "thread_body Worker_Thread = co_worker_run"
| "thread_body Manage_Thread = manage_start"

section \<open>The main function\<close>

text \<open>Up to the creation of the threads, with the outcomes of the system calls.\<close>

record outside =
  sigpipe_ignored :: bool
  hardware_concurrency :: u64
  front_bound :: bool
  back_bound :: bool
  nofile_limit :: "u64 option"
  uninitialised :: u64

definition main_objects :: "outside \<Rightarrow> daemons result" where
  "main_objects w =
     rbind (new_http_server (front_bound w) (hardware_concurrency w) (uninitialised w)) (\<lambda>h.
     let h = h\<lparr>registry := set_conn_expired_time 20 (snd (set_max_serve_conns_cnt (nofile_limit w) 100 (registry h)))\<rparr>;
         d = all_daemons\<lparr>http_server_p := Some h\<rparr> in
     rbind (new_backend_server (back_bound w)) (\<lambda>b.
     Inr (d\<lparr>backend_server_p := Some b, co_worker_p := Some new_co_worker\<rparr>)))"

text \<open>The threads, in the order in which they get to run.\<close>

fun start_threads :: "main_thread list \<Rightarrow> daemons \<Rightarrow> daemons result" where
  "start_threads [] d = Inr d"
| "start_threads (t # ts) d = rbind (thread_body t d) (start_threads ts)"

text \<open>\<open>None\<close>: the exception was caught, and \<open>main\<close> returns 0.\<close>

definition main_start :: "outside \<Rightarrow> main_thread list \<Rightarrow> daemons option result" where
  "main_start w order =
     rbind (require (sigpipe_ignored w) AssertFailed) (\<lambda>_.
     case main_objects w of
       Inl SystemError \<Rightarrow> Inr None
     | Inl f \<Rightarrow> Inl f
     | Inr d \<Rightarrow> rbind (start_threads order d) (\<lambda>d. Inr (Some d)))"

section \<open>Starting in any order\<close>

text \<open>The objects after the threads in \<open>T\<close> have started.\<close>

definition started :: "outside \<Rightarrow> main_thread set \<Rightarrow> daemons" where
  "started w T =
     \<lparr> http_server_p = Some
         \<lparr> registry = (if Front_Thread \<in> T then configured (nofile_limit w) (uninitialised w)
             else set_conn_expired_time 20 (snd (set_max_serve_conns_cnt (nofile_limit w) 100
                    (new_server (uninitialised w))))),
           concurr_sz = hardware_concurrency w * 2, accepting = True, fast_backend = Front_Thread \<in> T,
           pool = (if Front_Thread \<in> T then unat (hardware_concurrency w * 2) else 0) \<rparr>,
       backend_server_p = Some
         \<lparr> conns = [], back_accepting = True, check_timer = Some backend_check_interval,
           fast_http = Backend_Thread \<in> T, back_running = Backend_Thread \<in> T \<rparr>,
       co_worker_p = Some
         \<lparr> worker_http = Worker_Thread \<in> T, wheel_timer = (if Worker_Thread \<in> T then Some 2 else None),
           signal_wait = True \<rparr> \<rparr>"

lemma expired_time_start: "conn_expired_time (set_conn_expired_time 20 s) = 20"
  by (simp add: set_conn_expired_time_def wheel_capacity_def)

lemma spare_start: "conn_expired_time s = 20 \<Longrightarrow> get_conn_check_spare s = Inr 2"
  by (simp add: get_conn_check_spare_def wheel_capacity_def)

lemma expired_time_configured: "conn_expired_time (configured rlimit garbage) = 20"
  by (simp add: configured_eq)

lemma thread_starts:
  assumes "t \<notin> T"
  shows "thread_body t (started w T) = Inr (started w (insert t T))"
proof (cases t)
  case Front_Thread
  with assms show ?thesis by (simp add: http_run_def started_def configured_def Let_def)
next
  case Backend_Thread
  with assms show ?thesis by (simp add: backend_run_def started_def Let_def)
next
  case Worker_Thread
  have "get_conn_check_spare (registry (the (http_server_p (started w T)))) = Inr 2"
    by (rule spare_start) (simp add: started_def expired_time_configured expired_time_start)
  with Worker_Thread assms show ?thesis by (simp add: co_worker_run_def started_def)
next
  case Manage_Thread
  then show ?thesis by (simp add: manage_start_def started_def)
qed

lemma threads_start:
  "distinct order \<Longrightarrow> set order \<inter> T = {} \<Longrightarrow>
   start_threads order (started w T) = Inr (started w (set order \<union> T))"
  by (induction order arbitrary: T) (simp_all add: thread_starts)

lemma objects_created:
  "front_bound w \<Longrightarrow> back_bound w \<Longrightarrow> main_objects w = Inr (started w {})"
  by (simp add: main_objects_def new_http_server_def new_backend_server_def started_def Let_def
      all_daemons_def new_co_worker_def)

text \<open>C30: In whatever order the four threads get to run, none of their assertions fails and no
  null pointer is used, since \<open>main\<close> creates the objects and makes its two settings before it
  starts a thread. Afterwards the registry and the backends are in the initial state of the step
  relation, both fast pointers are set, the wheel's timer is armed with two seconds and the pool
  has twice as many threads as the hardware reports. When a port cannot be bound no thread is
  started and \<open>main\<close> returns.\<close>

theorem startup_any_order:
  assumes "sigpipe_ignored w" and "distinct order"
    and "set order = {Front_Thread, Backend_Thread, Worker_Thread, Manage_Thread}"
  shows "(front_bound w \<and> back_bound w \<longrightarrow>
      (\<exists>d h b k. main_start w order = Inr (Some d) \<and>
        http_server_p d = Some h \<and> backend_server_p d = Some b \<and> co_worker_p d = Some k \<and>
        \<lparr> srv = registry h, backends = conns b, starting = None \<rparr> = initial (nofile_limit w) (uninitialised w) \<and>
        fast_backend h \<and> fast_http b \<and> worker_http k \<and> wheel_timer k = Some 2 \<and>
        pool h = unat (2 * hardware_concurrency w))) \<and>
    (\<not> (front_bound w \<and> back_bound w) \<longrightarrow> main_start w order = Inr None)"
proof (intro conjI impI)
  assume "front_bound w \<and> back_bound w"
  then have "main_start w order = Inr (Some (started w (set order)))"
    using assms(1) threads_start [OF assms(2), of "{}" w] by (simp add: main_start_def objects_created)
  then show "\<exists>d h b k. main_start w order = Inr (Some d) \<and>
        http_server_p d = Some h \<and> backend_server_p d = Some b \<and> co_worker_p d = Some k \<and>
        \<lparr> srv = registry h, backends = conns b, starting = None \<rparr> = initial (nofile_limit w) (uninitialised w) \<and>
        fast_backend h \<and> fast_http b \<and> worker_http k \<and> wheel_timer k = Some 2 \<and>
        pool h = unat (2 * hardware_concurrency w)"
    by (simp add: started_def assms(3) initial_def mult.commute)
next
  assume "\<not> (front_bound w \<and> back_bound w)"
  then show "main_start w order = Inr None" using assms(1)
    by (cases "front_bound w")
      (simp_all add: main_start_def main_objects_def new_http_server_def new_backend_server_def Let_def)
qed

text \<open>\<open>hardware_concurrency\<close> may return 0 when the number is not known: then nobody serves.\<close>

lemma no_cores_no_service:
  assumes "sigpipe_ignored w" and "front_bound w" and "back_bound w" and "hardware_concurrency w = 0"
  shows "\<exists>d h. main_start w [Front_Thread, Backend_Thread, Worker_Thread, Manage_Thread] = Inr (Some d) \<and>
    http_server_p d = Some h \<and> accepting h \<and> pool h = 0"
  using threads_start [of "[Front_Thread, Backend_Thread, Worker_Thread, Manage_Thread]" "{}" w] assms
  by (simp add: main_start_def objects_created) (simp add: started_def)

section \<open>Witness\<close>

definition example_outside :: outside where
  "example_outside = \<lparr> sigpipe_ignored = True, hardware_concurrency = 4, front_bound = True, back_bound = True,
     nofile_limit = Some 1024, uninitialised = 77 \<rparr>"

theorem startup_any_order_witness:
  "\<exists>d h. main_start example_outside [Worker_Thread, Manage_Thread, Backend_Thread, Front_Thread] = Inr (Some d) \<and>
     http_server_p d = Some h \<and> pool h = 8 \<and> fast_backend h"
proof -
  have "sigpipe_ignored example_outside"
    "distinct [Worker_Thread, Manage_Thread, Backend_Thread, Front_Thread]"
    "set [Worker_Thread, Manage_Thread, Backend_Thread, Front_Thread] =
      {Front_Thread, Backend_Thread, Worker_Thread, Manage_Thread}"
    by (auto simp: example_outside_def)
  from startup_any_order [OF this] show ?thesis by (auto simp: example_outside_def)
qed

end
