(* ===== verification/Interleaving.thy ===== *)
theory Interleaving
  imports System_Facts
begin

text \<open>
  The two helper threads in smaller steps, between which the handlers and the other thread may
  run. The co-worker copies the first bucket, looks at one element at a time without a lock,
  notifies, and appends the new bucket under \<open>front_conns_mutex_\<close>. The manage thread waits on the
  condition variable with a time limit, and removes connections one by one, each in up to three
  steps, while it holds both mutexes. A handler that queues its connection notifies afterwards, in
  a step of its own; a notification that nobody waits for is lost.
\<close>

section \<open>States of the two threads\<close>

record wheel_scan =
  todo :: "nat list"            \<comment> \<open>elements of \<open>timing_wheel_[0]\<close> not looked at yet\<close>
  front_modi :: "nat list"
  notify_flag :: bool

datatype manage_state =
    Waiting                     \<comment> \<open>in \<open>timed_wait\<close>\<close>
  | Woken                       \<comment> \<open>\<open>timed_wait\<close> has returned true\<close>
  | Removing "nat list"         \<comment> \<open>the elements of \<open>pending_to_remove_\<close> still to be visited\<close>
  | Washing nat "nat list"      \<comment> \<open>before \<open>conn_wash_white\<close>\<close>
  | Caching nat "nat list"      \<comment> \<open>before \<open>cached_conns_.push_back\<close>\<close>
  | Away                        \<comment> \<open>between two rounds of the loop, without a lock\<close>

record machine =
  sys :: system
  owed :: nat                   \<comment> \<open>handlers that have queued a connection and not yet notified\<close>
  scan :: "wheel_scan option"
  manage :: manage_state

text \<open>The manage thread holds \<open>conn_notify_mutex\<close> and \<open>front_conns_mutex_\<close>.\<close>

fun locked :: "manage_state \<Rightarrow> bool" where
  "locked (Removing items) = True"
| "locked (Washing item items) = True"
| "locked (Caching item items) = True"
| "locked _ = False"

section \<open>Handlers\<close>

text \<open>Whether the event's handler calls \<open>notify_conn_error\<close>.\<close>

definition asks_removal :: "'s env \<Rightarrow> event \<Rightarrow> system \<Rightarrow> bool" where
  "asks_removal env e S =
     (case completion env e of
        None \<Rightarrow> False
      | Some (p, f) \<Rightarrow>
          (case complete p f (srv S) of Inl _ \<Rightarrow> False | Inr (s, acts) \<Rightarrow> NotifyRemove \<in> set acts))"

text \<open>Whether a backend's message is passed to \<open>request_connection\<close>, which locks the registry.\<close>

definition asks_connection :: "'s env \<Rightarrow> nat \<Rightarrow> error_code \<Rightarrow> string \<Rightarrow> system \<Rightarrow> bool" where
  "asks_connection env i ec bytes S =
     (case rbind (receive_some bytes (backends S ! i))
             (backend_read_handler (now env) (stale_errno env) ec (length bytes)) of
        Inl _ \<Rightarrow> False
      | Inr (c, acts) \<Rightarrow>
          list_ex (\<lambda>a. case a of PushFront session_id dat len \<Rightarrow> session_id \<noteq> 0 \<and> len \<noteq> 0 | _ \<Rightarrow> False) acts)"

text \<open>The handlers that need a mutex the manage thread may hold. The acceptor locks the registry
  after its guards.\<close>

definition needs_lock :: "'s env \<Rightarrow> event \<Rightarrow> system \<Rightarrow> bool" where
  "needs_lock env e S \<longleftrightarrow>
     (case e of
        Accept ec peer _ _ \<Rightarrow> \<not> ec \<and> peer \<and> current_conns_cnt (srv S) < max_serve_conns_cnt (srv S)
      | BackendRead i ec bytes \<Rightarrow> asks_connection env i ec bytes S
      | _ \<Rightarrow> asks_removal env e S)"

definition run_event :: "'s env \<Rightarrow> event \<Rightarrow> machine \<Rightarrow> machine result" where
  "run_event env e m =
     rbind (handle env e (sys m)) (\<lambda>S.
     Inr (m\<lparr>sys := S, owed := owed m + (if asks_removal env e (sys m) then 1 else 0)\<rparr>))"

text \<open>\<open>conn_notify.notify_one ()\<close>.\<close>

definition notify_one :: "machine \<Rightarrow> machine" where
  "notify_one m = (case manage m of Waiting \<Rightarrow> m\<lparr>manage := Woken\<rparr> | _ \<Rightarrow> m)"

definition with_srv :: "server \<Rightarrow> machine \<Rightarrow> machine" where
  "with_srv s m = m\<lparr>sys := (sys m)\<lparr>srv := s\<rparr>\<rparr>"

section \<open>The co-worker\<close>

definition scan_start :: "machine \<Rightarrow> machine result" where
  "scan_start m =
     rbind (require (timing_wheel (srv (sys m)) \<noteq> []) OutOfBounds) (\<lambda>_.
     let bucket = hd (timing_wheel (srv (sys m))) in
     Inr (m\<lparr>scan := Some \<lparr> todo = bucket, front_modi = bucket, notify_flag = False \<rparr>\<rparr>))"

text \<open>One round of the loop on the element \<open>item\<close>.\<close>

definition visit :: "'s env \<Rightarrow> wheel_scan \<Rightarrow> nat \<Rightarrow> server \<Rightarrow> check_state result" where
  "visit env sc item s =
     rbind (get_conn_check_spare s) (\<lambda>spare.
     wheel_check_item (now env) spare item (s, front_modi sc, notify_flag sc, []))"

definition scan_item :: "'s env \<Rightarrow> wheel_scan \<Rightarrow> nat \<Rightarrow> nat list \<Rightarrow> machine \<Rightarrow> machine result" where
  "scan_item env sc item items m =
     rbind (visit env sc item (srv (sys m))) (\<lambda>(s, modi, flag, acts).
     Inr ((with_srv s m)\<lparr>scan := Some \<lparr> todo = items, front_modi = modi, notify_flag = flag \<rparr>\<rparr>))"

text \<open>Whether that round calls \<open>push_to_remove\<close>, which takes \<open>conn_notify_mutex\<close>.\<close>

definition queues_item :: "'s env \<Rightarrow> wheel_scan \<Rightarrow> nat \<Rightarrow> server \<Rightarrow> bool" where
  "queues_item env sc item s =
     (case visit env (sc\<lparr>notify_flag := False\<rparr>) item s of Inl _ \<Rightarrow> False | Inr (s, modi, flag, acts) \<Rightarrow> flag)"

definition scan_notify :: "wheel_scan \<Rightarrow> machine \<Rightarrow> machine" where
  "scan_notify sc m = notify_one (m\<lparr>scan := Some (sc\<lparr>notify_flag := False\<rparr>)\<rparr>)"

definition scan_push :: "wheel_scan \<Rightarrow> machine \<Rightarrow> machine" where
  "scan_push sc m =
     (let s = srv (sys m)
      in (with_srv (s\<lparr>timing_wheel := wheel_push (front_modi sc) (timing_wheel s)\<rparr>) m)\<lparr>scan := None\<rparr>)"

section \<open>The manage thread\<close>

definition begin_removal :: "machine \<Rightarrow> machine" where
  "begin_removal m =
     m\<lparr>manage := (if pending_to_remove (srv (sys m)) = [] then Away
                  else Removing (pending_to_remove (srv (sys m))))\<rparr>"

text \<open>The part of a round before the connection is washed.\<close>

definition remove_one :: "nat \<Rightarrow> nat list \<Rightarrow> machine \<Rightarrow> machine result" where
  "remove_one item items m =
     (let s = srv (sys m) in
      if item \<in> fst ` set (front_conns s) then
        rbind (if 2 < use_count s item then wheel_back_insert item s else Inr s) (\<lambda>s.
        let s = s\<lparr>front_conns := map_erase item (front_conns s), current_conns_cnt := current_conns_cnt s - 1\<rparr> in
        rbind (cache_limit s) (\<lambda>limit.
        Inr ((with_srv s m)\<lparr>manage := (if of_nat (length (cached_conns s)) < limit then Washing item items
                                       else Removing items)\<rparr>)))
      else Inr (m\<lparr>manage := Removing items\<rparr>))"

definition wash_one :: "nat \<Rightarrow> nat list \<Rightarrow> machine \<Rightarrow> machine result" where
  "wash_one item items m =
     (let s = srv (sys m) in
      rbind (conn_wash_white (objects s item)) (\<lambda>c.
      Inr ((with_srv (s\<lparr>objects := (objects s)(item := c)\<rparr>) m)\<lparr>manage := Caching item items\<rparr>)))"

definition cache_one :: "nat \<Rightarrow> nat list \<Rightarrow> machine \<Rightarrow> machine" where
  "cache_one item items m =
     (let s = srv (sys m)
      in (with_srv (s\<lparr>cached_conns := cached_conns s @ [item]\<rparr>) m)\<lparr>manage := Removing items\<rparr>)"

definition finish_removal :: "machine \<Rightarrow> machine result" where
  "finish_removal m =
     (let s = (srv (sys m))\<lparr>pending_to_remove := []\<rparr> in
      rbind (require (of_nat (length (front_conns s)) = current_conns_cnt s) AssertFailed) (\<lambda>_.
      Inr ((with_srv s m)\<lparr>manage := Away\<rparr>)))"

section \<open>Moves\<close>

datatype move =
    Run event
  | Notify | ScanStart | ScanItem | ScanNotify | ScanPush
  | Wake | TimeOut | BeginRemoval | RemoveOne | WashOne | CacheOne | FinishRemoval | WaitAgain

text \<open>What a move does.\<close>

fun act :: "'s env \<Rightarrow> move \<Rightarrow> machine \<Rightarrow> machine result" where
  "act env (Run e) m = run_event env e m"
| "act env Notify m = Inr (notify_one (m\<lparr>owed := owed m - 1\<rparr>))"
| "act env ScanStart m = scan_start m"
| "act env ScanItem m =
     (case scan m of
        Some sc \<Rightarrow> (case todo sc of item # items \<Rightarrow> scan_item env sc item items m | [] \<Rightarrow> Inr m)
      | None \<Rightarrow> Inr m)"
| "act env ScanNotify m = (case scan m of Some sc \<Rightarrow> Inr (scan_notify sc m) | None \<Rightarrow> Inr m)"
| "act env ScanPush m = (case scan m of Some sc \<Rightarrow> Inr (scan_push sc m) | None \<Rightarrow> Inr m)"
| "act env Wake m = Inr (m\<lparr>manage := Woken\<rparr>)"
| "act env TimeOut m = Inr (m\<lparr>manage := Away\<rparr>)"
| "act env BeginRemoval m = Inr (begin_removal m)"
| "act env RemoveOne m =
     (case manage m of Removing (item # items) \<Rightarrow> remove_one item items m | _ \<Rightarrow> Inr m)"
| "act env WashOne m = (case manage m of Washing item items \<Rightarrow> wash_one item items m | _ \<Rightarrow> Inr m)"
| "act env CacheOne m = (case manage m of Caching item items \<Rightarrow> Inr (cache_one item items m) | _ \<Rightarrow> Inr m)"
| "act env FinishRemoval m = finish_removal m"
| "act env WaitAgain m = Inr (m\<lparr>manage := Waiting\<rparr>)"

text \<open>When it can happen. The events \<open>WheelTurn\<close> and \<open>Managed\<close> are what the other moves replace.\<close>

fun can :: "'s env \<Rightarrow> machine \<Rightarrow> move \<Rightarrow> bool" where
  "can env m (Run e) \<longleftrightarrow> enabled (sys m) e \<and> e \<noteq> WheelTurn \<and> e \<noteq> Managed \<and>
     (locked (manage m) \<longrightarrow> \<not> needs_lock env e (sys m))"
| "can env m Notify \<longleftrightarrow> 0 < owed m"
| "can env m ScanStart \<longleftrightarrow> scan m = None"
| "can env m ScanItem \<longleftrightarrow>
     (case scan m of
        Some sc \<Rightarrow> (case todo sc of
            item # items \<Rightarrow> locked (manage m) \<longrightarrow> \<not> queues_item env sc item (srv (sys m))
          | [] \<Rightarrow> False)
      | None \<Rightarrow> False)"
| "can env m ScanNotify \<longleftrightarrow> (case scan m of Some sc \<Rightarrow> todo sc = [] \<and> notify_flag sc | None \<Rightarrow> False)"
| "can env m ScanPush \<longleftrightarrow>
     (case scan m of Some sc \<Rightarrow> todo sc = [] \<and> \<not> notify_flag sc \<and> \<not> locked (manage m) | None \<Rightarrow> False)"
| "can env m Wake \<longleftrightarrow> manage m = Waiting"
| "can env m TimeOut \<longleftrightarrow> manage m = Waiting"
| "can env m BeginRemoval \<longleftrightarrow> manage m = Woken"
| "can env m RemoveOne \<longleftrightarrow> (\<exists>item items. manage m = Removing (item # items))"
| "can env m WashOne \<longleftrightarrow> (\<exists>item items. manage m = Washing item items)"
| "can env m CacheOne \<longleftrightarrow> (\<exists>item items. manage m = Caching item items)"
| "can env m FinishRemoval \<longleftrightarrow> manage m = Removing []"
| "can env m WaitAgain \<longleftrightarrow> manage m = Away"

inductive machine_step :: "'s env \<Rightarrow> machine \<Rightarrow> move \<Rightarrow> machine \<Rightarrow> bool" where
  machine_step: "can env m a \<Longrightarrow> act env a m = Inr m' \<Longrightarrow> machine_step env m a m'"

inductive_cases machine_stepE: "machine_step env m a m'"

definition machine_start :: "u64 option \<Rightarrow> u64 \<Rightarrow> machine" where
  "machine_start rlimit garbage = \<lparr> sys = initial rlimit garbage, owed = 0, scan = None, manage = Away \<rparr>"

inductive machine_reachable :: "'s env set \<Rightarrow> machine \<Rightarrow> bool" for envs where
  start: "machine_reachable envs (machine_start rlimit garbage)"
| move: "machine_reachable envs m \<Longrightarrow> env \<in> envs \<Longrightarrow> machine_step env m a m' \<Longrightarrow> machine_reachable envs m'"

end
