(* ===== verification/Interleaving_Inv.thy ===== *)
theory Interleaving_Inv
  imports Interleaving
begin

text \<open>
  The invariant of the server holds between any two of the smaller steps: what the handlers leave
  alone, what the scan and the removal need of the state they work on, and one lemma per move.
\<close>

section \<open>The wheel's first bucket and the rest\<close>

definition rest_members :: "server \<Rightarrow> nat set" where
  "rest_members s = \<Union> (set ` set (tl (timing_wheel s)))"

lemma back_insert_rest:
  assumes "wheel_back_insert p s = Inr s'" and "length (timing_wheel s) = wheel_capacity"
  shows "hd (timing_wheel s') = hd (timing_wheel s)" and "rest_members s' = insert p (rest_members s)"
proof -
  from assms obtain b bs where w: "timing_wheel s = b # bs" and ne: "bs \<noteq> []"
    by (cases "timing_wheel s"; cases "tl (timing_wheel s)") (auto simp: wheel_capacity_def)
  have s': "timing_wheel s' = butlast (timing_wheel s) @ [set_insert p (last (timing_wheel s))]"
    using assms(1) w by (auto simp: wheel_back_insert_def)
  have "timing_wheel s' = b # butlast bs @ [set_insert p (last bs)]" using ne by (simp add: s' w)
  then show "hd (timing_wheel s') = hd (timing_wheel s)" "rest_members s' = insert p (rest_members s)"
    using members_butlast_last [OF ne, of p] by (simp_all add: rest_members_def w)
qed

lemma wheel_members_split: "timing_wheel s \<noteq> [] \<Longrightarrow> wheel_members s = set (hd (timing_wheel s)) \<union> rest_members s"
  by (cases "timing_wheel s") (auto simp: wheel_members_def rest_members_def)

section \<open>What a handler leaves alone\<close>

definition undisturbed :: "server \<Rightarrow> server \<Rightarrow> bool" where
  "undisturbed s s' \<longleftrightarrow> front_conns s' = front_conns s \<and> cached_conns s' = cached_conns s \<and>
     timing_wheel s' = timing_wheel s \<and> next_object s' = next_object s \<and>
     set (pending_to_remove s) \<subseteq> set (pending_to_remove s') \<and>
     (\<forall>p. dormant (objects s p) \<and> p \<notin> registered s \<longrightarrow> dormant (objects s' p))"

lemma undisturbed_refl [simp]: "undisturbed s s"
  by (simp add: undisturbed_def)

lemma complete_undisturbed:
  assumes op: "conn_operation f" and r: "complete p f s = Inr (s', acts)"
  shows "undisturbed s s' \<and> (NotifyRemove \<notin> set acts \<longrightarrow> pending_to_remove s' = pending_to_remove s)"
proof -
  define t where "t = s\<lparr>handlers := (handlers s)(p := handlers s p - 1)\<rparr>"
  have run: "run_on p f t = Inr (s', acts)" using r by (simp add: complete_def t_def)
  then obtain c where c: "f (objects t p) = Inr (c, acts)" and s': "s' = settle p c acts t"
    by (auto simp: run_on_def rbind_Inr_iff)
  have d: "dormant (objects s' p)" if "dormant (objects s p)"
    using conn_operation.run_on_dormant [OF op _ run] that by (simp add: t_def)
  have o: "objects s' q = objects s q" if "q \<noteq> p" for q using that by (simp add: s' keeps t_def)
  have "\<forall>q. dormant (objects s q) \<longrightarrow> dormant (objects s' q)" using d o by metis
  moreover have "NotifyRemove \<notin> set acts \<longrightarrow> pending_to_remove s' = pending_to_remove s"
    by (simp add: s' settle_def Let_def t_def)
  ultimately show ?thesis by (auto simp: undisturbed_def s' keeps t_def)
qed

lemma completion_srv:
  assumes "completion env e = Some (p, f)" and "handle env e S = Inr S'"
  obtains acts where "conn_operation f" "complete p f (srv S) = Inr (srv S', acts)"
    "asks_removal env e S \<longleftrightarrow> NotifyRemove \<in> set acts" "starting S' = starting S"
proof -
  from handle_completion [OF assms(1)] assms(2) have "front_event env p f S = Inr S'" and op: "conn_operation f" by auto
  then obtain acts where c: "complete p f (srv S) = Inr (srv S', acts)" and st: "starting S' = starting S"
    by (auto simp: front_event_def rbind_Inr_iff)
  then have "asks_removal env e S \<longleftrightarrow> NotifyRemove \<in> set acts" by (simp add: asks_removal_def assms(1))
  with that op c st show thesis by blast
qed

lemma event_undisturbed:
  assumes I: "sys_inv S" and en: "enabled S e" and h: "handle env e S = Inr S'"
    and e: "e \<noteq> WheelTurn" "e \<noteq> Managed" "\<forall>ec peer nd sock. e \<noteq> Accept ec peer nd sock"
  shows "undisturbed (srv S) (srv S') \<and>
    (\<not> asks_removal env e S \<longrightarrow> pending_to_remove (srv S') = pending_to_remove (srv S))"
proof (cases "completion env e")
  case (Some pf)
  obtain p f where pf: "pf = (p, f)" by (cases pf)
  obtain acts where "conn_operation f" "complete p f (srv S) = Inr (srv S', acts)"
    "asks_removal env e S \<longleftrightarrow> NotifyRemove \<in> set acts"
    by (rule completion_srv [OF Some [unfolded pf] h]) (rule that; assumption)
  with complete_undisturbed show ?thesis by blast
next
  case None
  then have a: "\<not> asks_removal env e S" by (simp add: asks_removal_def)
  have "undisturbed (srv S) (srv S') \<and> pending_to_remove (srv S') = pending_to_remove (srv S)"
  proof (cases e)
    case Start
    with en obtain p where p: "starting S = Some p" by auto
    with h Start obtain acts where r: "run_on p (front_start env) (srv S) = Inr (srv S', acts)"
      by (auto simp: rbind_Inr_iff)
    then obtain c where c: "front_start env (objects (srv S) p) = Inr (c, acts)" and s: "srv S' = settle p c acts (srv S)"
      by (auto simp: run_on_def rbind_Inr_iff)
    from c have n: "NotifyRemove \<notin> set acts"
      by (auto simp: front_start_def do_read_head_def post_def split: if_splits)
    have "p \<in> registered (srv S)" using I p by (simp add: sys_inv_def idle_new_def)
    then show ?thesis using n by (auto simp: undisturbed_def s keeps) (simp add: settle_def Let_def)
  next
    case (BackendRead i ec bytes)
    with h obtain s bs acts where b: "backward env acts (srv S) = Inr s" and S': "S' = S\<lparr>srv := s, backends := bs\<rparr>"
      by (auto simp: rbind_Inr_iff)
    have "s = srv S" using backward_zero [OF _ b] I by (simp add: sys_inv_def server_inv_def)
    then show ?thesis by (simp add: S')
  qed (use None h e in \<open>auto simp: rbind_Inr_iff\<close>)
  with a show ?thesis by simp
qed

lemma accept_effect:
  assumes I: "sys_inv S" and h: "handle env (Accept ec peer nd sock) S = Inr S'"
  shows "hd (timing_wheel (srv S')) = hd (timing_wheel (srv S)) \<and> rest_members (srv S) \<subseteq> rest_members (srv S') \<and>
    registered (srv S') \<subseteq> registered (srv S) \<union> rest_members (srv S') \<and>
    pending_to_remove (srv S') = pending_to_remove (srv S)"
proof -
  from h obtain r where a: "accept_conn env ec peer nd sock (srv S) = Inr (srv S', r)"
    by (auto simp: rbind_Inr_iff)
  have inv: "server_inv (set (pending_to_remove (srv S))) (srv S)" using I by (simp add: sys_inv_def)
  have l: "length (timing_wheel (srv S)) = wheel_capacity" using inv by (simp add: server_inv_def tracked_def)
  show ?thesis
  proof (cases r)
    case (Accepted_conn p)
    obtain t where w: "wheel_back_insert p t = Inr (srv S')" and t: "timing_wheel t = timing_wheel (srv S)"
      using a Accepted_conn
      by (auto simp: accept_conn_def rbind_Inr_iff Let_def split: if_splits list.splits)
    have "hd (timing_wheel (srv S')) = hd (timing_wheel (srv S))"
      "rest_members (srv S') = insert p (rest_members (srv S))"
      using back_insert_rest [OF w] t l by (simp_all add: rest_members_def)
    moreover have "registered (srv S') = insert p (registered (srv S))"
      "pending_to_remove (srv S') = pending_to_remove (srv S)"
      using accept_conn_effect [OF inv a [unfolded Accepted_conn]]
      by (simp_all add: registered_def fst_set_map_insert)
    ultimately show ?thesis by auto
  qed (use accept_conn_inv [OF inv a] in auto)
qed

lemma accept_registered:
  assumes "sys_inv S" and "handle env (Accept ec peer nd sock) S = Inr S'"
  shows "registered (srv S) \<subseteq> registered (srv S')"
proof -
  from assms(2) obtain r where a: "accept_conn env ec peer nd sock (srv S) = Inr (srv S', r)"
    by (auto simp: rbind_Inr_iff)
  have inv: "server_inv (set (pending_to_remove (srv S))) (srv S)" using assms(1) by (simp add: sys_inv_def)
  show ?thesis
  proof (cases r)
    case (Accepted_conn p)
    from accept_conn_effect [OF inv a [unfolded Accepted_conn]] show ?thesis
      by (auto simp: registered_def fst_set_map_insert)
  qed (use accept_conn_inv [OF inv a] in auto)
qed

section \<open>The invariant of the machine\<close>

text \<open>The scan: what is left of the bucket and of its copy, and that no registered connection is
  forgotten when the copy replaces the bucket.\<close>

fun scan_inv :: "wheel_scan option \<Rightarrow> server \<Rightarrow> bool" where
  "scan_inv None s \<longleftrightarrow> True"
| "scan_inv (Some sc) s \<longleftrightarrow>
     set (todo sc) \<subseteq> set (hd (timing_wheel s)) \<and> set (front_modi sc) \<subseteq> set (hd (timing_wheel s)) \<and>
     watched (rest_members s) (front_modi sc) s"

text \<open>What is still to be visited contains every registered connection that is queued.\<close>

definition visiting :: "nat list \<Rightarrow> server \<Rightarrow> bool" where
  "visiting items s \<longleftrightarrow> set items \<subseteq> set (pending_to_remove s) \<and>
     registered s \<inter> set (pending_to_remove s) \<subseteq> set items"

definition unplaced :: "nat \<Rightarrow> server \<Rightarrow> bool" where
  "unplaced item s \<longleftrightarrow> item \<in> set (pending_to_remove s) \<and> item \<notin> registered s \<and> item \<notin> set (cached_conns s) \<and>
     (\<forall>limit. cache_limit s = Inr limit \<longrightarrow> length (cached_conns s) < unat limit)"

fun manage_inv :: "manage_state \<Rightarrow> server \<Rightarrow> bool" where
  "manage_inv (Removing items) s \<longleftrightarrow> visiting items s"
| "manage_inv (Washing item items) s \<longleftrightarrow> visiting items s \<and> unplaced item s"
| "manage_inv (Caching item items) s \<longleftrightarrow> visiting items s \<and> unplaced item s \<and> dormant (objects s item)"
| "manage_inv _ s \<longleftrightarrow> True"

definition machine_inv :: "machine \<Rightarrow> bool" where
  "machine_inv m \<longleftrightarrow> sys_inv (sys m) \<and> settings_ok (sys m) \<and> scan_inv (scan m) (srv (sys m)) \<and>
     manage_inv (manage m) (srv (sys m))"

text \<open>The parts depend on the registry, the queue, the cache and the wheel only.\<close>

lemma scan_inv_mono:
  assumes "scan_inv sc s" and "hd (timing_wheel s') = hd (timing_wheel s)"
    and "registered s' \<subseteq> registered s \<union> rest_members s'" and "rest_members s \<subseteq> rest_members s'"
    and "set (pending_to_remove s) \<subseteq> set (pending_to_remove s')"
  shows "scan_inv sc s'"
  using assms by (cases sc) (auto simp: watched_def)

lemma manage_inv_unlocked: "\<not> locked g \<Longrightarrow> manage_inv g s"
  by (cases g) simp_all

lemma manage_inv_undisturbed:
  assumes "manage_inv g s" and u: "undisturbed s s'" and p: "pending_to_remove s' = pending_to_remove s"
    and l: "max_serve_conns_cnt s' = max_serve_conns_cnt s"
  shows "manage_inv g s'"
proof -
  have r: "registered s' = registered s" and c: "cached_conns s' = cached_conns s"
    using u by (simp_all add: undisturbed_def registered_def)
  have v: "visiting items s' = visiting items s" for items
    by (simp add: visiting_def r p)
  have q: "unplaced item s' = unplaced item s" for item
    by (simp add: unplaced_def r p c cache_limit_cong [OF l])
  have d: "dormant (objects s item) \<Longrightarrow> unplaced item s \<Longrightarrow> dormant (objects s' item)" for item
    using u by (simp add: undisturbed_def unplaced_def)
  show ?thesis using \<open>manage_inv g s\<close> d by (cases g) (auto simp: v q)
qed

section \<open>Every move keeps it\<close>

lemma run_event_inv:
  assumes I: "machine_inv m" and c: "can env m (Run e)" and r: "run_event env e m = Inr m'"
  shows "machine_inv m'"
proof -
  from r obtain S where h: "handle env e (sys m) = Inr S"
    and m': "m' = m\<lparr>sys := S, owed := owed m + (if asks_removal env e (sys m) then 1 else 0)\<rparr>"
    by (auto simp: run_event_def rbind_Inr_iff)
  from I c have si: "sys_inv (sys m)" and st: "settings_ok (sys m)" and sc: "scan_inv (scan m) (srv (sys m))" and mg: "manage_inv (manage m) (srv (sys m))"
    and en: "enabled (sys m) e" and e: "e \<noteq> WheelTurn" "e \<noteq> Managed"
    and lk: "locked (manage m) \<longrightarrow> \<not> needs_lock env e (sys m)"
    by (simp_all add: machine_inv_def)
  have same: "same_settings (srv (sys m)) (srv S)" by (rule handle_settings [OF h])
  have "settings_ok S" using st same by (simp add: settings_ok_def same_settings_def)
  moreover have "sys_inv S" by (rule sys_inv_kept [OF si en h])
  moreover have "scan_inv (scan m) (srv S) \<and> manage_inv (manage m) (srv S)"
  proof (cases "\<exists>ec peer nd sock. e = Accept ec peer nd sock")
    case True
    then obtain ec peer nd sock where a: "e = Accept ec peer nd sock" by blast
    from accept_effect [OF si h [unfolded a]] sc have "scan_inv (scan m) (srv S)"
      by (intro scan_inv_mono [OF sc]) simp_all
    moreover have "manage_inv (manage m) (srv S)"
    proof (cases "locked (manage m)")
      case True
      with lk have "ec \<or> \<not> peer \<or> max_serve_conns_cnt (srv (sys m)) \<le> current_conns_cnt (srv (sys m))"
        by (auto simp: a needs_lock_def)
      with h have "srv S = srv (sys m)" by (auto simp: a accept_conn_def split: if_splits)
      with mg show ?thesis by simp
    qed (simp add: manage_inv_unlocked)
    ultimately show ?thesis ..
  next
    case False
    then have na: "\<forall>ec peer nd sock. e \<noteq> Accept ec peer nd sock" by blast
    from event_undisturbed [OF si en h e na] have u: "undisturbed (srv (sys m)) (srv S)"
      and p: "\<not> asks_removal env e (sys m) \<longrightarrow> pending_to_remove (srv S) = pending_to_remove (srv (sys m))"
      by simp_all
    have "scan_inv (scan m) (srv S)" using u
      by (intro scan_inv_mono [OF sc]) (auto simp: undisturbed_def registered_def rest_members_def)
    moreover have "manage_inv (manage m) (srv S)"
    proof (cases "locked (manage m)")
      case True
      with lk na have "\<not> asks_removal env e (sys m)"
        by (auto simp: needs_lock_def asks_removal_def split: event.splits)
      with p same show ?thesis
        by (intro manage_inv_undisturbed [OF mg u]) (simp_all add: same_settings_def)
    qed (simp add: manage_inv_unlocked)
    ultimately show ?thesis by simp
  qed
  ultimately show ?thesis by (simp add: machine_inv_def m')
qed

lemma notify_one_inv: "machine_inv m \<Longrightarrow> machine_inv (notify_one m)"
  by (cases "manage m") (simp_all add: notify_one_def machine_inv_def)

lemma scan_start_inv:
  assumes I: "machine_inv m" and r: "scan_start m = Inr m'"
  shows "machine_inv m'"
proof -
  define s where "s = srv (sys m)"
  from r have ne: "timing_wheel s \<noteq> []" and m': "m' = m\<lparr>scan := Some
      \<lparr> todo = hd (timing_wheel s), front_modi = hd (timing_wheel s), notify_flag = False \<rparr>\<rparr>"
    by (auto simp: scan_start_def rbind_Inr_iff s_def Let_def)
  have "tracked (set (pending_to_remove s)) s" using I by (simp add: machine_inv_def sys_inv_def server_inv_def s_def)
  then have "watched (rest_members s) (hd (timing_wheel s)) s"
    using wheel_members_split [OF ne] by (auto simp: tracked_def watched_def)
  then show ?thesis using I by (simp add: machine_inv_def m' s_def)
qed

text \<open>The core of the invariant and what the check of an element keeps give it back.\<close>

lemma core_tracked: "server_inv Q s \<longleftrightarrow> core_inv s \<and> tracked Q s"
  by (auto simp: server_inv_def core_inv_def)

lemma visit_cases:
  assumes "visit env sc item s = Inr (s', modi, flag, acts)"
  obtains spare where "wheel_check_item (now env) spare item (s, front_modi sc, notify_flag sc, []) = Inr (s', modi, flag, acts)"
  using assms by (auto simp: visit_def rbind_Inr_iff)

text \<open>A visit that does not queue the element changes nothing but the copy of the bucket.\<close>

lemma visit_not_queued:
  assumes "visit env sc item s = Inr (s', modi, flag, acts)" and "\<not> queues_item env sc item s"
  shows "s' = s"
  using assms by (auto simp: queues_item_def visit_def rbind_Inr_iff wheel_check_item_def Let_def split: if_splits)

lemma idle_new_only_expires:
  assumes e: "only_expires s s'" and p: "idle_new s p"
  shows "idle_new s' p"
proof -
  from e have "objects s' p = objects s p \<or> stats (objects s p) \<noteq> conn_pending"
    "p \<in> set (pending_to_remove s') - set (pending_to_remove s) \<longrightarrow> stats (objects s p) \<noteq> conn_pending"
    "handlers s' = handlers s" "front_conns s' = front_conns s"
    unfolding only_expires_def by blast+
  with p show ?thesis by (auto simp: idle_new_def registered_def)
qed

lemma scan_item_inv:
  assumes I: "machine_inv m" and sc: "scan m = Some sc" and t: "todo sc = item # items"
    and lk: "locked (manage m) \<longrightarrow> \<not> queues_item env sc item (srv (sys m))"
    and r: "scan_item env sc item items m = Inr m'"
  shows "machine_inv m'"
proof -
  define s where "s = srv (sys m)"
  from r obtain s' modi flag acts where v: "visit env sc item s = Inr (s', modi, flag, acts)"
    and m': "m' = (with_srv s' m)\<lparr>scan := Some \<lparr> todo = items, front_modi = modi, notify_flag = flag \<rparr>\<rparr>"
    by (auto simp: scan_item_def rbind_Inr_iff s_def)
  obtain spare where c: "wheel_check_item (now env) spare item (s, front_modi sc, notify_flag sc, []) = Inr (s', modi, flag, acts)"
    by (rule visit_cases [OF v])
  have S: "sys_inv (sys m)" and st: "settings_ok (sys m)" and so: "scan_inv (Some sc) s"
    and mg: "manage_inv (manage m) s"
    using I sc by (simp_all add: machine_inv_def s_def)
  have inv: "server_inv (set (pending_to_remove s)) s" using S by (simp add: sys_inv_def s_def)
  then have core: "core_inv s" and tr: "tracked (set (pending_to_remove s)) s" by (simp_all add: core_tracked)
  have ne: "timing_wheel s \<noteq> []" using tr by (auto simp: tracked_def wheel_capacity_def)
  have sub: "set (todo sc) \<subseteq> set (hd (timing_wheel s))" "set (front_modi sc) \<subseteq> set (hd (timing_wheel s))"
    and w: "watched (rest_members s) (front_modi sc) s"
    using so by simp_all
  have "item \<in> wheel_members s" using sub(1) t wheel_members_split [OF ne] by auto
  then have lt: "item < next_object s" using core by (simp add: core_inv_def addresses_ok_def)
  from check_item [OF c core w lt] have e: "only_expires s s'" and core': "core_inv s'"
    and w': "watched (rest_members s) modi s'" and sm: "set modi \<subseteq> set (front_modi sc)"
    by simp_all
  have f: "timing_wheel s' = timing_wheel s" "max_serve_conns_cnt s' = max_serve_conns_cnt s"
    "conn_expired_time s' = conn_expired_time s" "registered s' = registered s" "cached_conns s' = cached_conns s"
    "set (pending_to_remove s) \<subseteq> set (pending_to_remove s')"
    using e by (simp_all add: only_expires_def registered_def)
  have "tracked (set (pending_to_remove s')) s'" using tr f by (auto simp: tracked_def wheel_members_def)
  with core' have "server_inv (set (pending_to_remove s')) s'" by (simp add: core_tracked)
  moreover have "\<forall>p. starting (sys m) = Some p \<longrightarrow> idle_new s' p"
    using S idle_new_only_expires [OF e] by (simp add: sys_inv_def s_def)
  ultimately have "sys_inv (sys m')" by (simp add: sys_inv_def m' with_srv_def)
  moreover have "settings_ok (sys m')" using st f by (simp add: settings_ok_def m' with_srv_def s_def)
  moreover have "scan_inv (scan m') s'" using sub t w' sm f by (auto simp: m' rest_members_def)
  moreover have "manage_inv (manage m) s'"
  proof (cases "locked (manage m)")
    case True
    with lk have "s' = s" using visit_not_queued [OF v] by (simp add: s_def)
    with mg show ?thesis by simp
  qed (simp add: manage_inv_unlocked)
  ultimately show ?thesis by (simp add: machine_inv_def m' with_srv_def)
qed

lemma machine_invI:
  assumes "server_inv (set (pending_to_remove s)) s" and "\<forall>p. starting S = Some p \<longrightarrow> idle_new s p"
    and "settings_ok (S\<lparr>srv := s\<rparr>)" and "scan_inv sc s" and "manage_inv g s"
  shows "machine_inv \<lparr> sys = S\<lparr>srv := s\<rparr>, owed = n, scan = sc, manage = g \<rparr>"
  using assms by (simp add: machine_inv_def sys_inv_def)

lemma machine_invD:
  assumes "machine_inv m"
  shows "server_inv (set (pending_to_remove (srv (sys m)))) (srv (sys m))"
    and "\<forall>p. starting (sys m) = Some p \<longrightarrow> idle_new (srv (sys m)) p"
    and "settings_ok (sys m)" and "scan_inv (scan m) (srv (sys m))" and "manage_inv (manage m) (srv (sys m))"
  using assms by (simp_all add: machine_inv_def sys_inv_def)

lemma scan_push_inv:
  assumes I: "machine_inv m" and sc: "scan m = Some sc" and lk: "\<not> locked (manage m)"
  shows "machine_inv (scan_push sc m)"
proof -
  define s where "s = srv (sys m)"
  define s' where "s' = s\<lparr>timing_wheel := wheel_push (front_modi sc) (timing_wheel s)\<rparr>"
  note D = machine_invD [OF I, folded s_def]
  have tr: "tracked (set (pending_to_remove s)) s" and core: "core_inv s" using D(1) by (simp_all add: core_tracked)
  then have l: "length (timing_wheel s) = wheel_capacity" by (simp add: tracked_def)
  then have ne: "timing_wheel s \<noteq> []" by (auto simp: wheel_capacity_def)
  have w: "timing_wheel s' = tl (timing_wheel s) @ [front_modi sc]" by (simp add: s'_def wheel_push_full [OF l])
  have wm: "wheel_members s' = rest_members s \<union> set (front_modi sc)"
    by (simp add: wheel_members_def w rest_members_def Un_commute)
  have sub: "wheel_members s' \<subseteq> wheel_members s"
    using D(4) wheel_members_split [OF ne] unfolding wm sc by auto
  have cl: "cache_limit s' = cache_limit s" by (rule cache_limit_cong) (simp add: s'_def)
  have reg: "registered s' = registered s" by (simp add: s'_def registered_def)
  have "core_inv s'" using core cl sub unfolding core_inv_def addresses_ok_def reg
    by (auto simp: counts_ok_def cache_ok_def sessions_zero_def pending_ok_def reg) (auto simp: s'_def)
  moreover have "tracked (set (pending_to_remove s')) s'"
    using D(4) l by (simp add: tracked_def wm reg sc watched_def) (auto simp: s'_def w [unfolded s'_def] wheel_capacity_def)
  ultimately have "server_inv (set (pending_to_remove s')) s'" by (simp add: core_tracked)
  moreover have "\<forall>p. starting (sys m) = Some p \<longrightarrow> idle_new s' p"
    using D(2) by (simp add: idle_new_def registered_def s'_def)
  moreover have "settings_ok ((sys m)\<lparr>srv := s'\<rparr>)" using D(3) by (simp add: settings_ok_def s'_def s_def)
  ultimately show ?thesis using lk
    by (simp add: machine_inv_def sys_inv_def scan_push_def with_srv_def Let_def manage_inv_unlocked s_def [symmetric] s'_def [symmetric])
qed

lemma remove_one_inv:
  assumes I: "machine_inv m" and g: "manage m = Removing (item # items)" and r: "remove_one item items m = Inr m'"
  shows "machine_inv m'"
proof -
  define s where "s = srv (sys m)"
  note D = machine_invD [OF I, folded s_def]
  have v: "visiting (item # items) s" using D(5) by (simp add: g)
  then have pend: "item \<in> set (pending_to_remove s)" by (simp add: visiting_def)
  show ?thesis
  proof (cases "item \<in> registered s")
    case False
    with r have "m' = m\<lparr>manage := Removing items\<rparr>"
      by (simp add: remove_one_def Let_def registered_def s_def)
    moreover have "visiting items s" using v False by (auto simp: visiting_def)
    ultimately show ?thesis using I by (simp add: machine_inv_def s_def)
  next
    case reg: True
    have mem: "item \<in> fst ` set (front_conns s)" using reg by (simp add: registered_def)
    from r mem obtain s1 limit where w: "(if 2 < use_count s item then wheel_back_insert item s else Inr s) = Inr s1"
      and l: "cache_limit (s1\<lparr>front_conns := map_erase item (front_conns s1), current_conns_cnt := current_conns_cnt s1 - 1\<rparr>) = Inr limit"
      and m': "m' = (with_srv (s1\<lparr>front_conns := map_erase item (front_conns s1), current_conns_cnt := current_conns_cnt s1 - 1\<rparr>) m)
        \<lparr>manage := (if of_nat (length (cached_conns s1)) < limit then Washing item items else Removing items)\<rparr>"
      unfolding remove_one_def Let_def s_def [symmetric] if_P [OF mem] rbind_Inr_iff
      by (clarsimp split del: if_split)
    define s2 where "s2 = s1\<lparr>front_conns := map_erase item (front_conns s1), current_conns_cnt := current_conns_cnt s1 - 1\<rparr>"
    have lt: "item < next_object s" using D(1) pend by (simp add: server_inv_def addresses_ok_def)
    have inv: "server_inv (insert item (set (pending_to_remove s))) s" using D(1) pend by (simp add: insert_absorb)
    note e = erase_inv [OF inv reg lt w s2_def]
    have len: "length (timing_wheel s) = wheel_capacity" using D(1) by (simp add: server_inv_def tracked_def)
    have "hd (timing_wheel s2) = hd (timing_wheel s) \<and> rest_members s \<subseteq> rest_members s2"
    proof (cases "2 < use_count s item")
      case True
      with w back_insert_rest [OF _ len, of item s1] show ?thesis by (auto simp: rest_members_def e(10))
    qed (use w in \<open>simp add: rest_members_def e(10)\<close>)
    then have "scan_inv (scan m) s2" using e(2,4) by (intro scan_inv_mono [OF D(4)]) auto
    moreover have v2: "visiting items s2" using v by (auto simp: visiting_def e)
    have "unplaced item s2" if "of_nat (length (cached_conns s2)) < limit"
    proof -
      have "item \<notin> set (cached_conns s)" using D(1) reg by (auto simp: server_inv_def cache_ok_def)
      moreover have "length (cached_conns s2) < unat limit"
        using cache_room [OF e(1)] l that by (simp add: s2_def)
      ultimately show ?thesis using pend l by (simp add: unplaced_def e) (simp add: s2_def)
    qed
    moreover have "cached_conns s2 = cached_conns s1" by (simp add: s2_def)
    ultimately have "manage_inv (manage m') s2" using v2 by (simp add: m')
    moreover have "server_inv (set (pending_to_remove s2)) s2" using e(1) by (simp add: e)
    moreover have "\<forall>p. starting (sys m) = Some p \<longrightarrow> idle_new s2 p"
      using D(2) pend by (auto simp: idle_new_def e)
    moreover have "settings_ok ((sys m)\<lparr>srv := s2\<rparr>)" using D(3) by (simp add: settings_ok_def e s_def)
    ultimately show ?thesis using \<open>scan_inv (scan m) s2\<close>
      by (simp add: machine_inv_def sys_inv_def m' with_srv_def s2_def [symmetric])
  qed
qed

lemma wash_one_inv:
  assumes I: "machine_inv m" and g: "manage m = Washing item items" and r: "wash_one item items m = Inr m'"
  shows "machine_inv m'"
proof -
  define s where "s = srv (sys m)"
  note D = machine_invD [OF I, folded s_def]
  from r obtain c where c: "conn_wash_white (objects s item) = Inr c"
    and m': "m' = (with_srv (s\<lparr>objects := (objects s)(item := c)\<rparr>) m)\<lparr>manage := Caching item items\<rparr>"
    by (auto simp: wash_one_def Let_def rbind_Inr_iff s_def)
  define s' where "s' = s\<lparr>objects := (objects s)(item := c)\<rparr>"
  have u: "unplaced item s" "visiting items s" using D(5) by (simp_all add: g)
  have "cache_limit s' = cache_limit s" by (rule cache_limit_cong) (simp add: s'_def)
  then have "manage_inv (Caching item items) s'"
    using u wash_inv(2) [OF D(1) c] by (simp add: unplaced_def visiting_def registered_def s'_def)
  moreover have "scan_inv (scan m) s'"
    by (rule scan_inv_mono [OF D(4)]) (auto simp: s'_def registered_def rest_members_def)
  moreover have "server_inv (set (pending_to_remove s')) s'" using wash_inv(1) [OF D(1) c] by (simp add: s'_def)
  moreover have "\<forall>p. starting (sys m) = Some p \<longrightarrow> idle_new s' p"
    using D(2) u(1) by (auto simp: idle_new_def unplaced_def registered_def s'_def)
  moreover have "settings_ok ((sys m)\<lparr>srv := s'\<rparr>)" using D(3) by (simp add: settings_ok_def s'_def s_def)
  ultimately show ?thesis by (simp add: machine_inv_def sys_inv_def m' with_srv_def s'_def [symmetric])
qed

lemma limit_known: "settings_ok S \<Longrightarrow> \<exists>limit. cache_limit (srv S) = Inr limit \<and>
    10 * unat limit \<le> 3 * unat (max_serve_conns_cnt (srv S))"
  by (auto simp: settings_ok_def cache_limit_100 cache_limit_1024)

lemma cache_one_inv:
  assumes I: "machine_inv m" and g: "manage m = Caching item items"
  shows "machine_inv (cache_one item items m)"
proof -
  define s where "s = srv (sys m)"
  note D = machine_invD [OF I, folded s_def]
  have u: "unplaced item s" "visiting items s" "dormant (objects s item)" using D(5) by (simp_all add: g)
  obtain limit where l: "cache_limit s = Inr limit" using limit_known [OF D(3)] by (auto simp: s_def)
  define s' where "s' = s\<lparr>cached_conns := cached_conns s @ [item]\<rparr>"
  have "item < next_object s" using D(1) u(1) by (simp add: server_inv_def addresses_ok_def unplaced_def)
  then have "server_inv (set (pending_to_remove s)) s'"
    unfolding s'_def using cache_push_inv [OF D(1) u(3) _ _ _ l] u(1) l by (simp add: unplaced_def)
  moreover have "scan_inv (scan m) s'"
    by (rule scan_inv_mono [OF D(4)]) (auto simp: s'_def registered_def rest_members_def)
  moreover have "\<forall>p. starting (sys m) = Some p \<longrightarrow> idle_new s' p"
    using D(2) by (simp add: idle_new_def registered_def s'_def)
  moreover have "settings_ok ((sys m)\<lparr>srv := s'\<rparr>)" using D(3) by (simp add: settings_ok_def s'_def s_def)
  moreover have "visiting items s'" "pending_to_remove s' = pending_to_remove s"
    using u(2) by (simp_all add: visiting_def registered_def s'_def)
  ultimately show ?thesis
    by (simp add: machine_inv_def sys_inv_def cache_one_def with_srv_def Let_def s_def [symmetric] s'_def [symmetric])
qed

lemma finish_removal_inv:
  assumes I: "machine_inv m" and g: "manage m = Removing []" and r: "finish_removal m = Inr m'"
  shows "machine_inv m'"
proof -
  define s where "s = srv (sys m)"
  note D = machine_invD [OF I, folded s_def]
  define s' where "s' = s\<lparr>pending_to_remove := []\<rparr>"
  from r have m': "m' = (with_srv s' m)\<lparr>manage := Away\<rparr>"
    by (auto simp: finish_removal_def Let_def rbind_Inr_iff s_def s'_def)
  have dis: "registered s \<inter> set (pending_to_remove s) = {}" using D(5) by (simp add: g visiting_def)
  have "cache_limit s' = cache_limit s" by (rule cache_limit_cong) (simp add: s'_def)
  moreover have "server_inv {} s" using D(1) dis by (auto simp: server_inv_def tracked_def)
  ultimately have "server_inv {} s'" by (auto simp: inv_defs s'_def)
  moreover have "registered s' = registered s" "rest_members s' = rest_members s"
    by (simp_all add: s'_def registered_def rest_members_def)
  then have "scan_inv (scan m) s'" using D(4) dis by (cases "scan m") (auto simp: watched_def s'_def)
  moreover have "\<forall>p. starting (sys m) = Some p \<longrightarrow> idle_new s' p"
    using D(2) by (simp add: idle_new_def registered_def s'_def)
  moreover have "settings_ok ((sys m)\<lparr>srv := s'\<rparr>)" using D(3) by (simp add: settings_ok_def s'_def s_def)
  moreover have "pending_to_remove s' = []" by (simp add: s'_def)
  ultimately show ?thesis by (simp add: machine_inv_def sys_inv_def m' with_srv_def)
qed

lemma begin_removal_inv: "machine_inv m \<Longrightarrow> machine_inv (begin_removal m)"
  by (simp add: machine_inv_def begin_removal_def visiting_def)

lemma machine_inv_act:
  assumes I: "machine_inv m" and c: "can env m a" and r: "act env a m = Inr m'"
  shows "machine_inv m'"
proof (cases a)
  case (Run e)
  with run_event_inv [OF I _ ] c r show ?thesis by simp
next
  case Notify
  have "machine_inv (m\<lparr>owed := owed m - 1\<rparr>)" using I by (simp add: machine_inv_def)
  with Notify r notify_one_inv show ?thesis by auto
next
  case ScanStart
  with scan_start_inv [OF I] r show ?thesis by simp
next
  case ScanItem
  with c obtain sc item items where s: "scan m = Some sc" "todo sc = item # items"
    "locked (manage m) \<longrightarrow> \<not> queues_item env sc item (srv (sys m))"
    by (auto split: option.splits list.splits)
  with ScanItem r have "scan_item env sc item items m = Inr m'" by simp
  from scan_item_inv [OF I s this] show ?thesis .
next
  case ScanNotify
  with c obtain sc where s: "scan m = Some sc" by (auto split: option.splits)
  have "machine_inv (m\<lparr>scan := Some (sc\<lparr>notify_flag := False\<rparr>)\<rparr>)" using I s by (simp add: machine_inv_def)
  with ScanNotify r s notify_one_inv show ?thesis by (auto simp: scan_notify_def)
next
  case ScanPush
  with c obtain sc where s: "scan m = Some sc" "\<not> locked (manage m)" by (auto split: option.splits)
  with scan_push_inv [OF I s] ScanPush r show ?thesis by auto
next
  case RemoveOne
  with c obtain item items where g: "manage m = Removing (item # items)" by auto
  with remove_one_inv [OF I g] RemoveOne r show ?thesis by simp
next
  case WashOne
  with c obtain item items where g: "manage m = Washing item items" by auto
  with wash_one_inv [OF I g] WashOne r show ?thesis by simp
next
  case CacheOne
  with c obtain item items where g: "manage m = Caching item items" by auto
  with cache_one_inv [OF I g] CacheOne r show ?thesis by auto
next
  case FinishRemoval
  with finish_removal_inv [OF I] c r show ?thesis by simp
next
  case BeginRemoval
  with begin_removal_inv [OF I] r show ?thesis by auto
qed (use I r in \<open>auto simp: machine_inv_def\<close>)

lemma machine_inv_start: "machine_inv (machine_start rlimit garbage)"
  using registry.initially [of rlimit garbage] settings.initially [of rlimit garbage]
  by (simp add: machine_inv_def machine_start_def)

lemma machine_reachable_inv: "machine_reachable envs m \<Longrightarrow> machine_inv m"
  by (induction rule: machine_reachable.induct) (auto intro: machine_inv_start machine_inv_act elim: machine_stepE)

end
