(* ===== verification/Interleaving_Facts.thy ===== *)
theory Interleaving_Facts
  imports Interleaving_Inv
begin

text \<open>
  What holds however the smaller steps of the two threads are interleaved, and what goes wrong in
  some orders: a notification that comes between two rounds of the manage thread, and a recycled
  connection that the co-worker looks at before it is in the cache. That whole turns and
  removals are one of the interleavings serves to reach concrete states.
\<close>

section \<open>The registry\<close>

text \<open>C2: However the handlers, the single steps of a turn of the wheel and the single steps of a
  removal are interleaved, the registry is never larger than its limit, its counter is exact, the
  registry and the cache are free of duplicates and disjoint, the cache stays within 30 percent,
  and every registered connection is in a bucket of the wheel or queued for removal.\<close>

theorem interleaved_registry:
  assumes "machine_reachable envs m" and "s = srv (sys m)"
  shows "length (front_conns s) \<le> unat (max_serve_conns_cnt s) \<and>
    unat (current_conns_cnt s) = length (front_conns s) \<and>
    distinct (map fst (front_conns s)) \<and> distinct (cached_conns s) \<and>
    fst ` set (front_conns s) \<inter> set (cached_conns s) = {} \<and>
    10 * length (cached_conns s) \<le> 3 * unat (max_serve_conns_cnt s) \<and>
    (\<forall>p \<in> fst ` set (front_conns s). p \<in> set (pending_to_remove s) \<or> (\<exists>b \<in> set (timing_wheel s). p \<in> set b))"
proof -
  note D = machine_invD [OF machine_reachable_inv [OF assms(1)], folded assms(2)]
  obtain limit where "cache_limit s = Inr limit" "10 * unat limit \<le> 3 * unat (max_serve_conns_cnt s)"
    using limit_known [OF D(3)] by (auto simp: assms(2))
  from registry_bounds [OF D(1) this] D(1) show ?thesis
    by (auto simp: server_inv_def tracked_def registered_def wheel_members_def)
qed

section \<open>The scan\<close>

lemma visit_wheel:
  assumes "visit env sc item s = Inr (s', modi, flag, acts)"
  shows "timing_wheel s' = timing_wheel s" "front_conns s' = front_conns s"
    "set (pending_to_remove s) \<subseteq> set (pending_to_remove s')"
  using assms
  by (auto simp: visit_def rbind_Inr_iff wheel_check_item_def Let_def push_to_remove_def split: if_splits)

lemma remove_one_wheel:
  assumes "remove_one item items m = Inr m'" and "length (timing_wheel (srv (sys m))) = wheel_capacity"
  shows "hd (timing_wheel (srv (sys m'))) = hd (timing_wheel (srv (sys m)))" and "scan m' = scan m"
  using assms
  by (auto simp: remove_one_def Let_def rbind_Inr_iff with_srv_def back_insert_rest split: if_splits)

text \<open>C17: The scan reads its bucket without a lock, and that is safe: until the scan itself appends the
  new bucket no step of any thread changes the first bucket, so its elements and the iterator
  stay valid, what is left to visit is part of it, and so is the copy that will replace it.\<close>

theorem scanned_bucket_is_stable:
  assumes "machine_reachable envs m" and "machine_step env m a m'" and "a \<noteq> ScanPush" and "scan m = Some sc"
  shows "hd (timing_wheel (srv (sys m'))) = hd (timing_wheel (srv (sys m))) \<and>
    set (todo sc) \<union> set (front_modi sc) \<subseteq> set (hd (timing_wheel (srv (sys m)))) \<and>
    (\<exists>sc'. scan m' = Some sc' \<and> (todo sc' = todo sc \<or> todo sc' = tl (todo sc)))"
proof -
  have I: "machine_inv m" by (rule machine_reachable_inv [OF assms(1)])
  note D = machine_invD [OF I]
  have l: "length (timing_wheel (srv (sys m))) = wheel_capacity" using D(1) by (simp add: server_inv_def tracked_def)
  from assms(2) have c: "can env m a" and r: "act env a m = Inr m'" by (auto elim: machine_stepE)
  have "hd (timing_wheel (srv (sys m'))) = hd (timing_wheel (srv (sys m))) \<and>
    (\<exists>sc'. scan m' = Some sc' \<and> (todo sc' = todo sc \<or> todo sc' = tl (todo sc)))"
  proof (cases a)
    case (Run e)
    with r obtain S where h: "handle env e (sys m) = Inr S" and m': "sys m' = S" "scan m' = scan m"
      by (auto simp: run_event_def rbind_Inr_iff)
    have si: "sys_inv (sys m)" using I by (simp add: machine_inv_def)
    have "hd (timing_wheel (srv S)) = hd (timing_wheel (srv (sys m)))"
    proof (cases "\<exists>ec peer nd sock. e = Accept ec peer nd sock")
      case True
      with accept_effect [OF si] h show ?thesis by blast
    next
      case False
      then have "undisturbed (srv (sys m)) (srv S)"
        using event_undisturbed [OF si _ h] c Run by auto
      then show ?thesis by (simp add: undisturbed_def)
    qed
    with m' assms(4) show ?thesis by simp
  next
    case ScanItem
    with c assms(4) obtain item items where t: "todo sc = item # items" by (auto split: list.splits)
    with r ScanItem assms(4) show ?thesis
      by (auto simp: scan_item_def rbind_Inr_iff with_srv_def visit_wheel(1))
  next
    case RemoveOne
    with c obtain item items where g: "manage m = Removing (item # items)" by auto
    with r RemoveOne have "remove_one item items m = Inr m'" by simp
    from remove_one_wheel [OF this l] assms(4) show ?thesis by simp
  next
    case WashOne
    with c r assms(4) show ?thesis by (auto simp: wash_one_def Let_def rbind_Inr_iff with_srv_def)
  next
    case CacheOne
    with c r assms(4) show ?thesis by (auto simp: cache_one_def Let_def with_srv_def)
  next
    case FinishRemoval
    with r assms(4) show ?thesis by (auto simp: finish_removal_def Let_def rbind_Inr_iff with_srv_def)
  next
    case Notify
    with r assms(4) show ?thesis by (auto simp: notify_one_def split: manage_state.splits)
  next
    case ScanNotify
    with r assms(4) show ?thesis by (auto simp: scan_notify_def notify_one_def split: manage_state.splits)
  qed (use c r assms(3,4) in \<open>auto simp: begin_removal_def scan_start_def\<close>)
  moreover have "set (todo sc) \<union> set (front_modi sc) \<subseteq> set (hd (timing_wheel (srv (sys m))))"
    using D(4) assms(4) by simp
  ultimately show ?thesis by blast
qed

section \<open>The manage thread\<close>

text \<open>C16: Whatever the other threads do between its steps, the manage thread never fails: in every
  reachable state each of its steps that is due succeeds, which includes the assertions of
  \<open>conn_wash_white\<close> and the one that the counter is the size of the registry.\<close>

theorem manage_never_fails:
  assumes "machine_reachable envs m" and "can env m a"
    and "a \<in> {BeginRemoval, RemoveOne, WashOne, CacheOne, FinishRemoval}"
  shows "\<exists>m'. act env a m = Inr m'"
proof -
  note D = machine_invD [OF machine_reachable_inv [OF assms(1)]]
  obtain limit where l: "cache_limit (srv (sys m)) = Inr limit" using limit_known [OF D(3)] by blast
  have pend: "stats (objects (srv (sys m)) p) \<noteq> conn_working" if "p \<in> set (pending_to_remove (srv (sys m)))" for p
    using D(1) that by (simp add: server_inv_def pending_ok_def)
  from assms(3) show ?thesis
  proof (elim insertE emptyE)
    assume a: "a = RemoveOne"
    with assms(2) obtain item items where g: "manage m = Removing (item # items)" by auto
    have ne: "timing_wheel (srv (sys m)) \<noteq> []" using D(1) by (auto simp: server_inv_def tracked_def wheel_capacity_def)
    obtain s1 where w: "(if 2 < use_count (srv (sys m)) item then wheel_back_insert item (srv (sys m))
        else Inr (srv (sys m))) = Inr s1"
      using wheel_back_insert_total [OF ne] by fastforce
    have "max_serve_conns_cnt s1 = max_serve_conns_cnt (srv (sys m))"
      using w wheel_back_insert_facts(6) by (auto split: if_splits)
    then have "cache_limit (s1\<lparr>front_conns := x, current_conns_cnt := y\<rparr>) = Inr limit" for x y
      using l cache_limit_cong [of "s1\<lparr>front_conns := x, current_conns_cnt := y\<rparr>" "srv (sys m)"] by simp
    with w show ?thesis by (simp add: a g remove_one_def Let_def split del: if_split) simp
  next
    assume a: "a = WashOne"
    with assms(2) obtain item items where g: "manage m = Washing item items" by auto
    have "item \<in> set (pending_to_remove (srv (sys m)))" using D(5) by (simp add: g unplaced_def)
    from wash_total [OF pend [OF this]] show ?thesis by (auto simp: a g wash_one_def Let_def)
  next
    assume a: "a = FinishRemoval"
    have "of_nat (length (front_conns (srv (sys m)))) = current_conns_cnt (srv (sys m))"
      using D(1) by (simp add: server_inv_def counts_ok_def)
    then show ?thesis by (simp add: a finish_removal_def Let_def)
  qed (use assms(2) in auto)
qed

text \<open>C24: A connection that is recycled can be seen by the co-worker after it was washed and before it is
  in the cache, since the scan takes no lock: it is then pending and not cached, which the check
  of the wheel asserts cannot be, and the server stops.\<close>

theorem recycling_race_stops_check:
  assumes "machine_reachable envs m" and "manage m = Caching item items"
    and "scan m = Some sc" and "todo sc = item # rest"
  shows "can env m ScanItem \<and> act env ScanItem m = Inl AssertFailed"
proof -
  note D = machine_invD [OF machine_reachable_inv [OF assms(1)]]
  have u: "unplaced item (srv (sys m))" and d: "stats (objects (srv (sys m)) item) = conn_pending"
    using D(5) by (simp_all add: assms(2) dormant_def)
  have "use_count (srv (sys m)) item \<noteq> 0" using u by (simp add: unplaced_def use_count_0)
  moreover have "get_conn_check_spare (srv (sys m)) = Inr 2"
    using D(3) by (simp add: get_conn_check_spare_def wheel_capacity_def settings_ok_def)
  ultimately have v: "visit env x item (srv (sys m)) = Inl AssertFailed" for x
    using u d by (simp add: visit_def wheel_check_item_def unplaced_def require_def)
  then show ?thesis by (simp add: assms(2-4) scan_item_def queues_item_def)
qed

section \<open>Notifications\<close>

text \<open>Moves one after another, each in its environment.\<close>

fun moves :: "('s env \<times> move) list \<Rightarrow> machine \<Rightarrow> machine result" where
  "moves [] m = Inr m"
| "moves ((env, a) # as) m = rbind (require (can env m a) AssertFailed) (\<lambda>_. rbind (act env a m) (moves as))"

lemma moves_reachable:
  "machine_reachable (UNIV :: 's env set) m \<Longrightarrow> moves (as :: ('s env \<times> move) list) m = Inr m' \<Longrightarrow>
   machine_reachable (UNIV :: 's env set) m'"
proof (induction as arbitrary: m)
  case (Cons x as)
  obtain env a where x: "x = (env, a)" by (cases x)
  with Cons.prems(2) obtain m1 where "can env m a" "act env a m = Inr m1" and r: "moves as m1 = Inr m'"
    by (auto simp: rbind_Inr_iff)
  then have "machine_reachable (UNIV :: 's env set) m1"
    by (intro machine_reachable.move [OF Cons.prems(1) UNIV_I] machine_step.intros)
  from Cons.IH [OF this r] show ?case .
qed simp

text \<open>While nobody notifies and the wait does not return by itself, nothing is removed.\<close>

definition keeps_queue :: "machine \<Rightarrow> machine \<Rightarrow> bool" where
  "keeps_queue m m' \<longleftrightarrow> manage m' \<in> {Away, Waiting} \<and>
     set (pending_to_remove (srv (sys m))) \<subseteq> set (pending_to_remove (srv (sys m'))) \<and>
     registered (srv (sys m)) \<subseteq> registered (srv (sys m'))"

lemma move_keeps_queue:
  assumes I: "machine_inv m" and c: "can env m a" and r: "act env a m = Inr m'"
    and g: "manage m \<in> {Away, Waiting}" and a: "a \<notin> {Notify, ScanNotify, Wake}"
  shows "keeps_queue m m'"
proof (cases a)
  case (Run e)
  with r obtain S where h: "handle env e (sys m) = Inr S" and m': "sys m' = S" "manage m' = manage m"
    by (auto simp: run_event_def rbind_Inr_iff)
  have si: "sys_inv (sys m)" using I by (simp add: machine_inv_def)
  show ?thesis
  proof (cases "\<exists>ec peer nd sock. e = Accept ec peer nd sock")
    case True
    with accept_effect [OF si] accept_registered [OF si] h g m' show ?thesis
      unfolding keeps_queue_def by (metis order_refl)
  next
    case False
    then have "undisturbed (srv (sys m)) (srv S)"
      using event_undisturbed [OF si _ h] c Run by auto
    then show ?thesis using g m' by (simp add: keeps_queue_def undisturbed_def registered_def)
  qed
next
  case ScanItem
  with c obtain sc item items where "scan m = Some sc" "todo sc = item # items"
    by (auto split: option.splits list.splits)
  with r ScanItem obtain s modi flag acts where v: "visit env sc item (srv (sys m)) = Inr (s, modi, flag, acts)"
    and m': "srv (sys m') = s" "manage m' = manage m"
    by (auto simp: scan_item_def rbind_Inr_iff with_srv_def)
  from visit_wheel(2,3) [OF v] g m' show ?thesis by (simp add: keeps_queue_def registered_def)
next
  case ScanPush
  with c r g show ?thesis
    by (auto simp: scan_push_def with_srv_def keeps_queue_def registered_def Let_def split: option.splits)
next
  case ScanStart
  with r g show ?thesis by (auto simp: scan_start_def rbind_Inr_iff Let_def keeps_queue_def)
qed (use c r g a in \<open>auto simp: keeps_queue_def\<close>)

lemma moves_keep_queue:
  "machine_inv m \<Longrightarrow> manage m \<in> {Away, Waiting} \<Longrightarrow> moves as m = Inr m' \<Longrightarrow>
   snd ` set as \<inter> {Notify, ScanNotify, Wake} = {} \<Longrightarrow> keeps_queue m m'"
proof (induction as arbitrary: m)
  case (Cons x as)
  obtain env a where x: "x = (env, a)" by (cases x)
  with Cons.prems(3) obtain m1 where c: "can env m a" "act env a m = Inr m1" and r: "moves as m1 = Inr m'"
    by (auto simp: rbind_Inr_iff)
  have a: "a \<notin> {Notify, ScanNotify, Wake}" using Cons.prems(4) by (auto simp: x)
  from move_keeps_queue [OF Cons.prems(1) c Cons.prems(2) a] have k: "keeps_queue m m1" .
  from Cons.IH [OF machine_inv_act [OF Cons.prems(1) c] _ r] Cons.prems(4) k show ?case
    by (auto simp: keeps_queue_def)
qed (simp add: keeps_queue_def)

text \<open>C23: A notification sent between two rounds of the manage thread is lost, since the wait has no
  predicate: the connection it was sent for stays registered and queued through any further
  history, time-outs of the wait included, until somebody sends another notification.\<close>

theorem lost_notification:
  assumes "machine_reachable envs m" and "manage m = Away" and "can env m Notify"
    and "p \<in> set (pending_to_remove (srv (sys m)))" and "p \<in> fst ` set (front_conns (srv (sys m)))"
    and "moves ((env, Notify) # as) m = Inr m'" and "snd ` set as \<inter> {Notify, ScanNotify, Wake} = {}"
  shows "p \<in> set (pending_to_remove (srv (sys m'))) \<and> p \<in> fst ` set (front_conns (srv (sys m')))"
proof -
  define m1 where "m1 = m\<lparr>owed := owed m - 1\<rparr>"
  have "notify_one m1 = m1" using assms(2) by (simp add: notify_one_def m1_def)
  then have r: "moves as m1 = Inr m'" using assms(3,6) by (simp add: m1_def)
  have "machine_inv m1" using machine_reachable_inv [OF assms(1)] by (simp add: machine_inv_def m1_def)
  from moves_keep_queue [OF this _ r assms(7)] assms(2,4,5) show ?thesis
    by (auto simp: keeps_queue_def m1_def registered_def)
qed

section \<open>Whole turns and removals\<close>

lemma machine_move:
  "machine_reachable envs m \<Longrightarrow> env \<in> envs \<Longrightarrow> can env m a \<Longrightarrow> act env a m = Inr m' \<Longrightarrow> machine_reachable envs m'"
  by (rule machine_reachable.move [OF _ _ machine_step.intros])

lemma with_srv_simps [simp]:
  "srv (sys (with_srv s m)) = s" "with_srv s (with_srv t m) = with_srv s m" "with_srv (srv (sys m)) m = m"
  "manage (with_srv s m) = manage m" "scan (with_srv s m) = scan m" "owed (with_srv s m) = owed m"
  "(with_srv s m)\<lparr>manage := g\<rparr> = with_srv s (m\<lparr>manage := g\<rparr>)"
  "(with_srv s m)\<lparr>scan := x\<rparr> = with_srv s (m\<lparr>scan := x\<rparr>)"
  by (simp_all add: with_srv_def)

lemma removal_moves:
  "machine_reachable envs m \<Longrightarrow> env \<in> envs \<Longrightarrow> manage m = Removing items \<Longrightarrow>
   manage_items items (srv (sys m)) = Inr s \<Longrightarrow>
   machine_reachable envs (with_srv s (m\<lparr>manage := Removing []\<rparr>))"
proof (induction items arbitrary: m)
  case Nil
  then have "with_srv s (m\<lparr>manage := Removing []\<rparr>) = m" by (cases m) (auto simp: with_srv_def)
  with Nil.prems(1) show ?case by simp
next
  case (Cons item items)
  from Cons.prems(4) obtain s1 where i: "manage_item item (srv (sys m)) = Inr s1" and r: "manage_items items s1 = Inr s"
    by (auto simp: rbind_Inr_iff)
  have c: "can env m RemoveOne" using Cons.prems(3) by simp
  have "machine_reachable envs (with_srv s1 (m\<lparr>manage := Removing items\<rparr>))"
  proof (cases "item \<in> fst ` set (front_conns (srv (sys m)))")
    case False
    with i have "s1 = srv (sys m)" by (simp add: manage_item_def)
    moreover have "act env RemoveOne m = Inr (m\<lparr>manage := Removing items\<rparr>)"
      using False Cons.prems(3) by (simp add: remove_one_def Let_def)
    moreover have "with_srv (srv (sys m)) (m\<lparr>manage := Removing items\<rparr>) = m\<lparr>manage := Removing items\<rparr>"
      by (simp add: with_srv_def)
    ultimately show ?thesis using machine_move [OF Cons.prems(1,2) c] by simp
  next
    case True
    then obtain t where w: "(if 2 < use_count (srv (sys m)) item then wheel_back_insert item (srv (sys m))
        else Inr (srv (sys m))) = Inr t"
      and rec: "recycle item (t\<lparr>front_conns := map_erase item (front_conns t), current_conns_cnt := current_conns_cnt t - 1\<rparr>) = Inr s1"
      using i by (auto simp: manage_item_def rbind_Inr_iff split del: if_split)
    define u where "u = t\<lparr>front_conns := map_erase item (front_conns t), current_conns_cnt := current_conns_cnt t - 1\<rparr>"
    from rec obtain limit where l: "cache_limit u = Inr limit"
      and s1: "(if of_nat (length (cached_conns u)) < limit then
          rbind (conn_wash_white (objects u item)) (\<lambda>c.
          Inr (u\<lparr>objects := (objects u)(item := c), cached_conns := cached_conns u @ [item]\<rparr>))
        else Inr u) = Inr s1"
      unfolding u_def [symmetric] recycle_def by (auto simp: rbind_Inr_iff split del: if_split)
    have a: "act env RemoveOne m = Inr (with_srv u (m\<lparr>manage :=
        (if of_nat (length (cached_conns u)) < limit then Washing item items else Removing items)\<rparr>))"
      using w l Cons.prems(3) by (simp add: remove_one_def Let_def if_P [OF True] u_def split del: if_split)
    note m1 = machine_move [OF Cons.prems(1,2) c a]
    show ?thesis
    proof (cases "of_nat (length (cached_conns u)) < limit")
      case False
      with s1 m1 show ?thesis by simp
    next
      case room: True
      with s1 obtain x where x: "conn_wash_white (objects u item) = Inr x"
        and s1: "s1 = u\<lparr>objects := (objects u)(item := x), cached_conns := cached_conns u @ [item]\<rparr>"
        by (auto simp: rbind_Inr_iff)
      define v where "v = u\<lparr>objects := (objects u)(item := x)\<rparr>"
      have "machine_reachable envs (with_srv u (m\<lparr>manage := Washing item items\<rparr>))" using m1 room by simp
      then have "machine_reachable envs (with_srv v (m\<lparr>manage := Caching item items\<rparr>))"
        by (rule machine_move [OF _ Cons.prems(2), of _ WashOne]) (simp_all add: wash_one_def Let_def x v_def)
      then have "machine_reachable envs (with_srv (v\<lparr>cached_conns := cached_conns v @ [item]\<rparr>) (m\<lparr>manage := Removing items\<rparr>))"
        by (rule machine_move [OF _ Cons.prems(2), of _ CacheOne]) (simp_all add: cache_one_def Let_def)
      then show ?thesis by (simp add: s1 v_def)
    qed
  qed
  from Cons.IH [OF this Cons.prems(2)] r show ?case by (simp add: with_srv_def)
qed


lemma visit_of_check:
  assumes "get_conn_check_spare s = Inr spare"
    and "wheel_check_item (now env) spare item (s, front_modi sc, notify_flag sc, acts) = Inr (s', modi, flag, acts')"
  shows "\<exists>acts''. visit env sc item s = Inr (s', modi, flag, acts'')"
  using assms by (auto simp: visit_def wheel_check_item_def rbind_Inr_iff Let_def split: if_splits)

lemma check_spare_cong: "same_settings s s' \<Longrightarrow> get_conn_check_spare s' = get_conn_check_spare s"
  by (simp add: get_conn_check_spare_def same_settings_def)

lemma scan_moves:
  "machine_reachable envs m \<Longrightarrow> env \<in> envs \<Longrightarrow> scan m = Some sc \<Longrightarrow> todo sc = items \<Longrightarrow> \<not> locked (manage m) \<Longrightarrow>
   get_conn_check_spare (srv (sys m)) = Inr spare \<Longrightarrow>
   wheel_check_items (now env) spare items (srv (sys m), front_modi sc, notify_flag sc, acts) = Inr (s, modi, flag, acts') \<Longrightarrow>
   machine_reachable envs (with_srv s (m\<lparr>scan := Some \<lparr> todo = [], front_modi = modi, notify_flag = flag \<rparr>\<rparr>))"
proof (induction items arbitrary: m sc acts)
  case Nil
  then have "with_srv s (m\<lparr>scan := Some \<lparr> todo = [], front_modi = modi, notify_flag = flag \<rparr>\<rparr>) = m"
    by (cases m; cases sc) (auto simp: with_srv_def)
  with Nil.prems(1) show ?case by simp
next
  case (Cons item items)
  from Cons.prems(7) obtain s1 modi1 flag1 acts1 where
    i: "wheel_check_item (now env) spare item (srv (sys m), front_modi sc, notify_flag sc, acts) = Inr (s1, modi1, flag1, acts1)"
    and r: "wheel_check_items (now env) spare items (s1, modi1, flag1, acts1) = Inr (s, modi, flag, acts')"
    by (auto simp: rbind_Inr_iff)
  obtain acts2 where v: "visit env sc item (srv (sys m)) = Inr (s1, modi1, flag1, acts2)"
    using visit_of_check [OF Cons.prems(6) i] by blast
  define sc1 where "sc1 = \<lparr> todo = items, front_modi = modi1, notify_flag = flag1 \<rparr>"
  have c: "can env m ScanItem" using Cons.prems(3-5) by simp
  have "act env ScanItem m = Inr (with_srv s1 (m\<lparr>scan := Some sc1\<rparr>))"
    using Cons.prems(3,4) v by (simp add: scan_item_def sc1_def)
  note m1 = machine_move [OF Cons.prems(1,2) c this]
  have "same_settings (srv (sys m)) s1"
    by (rule check_items_settings [of "now env" spare "[item]" _ "front_modi sc" "notify_flag sc" acts]) (simp add: i)
  then have sp: "get_conn_check_spare s1 = Inr spare" using check_spare_cong Cons.prems(6) by simp
  have "machine_reachable envs (with_srv s ((with_srv s1 (m\<lparr>scan := Some sc1\<rparr>))
      \<lparr>scan := Some \<lparr> todo = [], front_modi = modi, notify_flag = flag \<rparr>\<rparr>))"
    using Cons.prems(5) sp r
    by (intro Cons.IH [OF m1 Cons.prems(2), of sc1 acts1]) (simp_all add: sc1_def)
  then show ?case by simp
qed

definition at_rest :: "system \<Rightarrow> machine \<Rightarrow> bool" where
  "at_rest S m \<longleftrightarrow> sys m = S \<and> scan m = None \<and> manage m = Away"

lemma turn_simulated:
  assumes M: "machine_reachable envs m" "at_rest S m" and e: "env \<in> envs" and h: "handle env WheelTurn S = Inr S'"
  shows "\<exists>m'. machine_reachable envs m' \<and> at_rest S' m'"
proof -
  from h obtain s x where c: "timing_wheel_check (now env) (srv S) = Inr (s, x)" and S': "S' = S\<lparr>srv := s\<rparr>"
    by (auto simp: rbind_Inr_iff)
  from c obtain spare u modi flag acts where ne: "timing_wheel (srv S) \<noteq> []"
    and sp: "get_conn_check_spare (srv S) = Inr spare"
    and ci: "wheel_check_items (now env) spare (hd (timing_wheel (srv S))) (srv S, hd (timing_wheel (srv S)), False, []) = Inr (u, modi, flag, acts)"
    and s: "s = u\<lparr>timing_wheel := wheel_push modi (timing_wheel u)\<rparr>"
    by (auto simp: timing_wheel_check_def rbind_Inr_iff)
  define sc where "sc = \<lparr> todo = hd (timing_wheel (srv S)), front_modi = hd (timing_wheel (srv S)), notify_flag = False \<rparr>"
  define fin where "fin = \<lparr> todo = [], front_modi = modi, notify_flag = False \<rparr>"
  have m: "sys m = S" "scan m = None" "manage m = Away" using M(2) by (simp_all add: at_rest_def)
  have "act env ScanStart m = Inr (m\<lparr>scan := Some sc\<rparr>)" using ne m by (simp add: scan_start_def Let_def sc_def)
  then have m1: "machine_reachable envs (m\<lparr>scan := Some sc\<rparr>)"
    by (rule machine_move [OF M(1) e, rotated]) (simp add: m)
  have "machine_reachable envs (with_srv u ((m\<lparr>scan := Some sc\<rparr>)\<lparr>scan := Some \<lparr> todo = [], front_modi = modi, notify_flag = flag \<rparr>\<rparr>))"
    using m sp ci by (intro scan_moves [OF m1 e, of sc]) (simp_all add: sc_def)
  then have m2: "machine_reachable envs (with_srv u (m\<lparr>scan := Some \<lparr> todo = [], front_modi = modi, notify_flag = flag \<rparr>\<rparr>))"
    by simp
  have m3: "machine_reachable envs (with_srv u (m\<lparr>scan := Some fin\<rparr>))"
  proof (cases flag)
    case True
    show ?thesis by (rule machine_move [OF m2 e, of ScanNotify])
        (simp_all add: True scan_notify_def notify_one_def m fin_def)
  next
    case False
    with m2 show ?thesis by (simp add: fin_def)
  qed
  have "machine_reachable envs (with_srv s (m\<lparr>scan := None\<rparr>))"
    by (rule machine_move [OF m3 e, of ScanPush]) (simp_all add: m fin_def scan_push_def s Let_def)
  moreover have "at_rest S' (with_srv s (m\<lparr>scan := None\<rparr>))" by (simp add: at_rest_def with_srv_def m S')
  ultimately show ?thesis by blast
qed

lemma removal_simulated:
  assumes M: "machine_reachable envs m" "at_rest S m" and e: "env \<in> envs" and h: "handle env Managed S = Inr S'"
  shows "\<exists>m'. machine_reachable envs m' \<and> at_rest S' m'"
proof -
  from h obtain s where c: "manage_notified (srv S) = Inr s" and S': "S' = S\<lparr>srv := s\<rparr>"
    by (auto simp: rbind_Inr_iff)
  have m: "sys m = S" "scan m = None" "manage m = Away" using M(2) by (simp_all add: at_rest_def)
  show ?thesis
  proof (cases "pending_to_remove (srv S) = []")
    case True
    with c S' have "S' = S" by (simp add: manage_notified_def)
    with M show ?thesis by blast
  next
    case False
    with c obtain u where it: "manage_items (pending_to_remove (srv S)) (srv S) = Inr u"
      and n: "of_nat (length (front_conns u)) = current_conns_cnt u" and s: "s = u\<lparr>pending_to_remove := []\<rparr>"
      by (auto simp: manage_notified_def rbind_Inr_iff Let_def)
    have "machine_reachable envs (m\<lparr>manage := Waiting\<rparr>)"
      by (rule machine_move [OF M(1) e, of WaitAgain]) (simp_all add: m)
    then have "machine_reachable envs (m\<lparr>manage := Woken\<rparr>)"
      by (rule machine_move [OF _ e, of _ Wake]) simp_all
    then have m1: "machine_reachable envs (m\<lparr>manage := Removing (pending_to_remove (srv S))\<rparr>)"
      by (rule machine_move [OF _ e, of _ BeginRemoval]) (simp_all add: begin_removal_def m False)
    have "machine_reachable envs (with_srv u (m\<lparr>manage := Removing []\<rparr>))"
      using removal_moves [OF m1 e, of "pending_to_remove (srv S)" u] it by (simp add: m)
    then have "machine_reachable envs (with_srv s (m\<lparr>manage := Away\<rparr>))"
      by (rule machine_move [OF _ e, of _ FinishRemoval]) (simp_all add: finish_removal_def Let_def n s)
    moreover have "at_rest S' (with_srv s (m\<lparr>manage := Away\<rparr>))" by (simp add: at_rest_def with_srv_def m S')
    ultimately show ?thesis by blast
  qed
qed

lemma reachable_at_rest: "reachable envs S \<Longrightarrow> \<exists>m. machine_reachable envs m \<and> at_rest S m"
proof (induction rule: reachable.induct)
  case (init rlimit garbage)
  have "at_rest (initial rlimit garbage) (machine_start rlimit garbage)" by (simp add: at_rest_def machine_start_def)
  then show ?case using machine_reachable.start by blast
next
  case (more S env e S')
  then obtain m where M: "machine_reachable envs m" "at_rest S m" by blast
  from more.hyps(3) have en: "enabled S e" and h: "handle env e S = Inr S'" by (auto elim: stepE)
  consider "e = WheelTurn" | "e = Managed" | "e \<noteq> WheelTurn" "e \<noteq> Managed" by blast
  then show ?case
  proof cases
    case 3
    define m' where "m' = m\<lparr>sys := S', owed := owed m + (if asks_removal env e S then 1 else 0)\<rparr>"
    have "act env (Run e) m = Inr m'" using M(2) h by (simp add: run_event_def at_rest_def m'_def)
    then have "machine_reachable envs m'"
      by (rule machine_move [OF M(1) more.hyps(2), rotated]) (use M(2) en 3 in \<open>simp add: at_rest_def\<close>)
    moreover have "at_rest S' m'" using M(2) by (simp add: at_rest_def m'_def)
    ultimately show ?thesis by blast
  qed (use turn_simulated [OF M more.hyps(2)] removal_simulated [OF M more.hyps(2)] h in simp_all)
qed

section \<open>Scenarios\<close>

definition first_bucket :: "nat list list" where
  "first_bucket = [[0], [], [], [], [], [], [], [], [], []]"

lemma failed_client_simps [simp]:
  "pending_to_remove (srv (failed_client w)) = [0]" "front_conns (srv (failed_client w)) = [(0, 0)]"
  "timing_wheel (srv (failed_client w)) = w" "max_serve_conns_cnt (srv (failed_client w)) = 100"
  "cached_conns (srv (failed_client w)) = []" "handlers (srv (failed_client w)) 0 = 0"
  "objects (srv (failed_client w)) 0 = (one_client 0)\<lparr>stats := conn_error\<rparr>"
  by (simp_all add: failed_client_def Let_def) (simp add: with_client_def server_eq)

text \<open>The client has hung up, and the handler has not notified yet.\<close>

lemma hung_up:
  "\<exists>m. machine_reachable (UNIV :: string list env set) m \<and> sys m = failed_client first_bucket \<and> scan m = None \<and>
     manage m = Away \<and> 0 < owed m"
proof -
  let ?S = "with_client first_bucket" and ?e = "HeadRead 0 OtherError 0 []"
  have R: "reachable (UNIV :: string list env set) ?S" using reach_nine by (simp add: first_bucket_def)
  from reachable_at_rest [OF this] obtain m where
    m: "machine_reachable (UNIV :: string list env set) m" "sys m = ?S" "scan m = None" "manage m = Away"
    by (auto simp: at_rest_def)
  have "sys_inv ?S" by (rule registry.always [OF R])
  then have a: "asks_removal (env_at 0) ?e ?S"
    using event_undisturbed [OF _ _ hang_up, of first_bucket] by fastforce
  have "machine_reachable (UNIV :: string list env set) (m\<lparr>sys := failed_client first_bucket, owed := owed m + 1\<rparr>)"
    by (rule machine_move [OF m(1) UNIV_I, of "env_at 0" "Run ?e"])
      (simp_all add: m run_event_def hang_up a del: handle.simps)
  with m(3,4) show ?thesis by (intro exI [of _ "m\<lparr>sys := failed_client first_bucket, owed := owed m + 1\<rparr>"]) simp
qed

text \<open>The manage thread is about to remove it, and the co-worker to look at it.\<close>

lemma removing_first:
  "\<exists>m. machine_reachable (UNIV :: string list env set) m \<and> sys m = failed_client first_bucket \<and>
     scan m = Some \<lparr> todo = [0], front_modi = [0], notify_flag = False \<rparr> \<and> manage m = Removing [0]"
proof -
  from hung_up obtain m where m: "machine_reachable (UNIV :: string list env set) m"
    "sys m = failed_client first_bucket" "scan m = None" "manage m = Away" "0 < owed m" by blast
  let ?t = "[(env_at 0, WaitAgain), (env_at 0, Notify), (env_at 0, ScanStart), (env_at 0, BeginRemoval)]"
  have "\<exists>m'. moves ?t m = Inr m' \<and> sys m' = sys m \<and> manage m' = Removing [0] \<and>
      scan m' = Some \<lparr> todo = [0], front_modi = [0], notify_flag = False \<rparr>"
    by (simp add: m require_def notify_one_def scan_start_def begin_removal_def Let_def first_bucket_def)
  with moves_reachable [OF m(1)] m(2) show ?thesis by metis
qed

lemma caching_first:
  "\<exists>m. machine_reachable (UNIV :: string list env set) m \<and>
     scan m = Some \<lparr> todo = [0], front_modi = [0], notify_flag = False \<rparr> \<and> manage m = Caching 0 []"
proof -
  from removing_first obtain m where m: "machine_reachable (UNIV :: string list env set) m"
    "sys m = failed_client first_bucket" "manage m = Removing [0]"
    "scan m = Some \<lparr> todo = [0], front_modi = [0], notify_flag = False \<rparr>" by blast
  have l: "cache_limit s = Inr 30" if "max_serve_conns_cnt s = 100" for s using that by (rule cache_limit_100)
  have "\<exists>m'. moves [(env_at 0, RemoveOne), (env_at 0, WashOne)] m = Inr m' \<and> manage m' = Caching 0 [] \<and> scan m' = scan m"
    by (simp add: m require_def remove_one_def wash_one_def Let_def use_count_def l wash_client)
  with moves_reachable [OF m(1)] m(4) show ?thesis by metis
qed

theorem interleaved_registry_witness:
  "\<exists>m. machine_reachable (UNIV :: string list env set) m \<and> manage m = Removing [0] \<and>
     length (front_conns (srv (sys m))) \<le> 100 \<and> unat (current_conns_cnt (srv (sys m))) = 1"
proof -
  from removing_first obtain m where m: "machine_reachable (UNIV :: string list env set) m"
    "sys m = failed_client first_bucket" "manage m = Removing [0]" by blast
  from interleaved_registry [OF m(1) refl] m show ?thesis by auto
qed

theorem scanned_bucket_is_stable_witness:
  "\<exists>m m'. machine_reachable (UNIV :: string list env set) m \<and> machine_step (env_at 0) m CacheOne m' \<and>
     hd (timing_wheel (srv (sys m'))) = hd (timing_wheel (srv (sys m)))"
proof -
  from caching_first obtain m where m: "machine_reachable (UNIV :: string list env set) m" "manage m = Caching 0 []"
    "scan m = Some \<lparr> todo = [0], front_modi = [0], notify_flag = False \<rparr>" by blast
  have "machine_step (env_at 0) m CacheOne (cache_one 0 [] m)" by (rule machine_step.intros) (simp_all add: m(2))
  with scanned_bucket_is_stable [OF m(1) this _ m(3)] m(1) show ?thesis by blast
qed

theorem manage_never_fails_witness:
  "\<exists>m m'. machine_reachable (UNIV :: string list env set) m \<and> manage m = Removing [0] \<and> act (env_at 0) RemoveOne m = Inr m'"
proof -
  from removing_first obtain m where m: "machine_reachable (UNIV :: string list env set) m" "manage m = Removing [0]" by blast
  from manage_never_fails [OF m(1), of "env_at 0" RemoveOne] m show ?thesis by auto
qed

theorem recycling_race_stops_check_witness:
  "\<exists>m. machine_reachable (UNIV :: string list env set) m \<and> act (env_at 0) ScanItem m = Inl AssertFailed"
proof -
  from caching_first obtain m where m: "machine_reachable (UNIV :: string list env set) m" "manage m = Caching 0 []"
    "scan m = Some \<lparr> todo = [0], front_modi = [0], notify_flag = False \<rparr>" by blast
  from recycling_race_stops_check [OF m, of "[]" "env_at 0"] m(1) show ?thesis by auto
qed

theorem lost_notification_witness:
  "\<exists>m m'. machine_reachable (UNIV :: string list env set) m \<and>
     moves [(env_at 0, Notify), (env_at 0, WaitAgain), (env_at 45, TimeOut), (env_at 45, WaitAgain)] m = Inr m' \<and>
     0 \<in> set (pending_to_remove (srv (sys m'))) \<and> 0 \<in> fst ` set (front_conns (srv (sys m')))"
proof -
  from hung_up obtain m where m: "machine_reachable (UNIV :: string list env set) m"
    "sys m = failed_client first_bucket" "scan m = None" "manage m = Away" "0 < owed m" by blast
  let ?t = "[(env_at 0, WaitAgain), (env_at 45, TimeOut), (env_at 45, WaitAgain)]"
  obtain m' where r: "moves ((env_at 0, Notify) # ?t) m = Inr m'" using m by (simp add: require_def notify_one_def)
  from lost_notification [OF m(1,4) _ _ _ r] m r show ?thesis by fastforce
qed

end
