(* ===== verification/Expiry.thy ===== *)
theory Expiry
  imports Interleaving_Inv
begin

text \<open>
  Idle connections are found by the timing wheel, whatever else happens between its turns: the
  events between two turns leave every element in its bucket, each turn brings it one bucket
  forward and queues it when it is in the first.
\<close>

section \<open>Between two turns\<close>

text \<open>No bucket loses an element.\<close>

definition buckets_kept :: "server \<Rightarrow> server \<Rightarrow> bool" where
  "buckets_kept s s' \<longleftrightarrow> (\<forall>k < length (timing_wheel s). set (timing_wheel s ! k) \<subseteq> set (timing_wheel s' ! k)) \<and>
     length (timing_wheel s') = length (timing_wheel s)"

lemma buckets_kept_refl: "timing_wheel s' = timing_wheel s \<Longrightarrow> buckets_kept s s'"
  by (simp add: buckets_kept_def)

lemma buckets_kept_trans: "buckets_kept s t \<Longrightarrow> buckets_kept t u \<Longrightarrow> buckets_kept s u"
  by (fastforce simp: buckets_kept_def)

lemma back_insert_kept: "wheel_back_insert p s = Inr s' \<Longrightarrow> buckets_kept s s'"
  by (auto simp: buckets_kept_def wheel_back_insert_def nth_append nth_butlast last_conv_nth less_Suc_eq
      split: if_splits) (metis One_nat_def Suc_pred length_greater_0_conv less_antisym)+

lemma manage_item_kept:
  assumes "manage_item item s = Inr s'"
  shows "buckets_kept s s'"
proof (cases "item \<in> fst ` set (front_conns s)")
  case False
  with assms show ?thesis by (simp add: manage_item_def buckets_kept_refl)
next
  case True
  then obtain t where w: "(if 2 < use_count s item then wheel_back_insert item s else Inr s) = Inr t"
    and r: "recycle item (t\<lparr>front_conns := map_erase item (front_conns t), current_conns_cnt := current_conns_cnt t - 1\<rparr>) = Inr s'"
    using assms by (auto simp: manage_item_def rbind_Inr_iff split del: if_split)
  have "buckets_kept s t" using w by (auto simp: back_insert_kept buckets_kept_refl split: if_splits)
  moreover have "timing_wheel s' = timing_wheel t" using r by (auto simp: recycle_def rbind_Inr_iff split: if_splits)
  ultimately show ?thesis by (simp add: buckets_kept_def)
qed

lemma manage_items_kept: "manage_items items s = Inr s' \<Longrightarrow> buckets_kept s s'"
proof (induction items arbitrary: s)
  case (Cons item items)
  then obtain t where "manage_item item s = Inr t" "manage_items items t = Inr s'" by (auto simp: rbind_Inr_iff)
  with Cons.IH manage_item_kept buckets_kept_trans show ?case by blast
qed (simp add: buckets_kept_refl)

lemma manage_notified_kept: "manage_notified s = Inr s' \<Longrightarrow> buckets_kept s s'"
  by (auto simp: manage_notified_def rbind_Inr_iff Let_def buckets_kept_refl split: if_splits
      dest!: manage_items_kept) (simp add: buckets_kept_def)

lemma accept_conn_kept:
  assumes "accept_conn env ec peer nd sock s = Inr (s', r)"
  shows "buckets_kept s s'"
proof (cases r)
  case (Accepted_conn p)
  with assms obtain t where "wheel_back_insert p t = Inr s'" "timing_wheel t = timing_wheel s"
    by (auto simp: accept_conn_def rbind_Inr_iff Let_def split: if_splits list.splits)
  with back_insert_kept show ?thesis by (force simp: buckets_kept_def)
qed (use assms in \<open>auto simp: accept_conn_def rbind_Inr_iff buckets_kept_refl split: if_splits\<close>)

lemma event_keeps_place:
  assumes I: "sys_inv S" and st: "settings_ok S" and en: "enabled S e" and h: "handle env e S = Inr S'" and e: "e \<noteq> WheelTurn"
    and p: "p \<in> registered (srv S)" "p \<notin> set (pending_to_remove (srv S))"
  shows "p \<in> registered (srv S') \<and> buckets_kept (srv S) (srv S')"
proof -
  consider (accept) ec peer nd sock where "e = Accept ec peer nd sock" | (manage) "e = Managed"
    | (other) "e \<noteq> Managed" "\<forall>ec peer nd sock. e \<noteq> Accept ec peer nd sock" by blast
  then show ?thesis
  proof cases
    case accept
    with h have "\<exists>r. accept_conn env ec peer nd sock (srv S) = Inr (srv S', r)" by (auto simp: rbind_Inr_iff)
    with accept_conn_kept have "buckets_kept (srv S) (srv S')" by blast
    with accept_registered [OF I] h accept p show ?thesis by blast
  next
    case manage
    with h have m: "manage_notified (srv S) = Inr (srv S')" by (auto simp: rbind_Inr_iff)
    obtain limit where "cache_limit (srv S) = Inr limit" using limit_known [OF st] by blast
    with I m have "registered (srv S') = registered (srv S) - set (pending_to_remove (srv S))"
      using manage_notified_total [of "srv S" limit] by (auto simp: sys_inv_def)
    with p manage_notified_kept [OF m] show ?thesis by simp
  next
    case other
    from event_undisturbed [OF I en h e other] have "undisturbed (srv S) (srv S')" by simp
    with p show ?thesis by (simp add: undisturbed_def registered_def buckets_kept_refl)
  qed
qed

section \<open>Histories\<close>

text \<open>Whether \<open>P\<close> holds in some state of a history, and whether it holds at every turn of the wheel.\<close>

fun sometime :: "(system \<Rightarrow> bool) \<Rightarrow> ('s env \<times> event) list \<Rightarrow> system \<Rightarrow> bool" where
  "sometime P [] S \<longleftrightarrow> P S"
| "sometime P ((env, e) # es) S \<longleftrightarrow> P S \<or> (case handle env e S of Inl _ \<Rightarrow> False | Inr S' \<Rightarrow> sometime P es S')"

fun at_turns :: "('s env \<Rightarrow> system \<Rightarrow> bool) \<Rightarrow> ('s env \<times> event) list \<Rightarrow> system \<Rightarrow> bool" where
  "at_turns P [] S \<longleftrightarrow> True"
| "at_turns P ((env, e) # es) S \<longleftrightarrow> (e = WheelTurn \<longrightarrow> P env S) \<and>
     (case handle env e S of Inl _ \<Rightarrow> True | Inr S' \<Rightarrow> at_turns P es S')"

fun count_turns :: "('s env \<times> event) list \<Rightarrow> nat" where
  "count_turns [] = 0"
| "count_turns ((env, e) # es) = (if e = WheelTurn then 1 else 0) + count_turns es"

lemma queued_in_history:
  "sys_inv S \<Longrightarrow> settings_ok S \<Longrightarrow> p \<in> registered (srv S) \<Longrightarrow> history es S = Inr S' \<Longrightarrow>
   at_turns (\<lambda>env S. touch_time (objects (srv S) p) + 18 \<le> now env) es S \<Longrightarrow>
   k < wheel_capacity \<Longrightarrow> k < count_turns es \<Longrightarrow> p \<in> set (timing_wheel (srv S) ! k) \<Longrightarrow>
   sometime (\<lambda>S. p \<in> set (pending_to_remove (srv S))) es S"
proof (induction es arbitrary: S k)
  case (Cons x es)
  obtain env e where x: "x = (env, e)" by (cases x)
  with Cons.prems(4) obtain S1 where en: "enabled S e" and h: "handle env e S = Inr S1" and r: "history es S1 = Inr S'"
    by (auto simp: rbind_Inr_iff)
  have I1: "sys_inv S1" by (rule sys_inv_kept [OF Cons.prems(1) en h])
  have st1: "settings_ok S1" using Cons.prems(2) handle_settings [OF h] by (simp add: settings_ok_def same_settings_def)
  have at1: "at_turns (\<lambda>env S. touch_time (objects (srv S) p) + 18 \<le> now env) es S1" using Cons.prems(5) h by (simp add: x)
  show ?case
  proof (cases "p \<in> set (pending_to_remove (srv S))")
    case False
    have "sometime (\<lambda>S. p \<in> set (pending_to_remove (srv S))) es S1"
    proof (cases "e = WheelTurn")
      case True
      with h obtain flag acts where c: "timing_wheel_check (now env) (srv S) = Inr (srv S1, flag, acts)"
        by (auto simp: rbind_Inr_iff)
      have "idle_at (now env) (srv S) p"
        using Cons.prems(5) True expiry_interval [OF Cons.prems(2)] by (simp add: x idle_at_def)
      from turn_progress [OF c _ Cons.prems(3) this Cons.prems(6,8)] Cons.prems(1)
      have t: "p \<in> registered (srv S1)" "p \<in> set (pending_to_remove (srv S1)) \<or>
          (\<exists>k'. k = Suc k' \<and> p \<in> set (timing_wheel (srv S1) ! k'))" by (simp_all add: sys_inv_def)
      from t(2) show ?thesis
      proof
        assume "p \<in> set (pending_to_remove (srv S1))"
        then show ?thesis by (cases es; cases "hd es") auto
      next
        assume "\<exists>k'. k = Suc k' \<and> p \<in> set (timing_wheel (srv S1) ! k')"
        then obtain k' where "k = Suc k'" "p \<in> set (timing_wheel (srv S1) ! k')" by blast
        with Cons.IH [OF I1 st1 t(1) r at1, of k'] Cons.prems(6,7) True show ?thesis by (simp add: x)
      qed
    next
      case other: False
      from event_keeps_place [OF Cons.prems(1,2) en h other Cons.prems(3) False]
      have p1: "p \<in> registered (srv S1)" and b: "buckets_kept (srv S) (srv S1)" by simp_all
      have "length (timing_wheel (srv S)) = wheel_capacity"
        using Cons.prems(1) by (simp add: sys_inv_def server_inv_def tracked_def)
      with b Cons.prems(6,8) have "p \<in> set (timing_wheel (srv S1) ! k)" by (auto simp: buckets_kept_def)
      with Cons.IH [OF I1 st1 p1 r at1 Cons.prems(6)] Cons.prems(7) other show ?thesis by (simp add: x)
    qed
    with h show ?thesis by (simp add: x)
  qed (simp add: x)
qed simp

text \<open>C8: No idle connection is forgotten: in any history of the server, other events included, a
  connection that is registered at its start and at every turn of the wheel has not been touched
  for 18 seconds is queued for removal at some moment of the history, at the latest after ten
  turns. The history is one in which the server keeps running: no event of it fails.\<close>

theorem idle_connection_is_queued:
  assumes "reachable envs S" and "p \<in> fst ` set (front_conns (srv S))"
    and "history es S = Inr S'" and "10 \<le> count_turns es"
    and "at_turns (\<lambda>env S. touch_time (objects (srv S) p) + 18 \<le> now env) es S"
  shows "sometime (\<lambda>S. p \<in> set (pending_to_remove (srv S))) es S"
proof (cases "p \<in> set (pending_to_remove (srv S))")
  case True
  then show ?thesis by (cases es; cases "hd es") auto
next
  case False
  have I: "sys_inv S" by (rule registry.always [OF assms(1)])
  have p: "p \<in> registered (srv S)" using assms(2) by (simp add: registered_def)
  obtain k where k: "k < wheel_capacity" "p \<in> set (timing_wheel (srv S) ! k)"
    using tracked_position [OF _ p False] I by (auto simp: sys_inv_def)
  with assms(4) have "k < count_turns es" by (simp add: wheel_capacity_def)
  from queued_in_history [OF I settings.always [OF assms(1)] p assms(3,5) k(1) this k(2)] show ?thesis .
qed

theorem idle_connection_is_queued_witness:
  "\<exists>S S'. reachable (UNIV :: string list env set) S \<and>
    history ((env_at 30, Managed) # replicate 9 (env_at 30, WheelTurn) @ [(env_at 30, Accept True False no_delay_ok 9), (env_at 30, WheelTurn)]) S = Inr S' \<and>
    sometime (\<lambda>S. 0 \<in> set (pending_to_remove (srv S)))
      ((env_at 30, Managed) # replicate 9 (env_at 30, WheelTurn) @ [(env_at 30, Accept True False no_delay_ok 9), (env_at 30, WheelTurn)]) S"
proof -
  let ?S = "with_client [[], [], [], [], [], [], [], [], [], [0]]"
  let ?es = "(env_at 30, Managed) # replicate 9 (env_at 30, WheelTurn) @ [(env_at 30, Accept True False no_delay_ok 9), (env_at 30, WheelTurn)]"
  have nine: "replicate 9 x = [x, x, x, x, x, x, x, x, x]" for x :: "string list env \<times> event"
    by (simp add: numeral_eq_Suc)
  have m: "handle (env_at 30) Managed (with_client w) = Inr (with_client w)" for w
    by (simp add: manage_notified_def)
  have a: "handle (env_at 30) (Accept True False no_delay_ok 9) (with_client w) = Inr (with_client w)" for w
    by (simp add: accept_conn_def with_client_def initial_def)
  have en: "starting (with_client w) = None" for w by (simp add: with_client_def initial_def)
  note steps = nine m a en turn_empty tenth_turn
  have h: "history ?es ?S = Inr expired_client" by (simp add: steps require_def del: handle.simps)
  have "at_turns (\<lambda>env S. touch_time (objects (srv S) 0) + 18 \<le> now env) ?es ?S"
    by (simp add: steps del: handle.simps)
  from idle_connection_is_queued [OF reach_connected _ h _ this] h reach_connected show ?thesis
    by (intro exI [of _ ?S] exI [of _ expired_client]) (simp add: nine)
qed

end
