(* ===== verification/Backtrace.thy ===== *)
theory Backtrace
  imports C_Numbers
begin

text \<open>
  The handler of fatal signals in \<open>manage.cpp\<close>. What a process prints on its way out is a list of
  pieces, by \<open>fprintf\<close> or through the log. The contents of the stack, whether
  \<open>backtrace_symbols\<close> finds memory, what goes wrong inside the handler and which thread takes the
  signal sent by \<open>kill\<close> come from outside. The handler calls functions that are not safe in a
  signal handler: \<open>malloc\<close> or a stream may be in use by the code that was interrupted, so it may
  fault or block between any two pieces.
\<close>

section \<open>Dispositions\<close>

definition SIGABRT :: int where "SIGABRT = 6"
definition SIGBUS :: int where "SIGBUS = 7"
definition SIGFPE :: int where "SIGFPE = 8"
definition SIGSEGV :: int where "SIGSEGV = 11"

lemmas fatal_signals = SIGABRT_def SIGBUS_def SIGFPE_def SIGSEGV_def

datatype piece = Printed string | Logged string

text \<open>\<open>caught\<close>: the signals whose action is \<open>backtrace_info\<close>; all others here have the default one.\<close>

record process =
  caught :: "int list"
  printed :: "piece list"

text \<open>How it ends; \<open>Hung\<close>: it does not, because a handler blocks.\<close>

datatype fate = Killed int | Exited int | Hung

text \<open>What goes wrong in a handler after so many pieces.\<close>

datatype trouble = Fault int nat | Block nat

record around =
  stack :: "string list"
  symbols_ok :: bool
  errno_text :: string
  trouble_in :: "nat \<Rightarrow> trouble option"  \<comment> \<open>in the handler that leaves so many signals caught\<close>
  taken_at_once :: "nat \<Rightarrow> bool"         \<comment> \<open>the signal is delivered before \<open>kill\<close> returns\<close>

definition put :: "piece list \<Rightarrow> process \<Rightarrow> process" where
  "put ps p = p\<lparr>printed := printed p @ ps\<rparr>"

text \<open>\<open>sigaction\<close> with \<open>backtrace_info\<close>; the flags ask for a reset on delivery and an open mask.\<close>

definition catch_signal :: "int \<Rightarrow> process \<Rightarrow> process" where
  "catch_signal sig p = p\<lparr>caught := List.insert sig (caught p)\<rparr>"

definition backtrace_init :: "process \<Rightarrow> process" where
  "backtrace_init p = catch_signal SIGSEGV (catch_signal SIGFPE (catch_signal SIGBUS (catch_signal SIGABRT p)))"

section \<open>The handler\<close>

definition bt_size :: nat where "bt_size = 100"

definition trace_head :: "around \<Rightarrow> int \<Rightarrow> piece list" where
  "trace_head a sig =
     (let nptrs = min bt_size (length (stack a)) in
      [Printed ([LF] @ ''Signal ['' @ show_int sig @ ''] received.'' @ [LF]),
       Logged ([LF] @ ''Signal ['' @ show_int sig @ ''] received.'' @ [LF]),
       Printed ''======== Stack trace ========'',
       Logged (''======== Stack trace ========'' @ [LF]),
       Logged ''backtrace() returned %d addresses'',
       Printed (''backtrace() returned '' @ show_nat nptrs @ '' addresses'' @ [LF])])"

definition trace_line :: "string \<Rightarrow> piece list" where
  "trace_line s = [Printed (s @ [LF]), Logged s]"

definition trace_end :: "piece list" where
  "trace_end = [Printed (''Stack Done!'' @ [LF]), Logged ''Stack Done!'']"

text \<open>What the handler prints: up to \<open>kill\<close>, or up to the exit when there are no symbols.\<close>

definition trace :: "around \<Rightarrow> int \<Rightarrow> piece list" where
  "trace a sig = trace_head a sig @
     (if \<not> symbols_ok a
      then [Printed (''backtrace_symbols: '' @ errno_text a @ [LF]), Logged ''backtrace_symbols'']
      else concat (map trace_line (take bt_size (stack a))) @ trace_end)"

text \<open>The handler, undisturbed: \<open>None\<close> when it gets to \<open>kill\<close>.\<close>

definition backtrace_info :: "around \<Rightarrow> int \<Rightarrow> process \<Rightarrow> process \<times> fate option" where
  "backtrace_info a sig p = (put (trace a sig) p, if symbols_ok a then None else Some (Exited 1))"

lemma caught_put [simp]: "caught (put ps p) = caught p"
  by (simp add: put_def)

lemma backtrace_info_caught: "backtrace_info a sig p = (p', r) \<Longrightarrow> caught p' = caught p"
  by (auto simp: backtrace_info_def)

text \<open>
  A signal arrives. The handler runs with its own signal reset; a fault in it, after any number
  of pieces, arrives in the same way. After the trace it sends the signal again, and calls
  \<open>abort\<close> in case it comes back.
\<close>

function deliver :: "around \<Rightarrow> int \<Rightarrow> process \<Rightarrow> process \<times> fate" where
  "deliver a sig p =
     (if sig \<notin> set (caught p) then (p, Killed sig)
      else
        let p = p\<lparr>caught := removeAll sig (caught p)\<rparr> in
        case trouble_in a (length (caught p)) of
          Some (Fault sig' n) \<Rightarrow> deliver a sig' (put (take n (trace a sig)) p)
        | Some (Block n) \<Rightarrow> (put (take n (trace a sig)) p, Hung)
        | None \<Rightarrow>
            (case backtrace_info a sig p of
               (p, Some f) \<Rightarrow> (p, f)
             | (p, None) \<Rightarrow>
                 if taken_at_once a (length (caught p)) then deliver a sig p else deliver a SIGABRT p))"
  by pat_completeness auto
termination deliver
  by (relation "measure (\<lambda>(a, sig, p). length (caught p))")
    (auto simp: length_removeAll_less dest!: backtrace_info_caught [OF sym])

declare deliver.simps [simp del]

section \<open>How a process ends\<close>

definition fresh_process :: process where "fresh_process = \<lparr> caught = [], printed = [] \<rparr>"

lemma init_caught: "caught (backtrace_init fresh_process) = [SIGSEGV, SIGFPE, SIGBUS, SIGABRT]"
  by (simp add: backtrace_init_def catch_signal_def fresh_process_def List.insert_def fatal_signals)

lemma trace_length: "length (trace a sig) \<le> 208"
proof -
  have "length (concat (map trace_line xs)) = 2 * length xs" for xs
    by (induction xs) (simp_all add: trace_line_def)
  then show ?thesis by (simp add: trace_def trace_head_def trace_end_def bt_size_def Let_def)
qed

text \<open>How it can end, given what the handlers meet.\<close>

definition ends :: "around \<Rightarrow> process \<Rightarrow> fate \<Rightarrow> bool" where
  "ends a p f \<longleftrightarrow> f = Exited 1 \<and> \<not> symbols_ok a \<or> (\<exists>s. f = Killed s \<and> s \<notin> set (caught p)) \<or>
     f = Hung \<and> (\<exists>k n. trouble_in a k = Some (Block n))"

lemma deliver_outcome:
  "deliver a sig p = (p', f) \<Longrightarrow>
   length (printed p') + 208 * length (caught p') \<le> length (printed p) + 208 * length (caught p) \<and> ends a p' f"
proof (induction a sig p rule: deliver.induct)
  case (1 a sig p)
  define q where "q = p\<lparr>caught := removeAll sig (caught p)\<rparr>"
  show ?case
  proof (cases "sig \<in> set (caught p)")
    case False
    with 1(4) show ?thesis by (subst (asm) deliver.simps) (auto simp: ends_def)
  next
    case True
    then have less: "length (caught q) < length (caught p)" by (simp add: q_def length_removeAll_less)
    have pq: "printed q = printed p" by (simp add: q_def)
    have part: "length (take n (trace a sig)) \<le> 208" for n using trace_length [of a sig] by simp
    show ?thesis
    proof (cases "trouble_in a (length (caught q))")
      case tr: (Some t)
      show ?thesis
      proof (cases t)
        case (Fault s n)
        with 1(4) True tr have "deliver a s (put (take n (trace a sig)) q) = (p', f)"
          by (subst (asm) deliver.simps) (simp add: q_def Let_def)
        from 1(3) [OF _ q_def tr Fault this] True less pq part [of n] show ?thesis by (simp add: put_def)
      next
        case (Block n)
        with 1(4) True tr have "p' = put (take n (trace a sig)) q" "f = Hung"
          by (subst (asm) deliver.simps, simp add: q_def Let_def)+
        with less pq part [of n] tr Block show ?thesis by (auto simp: put_def ends_def)
      qed
    next
      case None
      obtain u r where b: "backtrace_info a sig q = (u, r)" by (cases "backtrace_info a sig q")
      have u: "length (printed u) \<le> length (printed q) + 208" "caught u = caught q"
        and r: "r = None \<or> r = Some (Exited 1) \<and> \<not> symbols_ok a"
        using b trace_length [of a sig] by (auto simp: backtrace_info_def put_def split: if_splits)
      show ?thesis
      proof (cases r)
        case (Some g)
        with 1(4) True None b have "p' = u" "f = g"
          by (subst (asm) deliver.simps, simp add: q_def Let_def)+
        with u r Some less pq show ?thesis by (simp add: ends_def)
      next
        case none: None
        with 1(4) True None b have d: "deliver a (if taken_at_once a (length (caught u)) then sig else SIGABRT) u = (p', f)"
          by (subst (asm) deliver.simps) (simp add: q_def Let_def split: if_splits)
        have "length (printed p') + 208 * length (caught p') \<le> length (printed u) + 208 * length (caught u) \<and> ends a p' f"
          using 1(1) [OF _ q_def None b [symmetric] none] 1(2) [OF _ q_def None b [symmetric] none] True d
          by (simp split: if_splits)
        with u less pq show ?thesis by auto
      qed
    qed
  qed
qed

text \<open>C40: After a fatal signal, whatever faults come after any piece that is printed, and in whichever
  handler: the process ends by the default action of some signal, or by \<open>exit (1)\<close> when there is
  no memory for the symbols, unless one of the handlers blocks; at most 832 pieces are printed.
  With nothing in the way the trace is complete, shows at most 100 frames, and the process dies
  by the signal it received.\<close>

theorem fatal_signal_outcome:
  assumes "deliver a sig (backtrace_init fresh_process) = (p, f)"
  shows "length (printed p) \<le> 832 \<and>
    (f = Exited 1 \<and> \<not> symbols_ok a \<or> (\<exists>s. f = Killed s \<and> s \<notin> set (caught p)) \<or>
     f = Hung \<and> (\<exists>k n. trouble_in a k = Some (Block n))) \<and>
    (sig \<in> {SIGABRT, SIGBUS, SIGFPE, SIGSEGV} \<and> symbols_ok a \<and> (\<forall>n. trouble_in a n = None \<and> taken_at_once a n) \<longrightarrow>
      f = Killed sig \<and>
      printed p = trace_head a sig @ concat (map trace_line (take 100 (stack a))) @ trace_end)"
proof (intro conjI impI)
  have none: "printed (backtrace_init fresh_process) = []"
    by (simp add: backtrace_init_def catch_signal_def fresh_process_def)
  from deliver_outcome [OF assms] show "length (printed p) \<le> 832"
    "f = Exited 1 \<and> \<not> symbols_ok a \<or> (\<exists>s. f = Killed s \<and> s \<notin> set (caught p)) \<or>
     f = Hung \<and> (\<exists>k n. trouble_in a k = Some (Block n))"
    by (simp_all add: none init_caught ends_def)
  assume h: "sig \<in> {SIGABRT, SIGBUS, SIGFPE, SIGSEGV} \<and> symbols_ok a \<and> (\<forall>n. trouble_in a n = None \<and> taken_at_once a n)"
  define q where "q = (backtrace_init fresh_process)\<lparr>caught := removeAll sig (caught (backtrace_init fresh_process))\<rparr>"
  have b: "backtrace_info a sig q = (put (trace a sig) q, None)"
    using h by (simp add: backtrace_info_def)
  have "deliver a sig (backtrace_init fresh_process) = deliver a sig (put (trace a sig) q)"
    using h b by (subst deliver.simps) (auto simp: Let_def q_def init_caught)
  also have "\<dots> = (put (trace a sig) q, Killed sig)" by (subst deliver.simps) (simp add: q_def)
  finally show "f = Killed sig" "printed p = trace_head a sig @ concat (map trace_line (take 100 (stack a))) @ trace_end"
    using assms none h by (simp_all add: put_def q_def trace_def bt_size_def)
qed

text \<open>A \<open>SIGSEGV\<close> whose handler faults again after the first three pieces.\<close>

definition shaken :: around where
  "shaken = \<lparr> stack = [''main''], symbols_ok = True, errno_text = [],
     trouble_in = (\<lambda>k. if k = 3 then Some (Fault SIGSEGV 3) else None), taken_at_once = (\<lambda>_. True) \<rparr>"

theorem fatal_signal_outcome_witness:
  "\<exists>p. deliver shaken SIGSEGV (backtrace_init fresh_process) = (p, Killed SIGSEGV) \<and> length (printed p) = 3 \<and>
     length (printed p) \<le> 832"
proof -
  define q where "q = put (take 3 (trace shaken SIGSEGV)) ((backtrace_init fresh_process)\<lparr>caught := [SIGFPE, SIGBUS, SIGABRT]\<rparr>)"
  have "deliver shaken SIGSEGV (backtrace_init fresh_process) = deliver shaken SIGSEGV q"
    by (subst deliver.simps) (simp add: init_caught shaken_def q_def fatal_signals)
  also have "\<dots> = (q, Killed SIGSEGV)" by (subst deliver.simps) (simp add: q_def fatal_signals)
  finally have d: "deliver shaken SIGSEGV (backtrace_init fresh_process) = (q, Killed SIGSEGV)" .
  moreover have "length (printed q) = 3"
    by (simp add: q_def put_def trace_def trace_head_def Let_def backtrace_init_def catch_signal_def fresh_process_def)
  ultimately show ?thesis using fatal_signal_outcome [OF d] by blast
qed

text \<open>When another thread takes the signal that \<open>kill\<close> sends, \<open>abort\<close> comes first: a second trace is
  printed, and the process dies by \<open>SIGABRT\<close> instead.\<close>

lemma late_signal_traced_twice:
  assumes "symbols_ok a" and "\<forall>n. trouble_in a n = None \<and> \<not> taken_at_once a n"
  shows "\<exists>p. deliver a SIGSEGV (backtrace_init fresh_process) = (p, Killed SIGABRT) \<and>
    printed p = trace a SIGSEGV @ trace a SIGABRT"
proof -
  have b: "backtrace_info a s q = (put (trace a s) q, None)" for s q
    using assms(1) by (simp add: backtrace_info_def)
  have "deliver a SIGSEGV (backtrace_init fresh_process) =
      deliver a SIGABRT (put (trace a SIGSEGV) ((backtrace_init fresh_process)\<lparr>caught := [SIGFPE, SIGBUS, SIGABRT]\<rparr>))"
    using assms(2) b by (subst deliver.simps) (simp add: init_caught fatal_signals)
  also have "\<dots> = deliver a SIGABRT (put (trace a SIGABRT) ((put (trace a SIGSEGV) (backtrace_init fresh_process))\<lparr>caught := [SIGFPE, SIGBUS]\<rparr>))"
    using assms(2) b by (subst deliver.simps) (simp add: fatal_signals put_def)
  also have "\<dots> = (put (trace a SIGABRT) ((put (trace a SIGSEGV) (backtrace_init fresh_process))\<lparr>caught := [SIGFPE, SIGBUS]\<rparr>), Killed SIGABRT)"
    by (subst deliver.simps) (simp add: fatal_signals put_def)
  finally show ?thesis
    by (simp add: put_def backtrace_init_def catch_signal_def fresh_process_def)
qed

end
