(* ===== verification/Spec2Isabelle.thy ===== *)
theory Spec2Isabelle
  imports Dispatch Json_Api Pipelining Startup Interleaving_Facts Expiry Backtrace
begin

text \<open>
  A verification development for \<^emph>\<open>airobot_msgd\<close>, a message distribution server in C++11 on
  Boost.Asio.

  \<^bold>\<open>The program.\<close> Clients connect to a front port and send HTTP requests with a JSON body
  (\<open>front_conn.cpp\<close>, \<open>http_parser.cpp\<close>, \<open>reply.hpp\<close>); a request for \<open>/bb\<close> is forwarded to one
  of the backend workers connected to a second port (\<open>backend_server.cpp\<close>, \<open>backend_conn.cpp\<close>)
  and answered with a page fetched from an upstream server (\<open>client_ops.cpp\<close>). The front server
  (\<open>http_server.cpp\<close>) keeps a registry of its connections, a cache of idle connection objects, a
  set waiting for removal and a timing wheel. Two helper threads act on it: the co-worker
  (\<open>co_worker.cpp\<close>) turns the wheel and expires idle connections, the manage thread
  (\<open>manage.cpp\<close>) removes and recycles what was queued. \<open>main.cpp\<close> creates and starts it all.
  JSON is read and written by \<open>json11.cpp\<close>.

  \<^bold>\<open>Theories and what they model.\<close> Paths are under \<open>src/\<close>; definitions have the source's names
  where that is possible.

    \<^item> \<open>Prelude\<close>: the faults, the result type and its bind, vectors, C strings, the sorted
      association lists that stand for \<open>std::map\<close> (locale \<open>ordered_store\<close>, interpreted for the
      two ways of inserting).
    \<^item> \<open>C_Numbers\<close>, \<open>Ieee_Double\<close>: \<open>to_string\<close>, \<open>atoi\<close>, \<open>strtol\<close>, and IEEE 754 \<open>double\<close>s
      with rounding, comparison, casts, \<open>strtod\<close> and \<open>%.17g\<close>, computed on integers.
    \<^item> \<open>Json_Value\<close>, \<open>Json_Api\<close>: the values of \<open>json11.cpp\<close> and the inline interface of
      \<open>json11.hpp\<close>: accessors, \<open>dump\<close>, comparisons, \<open>has_shape\<close>, constructors, overloads. The
      locale \<open>weak_order\<close> states what an ordering promises; it is interpreted for \<open>double\<close>s and
      for values without NaN.
    \<^item> \<open>Json_Parser\<close>, \<open>Json_Parser_Facts\<close>, \<open>Json_Roundtrip\<close>: \<open>struct JsonParser\<close>,
      \<open>Json::parse\<close>, \<open>Json::parse_multi\<close>. The locales \<open>parser_op\<close> and \<open>value_parser\<close> state what
      a member function keeps of the parser's state; the round trip with \<open>dump\<close> is a theorem.
    \<^item> \<open>Http_Proto\<close>, \<open>Http_Parser\<close>, \<open>Http_Parser_Facts\<close>, \<open>Reply\<close>: the constants, \<open>parse_request\<close>
      and \<open>request_option\<close>, the two \<open>reply_generate\<close>s, with the round trips of requests and
      replies.
    \<^item> \<open>Connection\<close>: the base class of \<open>connection.cpp\<close>. An asynchronous call or a call into
      another object is an \<open>action\<close> the operation returns; the handler that runs on completion
      is a separate function.
    \<^item> \<open>Backend\<close>: the handlers of \<open>backend_conn.cpp\<close>, and of \<open>backend_server.cpp\<close> the connection
      vector, the selection of a worker (locale \<open>backend_selector\<close>), the periodic check and the
      statistics.
    \<^item> \<open>Client_Ops\<close>: \<open>client_ops.cpp\<close> over an abstract socket.
    \<^item> \<open>Front_Conn\<close>, \<open>Front_Conn_Facts\<close>, \<open>Pipelining\<close>: the handlers of \<open>front_conn.cpp\<close>, one
      function each with all its branches, and recycling; requests answered, bodies assembled,
      answers delivered in pieces, the forwarding of \<open>/bb\<close>, and two requests in flight at once.
    \<^item> \<open>Http_Server\<close>, \<open>Server_Facts\<close>: the state of \<open>http_server\<close> as a record with a heap of
      connection objects and use counts; acceptance, sessions, limits; its invariant, and the
      locale \<open>conn_operation\<close> between the registry and the operations it runs on a connection.
    \<^item> \<open>Workers\<close>, \<open>Worker_Facts\<close>: the wheel check of \<open>co_worker.cpp\<close> and the removal loop of
      \<open>manage.cpp\<close>.
    \<^item> \<open>System\<close>, \<open>Settings\<close>, \<open>Scenarios\<close>, \<open>System_Facts\<close>, \<open>Dispatch\<close>: a step relation whose
      events run these handlers in any order, the locale \<open>system_invariant\<close> with three
      interpretations (the registry's invariant, the settings, the backends' sockets), concrete
      histories, the refinement of the registry by three abstract sets, and the path of a
      message from a client to a backend.
    \<^item> \<open>Interleaving\<close>, \<open>Interleaving_Inv\<close>, \<open>Interleaving_Facts\<close>: the co-worker and the manage thread
      in small steps, one visited element of the wheel or one part of a removal at a time, with
      their two mutexes and the notification; the invariant between any two steps.
    \<^item> \<open>Expiry\<close>: idle connections are queued by the wheel in any history of the server.
    \<^item> \<open>Startup\<close>: \<open>main.cpp\<close>, the global objects of \<open>general.hpp\<close>, constructors and \<open>run\<close>
      functions, with the threads starting in any order; it ends in the initial state of
      \<open>System\<close>.
    \<^item> \<open>Backtrace\<close>: the handler of fatal signals of \<open>manage.cpp\<close>, which an assertion that fails ends
      in, with faults inside the handler itself, and handlers that block.

  \<^bold>\<open>How the code is rendered.\<close> A class is a record, an enumeration a datatype, \<open>size_t\<close> and
  \<open>uint64_t\<close> are 64-bit words that wrap. An assertion, an access outside a buffer, a null
  pointer, a cast out of range and an exception are values of \<open>fault\<close>, and every operation that
  may meet one returns \<open>fault + 'a\<close>, so that theorems which conclude \<open>Inr\<close> include that none of
  these happens. \<open>assert\<close> is taken as active, as the makefiles build it. What is outside \<open>src/\<close>
  is a parameter: Boost's string and regular expression algorithms are the record \<open>boost\<close>, whose
  documentation is the hypothesis \<open>boost_spec\<close> (and \<open>ref_boost\<close> satisfies it); the printed date,
  the clock, the thread's \<open>errno\<close> and the upstream server are in the record \<open>env\<close>; a completion
  carries any error code and any bytes.

  \<^bold>\<open>What the lemmas show.\<close> JSON: parsing returns on every input, sets \<open>err\<close> exactly on failure,
  yields well-formed values of bounded nesting and reads back what was printed; the comparisons
  are a strict weak order. HTTP: requests and replies are read back exactly. Connections: a
  complete request is answered by exactly its reply, a message for a backend is written on one
  working connection. The server: its counter, bounds and disjointness hold in every reachable
  state, removal is exact, idle connections are queued within ten turns of the wheel, whatever happens between them, and others
  are left alone, and every step refines an operation on sets. The threads: these bounds hold
  between the small steps too, the manage thread never fails an assertion, and the bucket the
  co-worker reads without a lock does not change under it. A fatal signal ends the process with
  a bounded trace, unless the handler blocks. Several theorems state what goes
  wrong, since the code does it: answers of backends never reach a client, a recycled connection
  that is still in use stops the next acceptance, a request with surplus bytes aborts the
  process, overlapping answers replace one another, a notification that nobody waits for is lost,
  and the co-worker that looks at a connection between its washing and its caching stops.

  \<^bold>\<open>Fuel and termination.\<close> \<open>parse_json\<close> takes fuel \<open>max_depth + 2\<close> for its nesting, since
  deeper calls fail at once, and its loops take \<open>length str + 2\<close>, since each round consumes a
  character; \<open>parse_returns\<close> proves that both suffice. The reading loop of \<open>client_ops\<close> is a
  \<open>partial_function\<close>, and \<open>sync_read_from_returns\<close> shows that it has a result. All other loops
  are structural or have a measure; for nested signals it is the number still caught.

  \<^bold>\<open>Not modelled.\<close> A handler runs as one step (the acceptor's as two, queuing a connection and
  notifying as two), and so does a visit of one element by the co-worker and each part of a
  removal; single memory accesses inside such a step, and the C++ meaning of a data race, are not
  visible. What is read before a lock is taken is read in the same step as what the lock
  protects. A fault ends the process, and what its handler
  had already asked other objects to do is not recorded. In the handler of fatal signals troubles
  come between two printed pieces, not inside one. \<open>strtod\<close> is modelled on decimal literals: a
  hexadecimal one, which C would read too, makes the parse fail anyway. \<open>close\<close> and \<open>cancel\<close> on a socket are assumed not to throw. The set-up of the log file,
  the wording of log lines outside the trace, the printing of statistics, the destructors, the
  build files and the unit test of the header parser are left out: they do not act on the state
  above.
\<close>

end
